(* ===== verification/Prelude.thy ===== *)
theory Prelude
  imports Main "HOL-Library.Word" "HOL-Library.Monad_Syntax"
begin

text \<open>
  Shared vocabulary of the development: machine words, the error numbers of
  \<^verbatim>\<open>kern/include/kern/errno.h\<close>, kernel assertions, checked array accesses and the
  generic facts about options, lists and words that the component theories use.

  Conventions.
  \<^item> A kernel function that can fail an assertion, call \<open>panic\<close> or touch memory outside
    the object it works on returns an \<open>option\<close>; \<open>None\<close> means that the kernel does not
    get past that point. Theorems about an operation therefore state \<open>Some\<close> explicitly.
  \<^item> A C function returning \<open>0\<close> or an error number returns \<open>errno + 'a\<close>, where
    \<open>Inr\<close> carries the out-parameters of the successful call.
  \<^item> Whether an allocation inside an operation succeeds is an argument of its model.
\<close>

unbundle bit_operations_syntax

section \<open>Machine integers\<close>

type_synonym u8 = "8 word"
type_synonym u16 = "16 word"
type_synonym u32 = "32 word"
type_synonym u64 = "64 word"

text \<open>Unsigned 32-bit arithmetic on naturals, with the wrap-around written out.\<close>

definition wrap32 :: "nat \<Rightarrow> nat" where
  "wrap32 n = n mod 2 ^ 32"

definition sub32 :: "nat \<Rightarrow> nat \<Rightarrow> nat" where
  "sub32 a b = (a + 2 ^ 32 - b) mod 2 ^ 32"

text \<open>\<^verbatim>\<open>DIVROUNDUP(a,b)\<close> of \<^verbatim>\<open>kern/include/lib.h\<close> on unsigned operands.\<close>

definition DIVROUNDUP :: "nat \<Rightarrow> nat \<Rightarrow> nat" where
  "DIVROUNDUP a b = sub32 (wrap32 (a + b)) 1 div b"

text \<open>Two's complement 32-bit arithmetic on integers.\<close>

definition s32 :: "int \<Rightarrow> int" where
  "s32 x = (x + 2 ^ 31) mod 2 ^ 32 - 2 ^ 31"

lemma wrap32_small [simp]: "n < 4294967296 \<Longrightarrow> wrap32 n = n"
  by (simp add: wrap32_def)

lemma sub32_small [simp]: "b \<le> a \<Longrightarrow> a < 4294967296 \<Longrightarrow> sub32 a b = a - b"
proof -
  assume "b \<le> a" "a < 4294967296"
  then have "a + 2 ^ 32 - b = (a - b) + 2 ^ 32" and "a - b < 2 ^ 32" by simp_all
  then show ?thesis unfolding sub32_def by (metis mod_add_self2 mod_less)
qed

lemma DIVROUNDUP_eq:
  assumes "0 < b" and "a + b < 4294967296"
  shows "DIVROUNDUP a b = (a + b - 1) div b"
proof -
  have "1 \<le> a + b" using assms(1) by simp
  then show ?thesis using assms(2) by (simp add: DIVROUNDUP_def del: One_nat_def)
qed

lemma s32_small: "- 2147483648 \<le> x \<Longrightarrow> x < 2147483648 \<Longrightarrow> s32 x = x"
  by (simp add: s32_def)

text \<open>Doubling a 32-bit integer either grows it or yields a value that is not positive.\<close>

lemma s32_double_grows:
  assumes "n < 2147483648" "0 < s32 (n * 2)"
  shows "n < s32 (n * 2)"
proof -
  consider "n \<le> 0" | "0 < n" "n < 1073741824" | "1073741824 \<le> n" by linarith
  then show ?thesis
  proof cases
    case 1
    then show ?thesis using assms by linarith
  next
    case 2
    then show ?thesis by (simp add: s32_small)
  next
    case 3
    have "(n * 2 + 2147483648) mod 4294967296 = (n * 2 - 2147483648) mod 4294967296"
      by (simp add: mod_eq_dvd_iff)
    also have "\<dots> = n * 2 - 2147483648" using 3 assms(1) by simp
    finally show ?thesis using assms by (simp add: s32_def)
  qed
qed

lemma s32_upper [simp]: "s32 n < 2147483648" "\<not> 2147483648 \<le> s32 n"
  by (simp_all add: s32_def)

section \<open>Error numbers\<close>

text \<open>The general codes of the header; the codes from 42 on are the socket errors, which nothing
  in the kernel returns.\<close>

datatype errno =
    ENOSYS | EUNIMP | ENOMEM | EAGAIN | EINTR | EFAULT | ENAMETOOLONG | EINVAL
  | EPERM | EACCES | EMPROC | ENPROC | ENOEXEC | E2BIG | ESRCH | ECHILD
  | ENOTDIR | EISDIR | ENOENT | ELOOP | ENOTEMPTY | EEXIST | EMLINK | EXDEV
  | ENODEV | ENXIO | EBUSY | EMFILE | ENFILE | EBADF | EIOCTL | EIO
  | ESPIPE | EPIPE | EROFS | ENOSPC | EDQUOT | EFBIG | EFTYPE | EDOM | ERANGE

definition errno_list :: "errno list" where
  "errno_list =
    [ENOSYS, EUNIMP, ENOMEM, EAGAIN, EINTR, EFAULT, ENAMETOOLONG, EINVAL,
     EPERM, EACCES, EMPROC, ENPROC, ENOEXEC, E2BIG, ESRCH, ECHILD,
     ENOTDIR, EISDIR, ENOENT, ELOOP, ENOTEMPTY, EEXIST, EMLINK, EXDEV,
     ENODEV, ENXIO, EBUSY, EMFILE, ENFILE, EBADF, EIOCTL, EIO,
     ESPIPE, EPIPE, EROFS, ENOSPC, EDQUOT, EFBIG, EFTYPE, EDOM, ERANGE]"

fun index_from :: "nat \<Rightarrow> 'a list \<Rightarrow> 'a \<Rightarrow> nat" where
  "index_from n [] y = n"
| "index_from n (x # xs) y = (if x = y then n else index_from (Suc n) xs y)"

text \<open>The number of an error: its place in the header, counted from 1.\<close>

definition errno_code :: "errno \<Rightarrow> nat" where
  "errno_code e = index_from 1 errno_list e"

section \<open>Assertions and checked accesses\<close>

definition KASSERT :: "bool \<Rightarrow> unit option" where
  "KASSERT b = (if b then Some () else None)"

definition idx :: "'a list \<Rightarrow> nat \<Rightarrow> 'a option" where
  "idx xs i = (if i < length xs then Some (xs ! i) else None)"

definition upd :: "'a list \<Rightarrow> nat \<Rightarrow> 'a \<Rightarrow> 'a list option" where
  "upd xs i x = (if i < length xs then Some (xs[i := x]) else None)"

lemma KASSERT_simps [simp]:
  "KASSERT True = Some ()"
  "KASSERT False = None"
  "KASSERT b = Some u \<longleftrightarrow> b"
  "KASSERT b = None \<longleftrightarrow> \<not> b"
  by (simp_all add: KASSERT_def)

lemma KASSERT_bind [simp]: "b \<Longrightarrow> KASSERT b \<bind> f = f ()"
  by (simp add: KASSERT_def)

lemma idx_in [simp]: "i < length xs \<Longrightarrow> idx xs i = Some (xs ! i)"
  by (simp add: idx_def)

lemma idx_Some_iff: "idx xs i = Some x \<longleftrightarrow> i < length xs \<and> xs ! i = x"
  by (auto simp: idx_def)

lemma upd_in [simp]: "i < length xs \<Longrightarrow> upd xs i x = Some (xs[i := x])"
  by (simp add: upd_def)

lemma upd_Some_iff: "upd xs i x = Some ys \<longleftrightarrow> i < length xs \<and> ys = xs[i := x]"
  by (auto simp: upd_def)

lemma option_bind_Some_iff:
  "x \<bind> f = Some y \<longleftrightarrow> (\<exists>a. x = Some a \<and> f a = Some y)"
  by (cases x) simp_all

section \<open>Bits of words\<close>

lemma and_push_bit_1_eq_0 [simp]:
  fixes w :: "'a::len word"
  shows "w AND push_bit n 1 = 0 \<longleftrightarrow> \<not> bit w n"
  by (simp add: bit_iff_and_push_bit_not_eq_0)

lemma and_exp_eq_0 [simp]:
  fixes w :: "'a::len word"
  shows "w AND 2 ^ n = 0 \<longleftrightarrow> \<not> bit w n"
  using and_push_bit_1_eq_0 [of w n] by (simp add: push_bit_eq_mult)

lemma or_exp: "w OR 2 ^ n = set_bit n (w :: 'a::len word)"
  by (simp add: set_bit_eq_or)

lemma and_not_exp: "w AND NOT (2 ^ n) = unset_bit n (w :: 'a::len word)"
  by (simp add: unset_bit_eq_and_not)

lemma word_all_bits_iff:
  fixes w :: "'a::len word"
  shows "w = - 1 \<longleftrightarrow> (\<forall>n < LENGTH('a). bit w n)"
  by (auto simp: bit_eq_iff bit_simps)

section \<open>Two 32-bit halves of a 64-bit word\<close>

text \<open>\<open>hi32\<close> and \<open>lo32\<close> are the halves of a 64-bit value and \<open>mk64\<close> puts them together.\<close>

definition mk64 :: "u32 \<Rightarrow> u32 \<Rightarrow> u64" where
  "mk64 h l = push_bit 32 (ucast h) OR ucast l"

definition hi32 :: "u64 \<Rightarrow> u32" where
  "hi32 x = ucast (drop_bit 32 x)"

definition lo32 :: "u64 \<Rightarrow> u32" where
  "lo32 x = ucast x"

lemma bit_mk64: "bit (mk64 h l) n \<longleftrightarrow> (if n < 32 then bit l n else bit h (n - 32))"
  by (auto simp: mk64_def bit_simps dest: bit_imp_le_length)

lemma bit_hi32: "bit (hi32 x) n \<longleftrightarrow> bit x (n + 32)"
  by (auto simp: hi32_def bit_simps add.commute dest: bit_imp_le_length)

lemma bit_lo32: "bit (lo32 x) n \<longleftrightarrow> n < 32 \<and> bit x n"
  by (auto simp: lo32_def bit_simps)

lemma hi32_mk64 [simp]: "hi32 (mk64 h l) = h"
  by (rule bit_word_eqI) (simp add: bit_hi32 bit_mk64)

lemma lo32_mk64 [simp]: "lo32 (mk64 h l) = l"
  by (rule bit_word_eqI) (simp add: bit_lo32 bit_mk64)

lemma mk64_hi_lo [simp]: "mk64 (hi32 x) (lo32 x) = x"
  by (rule bit_word_eqI) (simp add: bit_hi32 bit_lo32 bit_mk64)

lemma unat_hi32: "unat (hi32 x) = unat x div 2 ^ 32"
proof -
  have "unat x < 2 ^ LENGTH(64)" by (rule unsigned_less)
  then have "unat x < 2 ^ 32 * 2 ^ 32" by simp
  then have "unat x div 2 ^ 32 < 2 ^ 32" by (rule less_mult_imp_div_less)
  then show ?thesis
    by (simp add: hi32_def unsigned_ucast_eq unat_drop_bit_eq drop_bit_eq_div take_bit_eq_mod unat_div)
qed

lemma unat_lo32: "unat (lo32 x) = unat x mod 2 ^ 32"
  by (simp add: lo32_def unsigned_ucast_eq take_bit_eq_mod)

lemma unat_mk64: "unat (mk64 h l) = unat h * 2 ^ 32 + unat l"
  using unat_hi32 [of "mk64 h l"] unat_lo32 [of "mk64 h l"]
  by (metis div_mult_mod_eq hi32_mk64 lo32_mk64)

lemma word64_eqI: "hi32 x = hi32 y \<Longrightarrow> lo32 x = lo32 y \<Longrightarrow> x = y"
  by (metis mk64_hi_lo)

end
