(* ===== verification/Interfaces.thy ===== *)
theory Interfaces
  imports Prelude
begin

text \<open>
  The contracts between the components, as locales: what a provider promises and what its
  clients may conclude from that alone. Each locale is interpreted, in the theory of the
  component that provides it, on the model of the code.
\<close>

section \<open>Allocators and free maps\<close>

text \<open>
  An index allocator hands out the indices below its capacity, one at a time and first fit; when
  none is left it reports \<open>full\<close> and changes nothing. A free map also takes them back.
\<close>

locale index_alloc =
  fixes wf :: "'s \<Rightarrow> bool"
    and used :: "'s \<Rightarrow> nat set"
    and cap :: "'s \<Rightarrow> nat"
    and alloc :: "'s \<Rightarrow> (('e + nat) \<times> 's) option"
    and full :: 'e
  assumes used_below: "wf s \<Longrightarrow> used s \<subseteq> {..<cap s}"
    and alloc_free: "wf s \<Longrightarrow> used s \<noteq> {..<cap s} \<Longrightarrow>
      \<exists>s'. alloc s = Some (Inr (LEAST i. i \<notin> used s), s') \<and> wf s' \<and> cap s' = cap s \<and>
           used s' = insert (LEAST i. i \<notin> used s) (used s)"
    and alloc_full: "wf s \<Longrightarrow> used s = {..<cap s} \<Longrightarrow> alloc s = Some (Inl full, s)"

locale free_map = index_alloc wf used cap alloc full
  for wf :: "'s \<Rightarrow> bool"
    and used :: "'s \<Rightarrow> nat set"
    and cap :: "'s \<Rightarrow> nat"
    and alloc :: "'s \<Rightarrow> (('e + nat) \<times> 's) option"
    and full :: 'e +
  fixes release :: "'s \<Rightarrow> nat \<Rightarrow> 's option"
  assumes release_used: "wf s \<Longrightarrow> i \<in> used s \<Longrightarrow>
      \<exists>s'. release s i = Some s' \<and> wf s' \<and> cap s' = cap s \<and> used s' = used s - {i}"

text \<open>A client that allocates \<open>n\<close> indices one after another and stops at the first
  failure.\<close>

fun alloc_seq :: "('s \<Rightarrow> (('e + nat) \<times> 's) option) \<Rightarrow> nat \<Rightarrow> 's \<Rightarrow> (('e + nat list) \<times> 's) option" where
  "alloc_seq al 0 s = Some (Inr [], s)"
| "alloc_seq al (Suc n) s =
     (case al s of
        None \<Rightarrow> None
      | Some (Inl e, s') \<Rightarrow> Some (Inl e, s')
      | Some (Inr i, s') \<Rightarrow>
          (case alloc_seq al n s' of
             None \<Rightarrow> None
           | Some (Inl e, s'') \<Rightarrow> Some (Inl e, s'')
           | Some (Inr is, s'') \<Rightarrow> Some (Inr (i # is), s'')))"

context index_alloc
begin

lemma finite_used: "wf s \<Longrightarrow> finite (used s)"
  using used_below finite_subset by blast

lemma least_free:
  assumes "wf s" "used s \<noteq> {..<cap s}"
  shows "(LEAST i. i \<notin> used s) \<notin> used s" "(LEAST i. i \<notin> used s) < cap s"
proof -
  obtain j where j: "j < cap s" "j \<notin> used s" using assms used_below by blast
  then show "(LEAST i. i \<notin> used s) \<notin> used s" by (metis LeastI)
  show "(LEAST i. i \<notin> used s) < cap s" using j Least_le [of "\<lambda>i. i \<notin> used s" j] by simp
qed

lemma alloc_total: "wf s \<Longrightarrow> \<exists>r s'. alloc s = Some (r, s') \<and> wf s' \<and> cap s' = cap s"
  using alloc_free alloc_full by (cases "used s = {..<cap s}") blast+

lemma alloc_Inr:
  assumes "wf s" "alloc s = Some (Inr i, s')"
  shows "i < cap s" "i \<notin> used s" "used s' = insert i (used s)" "wf s'" "cap s' = cap s"
proof -
  have ne: "used s \<noteq> {..<cap s}" using assms alloc_full by fastforce
  note * = alloc_free [OF assms(1) ne] least_free [OF assms(1) ne]
  show "i < cap s" "i \<notin> used s" "used s' = insert i (used s)" "wf s'" "cap s' = cap s"
    using * assms(2) by auto
qed

lemma alloc_fails_iff: "wf s \<Longrightarrow> alloc s = Some (Inl e, s') \<longleftrightarrow> used s = {..<cap s} \<and> e = full \<and> s' = s"
  using alloc_free alloc_full by (cases "used s = {..<cap s}") fastforce+

lemma card_below: "wf s \<Longrightarrow> used s \<noteq> {..<cap s} \<longleftrightarrow> card (used s) < cap s"
  by (metis card_lessThan card_seteq card_mono finite_lessThan le_less linorder_not_le used_below)

lemma alloc_seq_distinct:
  assumes "wf s" "card (used s) + n \<le> cap s"
  shows "\<exists>is s'. alloc_seq alloc n s = Some (Inr is, s') \<and> length is = n \<and> distinct is \<and>
           set is \<subseteq> {..<cap s} - used s \<and> used s' = used s \<union> set is \<and> wf s' \<and> cap s' = cap s"
  using assms
proof (induction n arbitrary: s)
  case 0
  then show ?case by simp
next
  case (Suc n)
  have "used s \<noteq> {..<cap s}" using Suc.prems card_below by simp
  then obtain i s1 where a: "alloc s = Some (Inr i, s1)" using alloc_free Suc.prems(1) by blast
  note i = alloc_Inr [OF Suc.prems(1) a]
  have "card (used s1) + n \<le> cap s1"
    using i Suc.prems finite_used [OF Suc.prems(1)] by simp
  from Suc.IH [OF i(4) this] obtain "is" s' where
    "alloc_seq alloc n s1 = Some (Inr is, s')" "length is = n" "distinct is"
    "set is \<subseteq> {..<cap s1} - used s1" "used s' = used s1 \<union> set is" "wf s'" "cap s' = cap s1"
    by blast
  then show ?case using a i by auto
qed

end

context free_map
begin

lemma alloc_release:
  assumes "wf s" "alloc s = Some (Inr i, s')"
  shows "\<exists>s''. release s' i = Some s'' \<and> wf s'' \<and> used s'' = used s \<and> cap s'' = cap s"
  using release_used [of s' i] alloc_Inr [OF assms] by auto

end

section \<open>First-in first-out queues\<close>

text \<open>
  A queue behaves like a list: a push appends, a pop takes the head. \<open>admit xs x\<close> says when \<open>x\<close>
  may be pushed on a queue holding \<open>xs\<close> (a bound on the length, or that an intrusive node is not
  queued twice). \<open>run_ops\<close> executes a script of pushes and pops and collects what was popped;
  \<open>list_ops\<close> is the same on the list itself.
\<close>

datatype 'a qop = Push 'a | Pop

fun run_ops :: "('s \<Rightarrow> 'a \<Rightarrow> 's option) \<Rightarrow> ('s \<Rightarrow> ('a \<times> 's) option) \<Rightarrow> 'a qop list \<Rightarrow> 's \<Rightarrow> ('a list \<times> 's) option" where
  "run_ops push pop [] s = Some ([], s)"
| "run_ops push pop (Push x # ops) s = do {
     s' \<leftarrow> push s x;
     run_ops push pop ops s'
   }"
| "run_ops push pop (Pop # ops) s = do {
     (y, s') \<leftarrow> pop s;
     (ys, s'') \<leftarrow> run_ops push pop ops s';
     Some (y # ys, s'')
   }"

fun list_ops :: "('a list \<Rightarrow> 'a \<Rightarrow> bool) \<Rightarrow> 'a qop list \<Rightarrow> 'a list \<Rightarrow> ('a list \<times> 'a list) option" where
  "list_ops admit [] xs = Some ([], xs)"
| "list_ops admit (Push x # ops) xs = (if admit xs x then list_ops admit ops (xs @ [x]) else None)"
| "list_ops admit (Pop # ops) [] = None"
| "list_ops admit (Pop # ops) (x # xs) = do {
     (ys, zs) \<leftarrow> list_ops admit ops xs;
     Some (x # ys, zs)
   }"

lemma list_ops_order:
  "list_ops admit ops xs = Some (ys, zs) \<Longrightarrow> ys @ zs = xs @ concat (map (\<lambda>p. case p of Push x \<Rightarrow> [x] | Pop \<Rightarrow> []) ops)"
  by (induction admit ops xs arbitrary: ys zs rule: list_ops.induct)
     (auto split: if_splits simp: option_bind_Some_iff)

locale fifo =
  fixes rep :: "'s \<Rightarrow> 'a list \<Rightarrow> bool"
    and push :: "'s \<Rightarrow> 'a \<Rightarrow> 's option"
    and pop :: "'s \<Rightarrow> ('a \<times> 's) option"
    and admit :: "'a list \<Rightarrow> 'a \<Rightarrow> bool"
  assumes push_rep: "rep s xs \<Longrightarrow> admit xs x \<Longrightarrow> \<exists>s'. push s x = Some s' \<and> rep s' (xs @ [x])"
    and pop_rep: "rep s (x # xs) \<Longrightarrow> \<exists>s'. pop s = Some (x, s') \<and> rep s' xs"
begin

lemma run_ops_refines:
  assumes "rep s xs" "list_ops admit ops xs = Some (ys, zs)"
  shows "\<exists>s'. run_ops push pop ops s = Some (ys, s') \<and> rep s' zs"
  using assms
proof (induction ops arbitrary: s xs ys)
  case (Cons p ops)
  show ?case
  proof (cases p)
    case (Push x)
    then show ?thesis using Cons push_rep [of s xs x] by (auto split: if_splits)
  next
    case Pop
    then obtain x xs' ys' where xs: "xs = x # xs'" and ys: "ys = x # ys'"
      and l: "list_ops admit ops xs' = Some (ys', zs)"
      using Cons.prems(2) by (cases xs) (auto simp: option_bind_Some_iff)
    obtain s' where s': "pop s = Some (x, s')" "rep s' xs'" using Cons.prems(1) pop_rep xs by blast
    then show ?thesis using Cons.IH [OF s'(2) l] Pop ys by auto
  qed
qed simp

lemma pushes_refine:
  assumes "rep s []" "list_ops admit (map Push xs) [] = Some ([], xs)"
  shows "\<exists>s'. run_ops push pop (map Push xs @ map (\<lambda>_. Pop) xs) s = Some (xs, s') \<and> rep s' []"
proof -
  have app: "list_ops admit (map Push us @ ops) vs =
      (if list_ops admit (map Push us) vs = None then None else list_ops admit ops (vs @ us))"
    for us vs :: "'a list" and ops
    by (induction us arbitrary: vs) auto
  have pops: "list_ops admit (map (\<lambda>_. Pop) us) us = Some (us, [])" for us :: "'a list"
    by (induction us) auto
  show ?thesis
    by (rule run_ops_refines [OF assms(1)]) (use assms(2) in \<open>simp add: app pops\<close>)
qed

end

section \<open>Heaps\<close>

text \<open>
  A heap hands out blocks, an address and a length each, out of some memory, and takes them back.
  The laws say that blocks in use never overlap, that an operation changes the set of blocks in use
  as it should and leaves the contents of the others alone, and that a \<open>budget\<close> of allocations is
  sure to succeed. A script of a client is a list of allocations and of releases, the latter by the
  place of the block in the list of those it holds.
\<close>

datatype 'n hop = Get 'n | Put nat

fun run_heap :: "('s \<Rightarrow> 'n \<Rightarrow> ('a \<times> 's) option) \<Rightarrow> ('s \<Rightarrow> 'a \<Rightarrow> 's option) \<Rightarrow> 'n hop list \<Rightarrow> 'a list \<Rightarrow> 's \<Rightarrow>
    ('a list \<times> 's) option" where
  "run_heap alloc release [] held s = Some (held, s)"
| "run_heap alloc release (Get n # ops) held s = do {
     (a, s') \<leftarrow> alloc s n;
     run_heap alloc release ops (held @ [a]) s'
   }"
| "run_heap alloc release (Put k # ops) held s = do {
     a \<leftarrow> idx held k;
     s' \<leftarrow> release s a;
     run_heap alloc release ops (take k held @ drop (Suc k) held) s'
   }"

text \<open>A script that never releases what it does not hold, when it starts with \<open>n\<close> blocks.\<close>

fun script_ok :: "('n \<Rightarrow> bool) \<Rightarrow> nat \<Rightarrow> 'n hop list \<Rightarrow> bool" where
  "script_ok fits n [] \<longleftrightarrow> True"
| "script_ok fits n (Get z # ops) \<longleftrightarrow> fits z \<and> script_ok fits (Suc n) ops"
| "script_ok fits n (Put k # ops) \<longleftrightarrow> k < n \<and> script_ok fits (n - 1) ops"

fun gets :: "'n hop list \<Rightarrow> nat" where
  "gets [] = 0"
| "gets (Get z # ops) = Suc (gets ops)"
| "gets (Put k # ops) = gets ops"

locale block_heap =
  fixes rep :: "'s \<Rightarrow> 'g \<Rightarrow> bool"
    and in_use :: "'s \<Rightarrow> 'g \<Rightarrow> ('a \<times> nat) set"
    and cells :: "'a \<times> nat \<Rightarrow> nat set"
    and unchanged :: "('a \<times> nat) set \<Rightarrow> 's \<Rightarrow> 's \<Rightarrow> bool"
    and budget :: "'s \<Rightarrow> 'g \<Rightarrow> nat"
    and fits :: "'n \<Rightarrow> bool"
    and alloc :: "'s \<Rightarrow> 'n \<Rightarrow> ('a \<times> 's) option"
    and release :: "'s \<Rightarrow> 'a \<Rightarrow> 's option"
  assumes apart: "rep s g \<Longrightarrow> x \<in> in_use s g \<Longrightarrow> y \<in> in_use s g \<Longrightarrow> x \<noteq> y \<Longrightarrow> cells x \<inter> cells y = {}"
    and alloc_ok: "rep s g \<Longrightarrow> fits n \<Longrightarrow> 0 < budget s g \<Longrightarrow>
      \<exists>a l s' g'. alloc s n = Some (a, s') \<and> rep s' g' \<and> (a, l) \<notin> in_use s g \<and> in_use s' g' = insert (a, l) (in_use s g) \<and>
        unchanged (in_use s g) s s' \<and> budget s g \<le> Suc (budget s' g')"
    and release_ok: "rep s g \<Longrightarrow> (a, l) \<in> in_use s g \<Longrightarrow>
      \<exists>s' g'. release s a = Some s' \<and> rep s' g' \<and> in_use s' g' = in_use s g - {(a, l)} \<and>
        unchanged (in_use s g - {(a, l)}) s s' \<and> budget s g \<le> budget s' g'"
    and unchanged_refl: "unchanged K s s"
    and unchanged_trans: "unchanged K s s' \<Longrightarrow> unchanged K s' s'' \<Longrightarrow> unchanged K s s''"
    and unchanged_sub: "unchanged K s s' \<Longrightarrow> K' \<subseteq> K \<Longrightarrow> unchanged K' s s'"
begin

text \<open>A client that holds the blocks \<open>bs\<close> runs a script; \<open>K\<close> are blocks of others.\<close>

lemma run_heap_ok:
  assumes "rep s g" "distinct bs" "set bs \<subseteq> in_use s g" "K \<subseteq> in_use s g - set bs"
    and "script_ok fits (length bs) ops" "gets ops \<le> budget s g"
  shows "\<exists>bs' s' g'. run_heap alloc release ops (map fst bs) s = Some (map fst bs', s') \<and> rep s' g' \<and>
    distinct bs' \<and> set bs' \<subseteq> in_use s' g' \<and> K \<subseteq> in_use s' g' - set bs' \<and> unchanged K s s'"
  using assms
proof (induction ops arbitrary: s g bs)
  case Nil
  then show ?case using unchanged_refl by auto
next
  case (Cons p ops)
  show ?case
  proof (cases p)
    case (Get n)
    then have "fits n" "0 < budget s g" using Cons.prems by auto
    from alloc_ok [OF Cons.prems(1) this] obtain a l s' g' where a: "alloc s n = Some (a, s')" "rep s' g'"
        "(a, l) \<notin> in_use s g" "in_use s' g' = insert (a, l) (in_use s g)" "unchanged (in_use s g) s s'"
        "budget s g \<le> Suc (budget s' g')" by blast
    have "\<exists>bs' t h. run_heap alloc release ops (map fst (bs @ [(a, l)])) s' = Some (map fst bs', t) \<and> rep t h \<and>
        distinct bs' \<and> set bs' \<subseteq> in_use t h \<and> K \<subseteq> in_use t h - set bs' \<and> unchanged K s' t"
      using Cons.prems a Get by (intro Cons.IH [of s' g']) auto
    moreover have "unchanged K s s'" using a(5) Cons.prems(4) by (blast intro: unchanged_sub)
    moreover have "run_heap alloc release (p # ops) (map fst bs) s = run_heap alloc release ops (map fst (bs @ [(a, l)])) s'"
      using a(1) Get by simp
    ultimately show ?thesis using unchanged_trans by (elim exE) (metis (no_types, lifting))
  next
    case (Put k)
    then have k: "k < length bs" using Cons.prems(5) by simp
    obtain a l where al: "bs ! k = (a, l)" by (cases "bs ! k")
    have "(a, l) \<in> in_use s g" using k al Cons.prems(3) by (metis nth_mem subsetD)
    from release_ok [OF Cons.prems(1) this] obtain s' g' where r: "release s a = Some s'" "rep s' g'"
        "in_use s' g' = in_use s g - {(a, l)}" "unchanged (in_use s g - {(a, l)}) s s'" "budget s g \<le> budget s' g'" by blast
    let ?bs = "take k bs @ drop (Suc k) bs"
    have split: "bs = take k bs @ (a, l) # drop (Suc k) bs" using k al by (metis id_take_nth_drop)
    have "distinct (take k bs @ (a, l) # drop (Suc k) bs)" using Cons.prems(2) by (simp only: split [symmetric])
    then have d: "distinct ?bs" "(a, l) \<notin> set ?bs" by auto
    have "set bs = set (take k bs @ (a, l) # drop (Suc k) bs)" by (rule arg_cong [OF split])
    then have d3: "set bs = insert (a, l) (set ?bs)" by simp
    have "\<exists>bs' t h. run_heap alloc release ops (map fst ?bs) s' = Some (map fst bs', t) \<and> rep t h \<and>
        distinct bs' \<and> set bs' \<subseteq> in_use t h \<and> K \<subseteq> in_use t h - set bs' \<and> unchanged K s' t"
    proof (rule Cons.IH [OF r(2) d(1)])
      show "set ?bs \<subseteq> in_use s' g'" "K \<subseteq> in_use s' g' - set ?bs" using Cons.prems(3,4) d(2) d3 r(3) by auto
      show "script_ok fits (length ?bs) ops" using Cons.prems(5) Put k by simp
      show "gets ops \<le> budget s' g'" using Cons.prems(6) Put r(5) by simp
    qed
    moreover have "unchanged K s s'" using Cons.prems(4) d3 by (intro unchanged_sub [OF r(4)]) auto
    moreover have "run_heap alloc release (p # ops) (map fst bs) s = run_heap alloc release ops (map fst ?bs) s'"
      using Put k al r(1) by (simp add: take_map drop_map)
    ultimately show ?thesis using unchanged_trans by (elim exE) (metis (no_types, lifting))
  qed
qed

end

end
