(* ===== verification/Bitmap.thy ===== *)
theory Bitmap
  imports Interfaces
begin

text \<open>
  \<^verbatim>\<open>kern/lib/bitmap.c\<close>: a fixed-size array of bits stored in bytes, used by SFS to keep
  the map of free disk blocks. The model follows the C code byte by byte; the abstract
  view of a bitmap is the set of the indices in use.
\<close>

section \<open>The data structure and its operations\<close>

record bitmap =
  nbits :: nat
  v :: "u8 list"

abbreviation BITS_PER_WORD :: nat where
  "BITS_PER_WORD \<equiv> 8"

abbreviation WORD_ALLBITS :: u8 where
  "WORD_ALLBITS \<equiv> 0xff"

text \<open>The two allocations of \<open>bitmap_create\<close> succeed as \<open>ok1\<close> and \<open>ok2\<close> say; the
  inner \<open>None\<close> is the NULL that is returned when one fails.\<close>

definition bitmap_create :: "bool \<Rightarrow> bool \<Rightarrow> nat \<Rightarrow> bitmap option option" where
  "bitmap_create ok1 ok2 n =
     (let words = DIVROUNDUP n BITS_PER_WORD in
      if \<not> ok1 then Some None
      else if \<not> ok2 then Some None
      else
        let vec = replicate words (0 :: u8) in
        if words > n div BITS_PER_WORD then
          let ix = words - 1; overbits = sub32 n (wrap32 (ix * BITS_PER_WORD)) in
          do {
            KASSERT (n div BITS_PER_WORD = words - 1);
            KASSERT (overbits > 0 \<and> overbits < BITS_PER_WORD);
            w \<leftarrow> idx vec ix;
            vec' \<leftarrow> upd vec ix (fold (\<lambda>j w. w OR push_bit j 1) [overbits..<BITS_PER_WORD] w);
            Some (Some \<lparr>nbits = n, v = vec'\<rparr>)
          }
        else Some (Some \<lparr>nbits = n, v = vec\<rparr>))"

definition bitmap_getdata :: "bitmap \<Rightarrow> u8 list" where
  "bitmap_getdata b = v b"

text \<open>The inner loop of \<open>bitmap_alloc\<close>: the first offset whose bit is clear.\<close>

fun clear_offset :: "u8 \<Rightarrow> nat list \<Rightarrow> nat option" where
  "clear_offset w [] = None"
| "clear_offset w (offset # os) =
     (if w AND push_bit offset 1 = 0 then Some offset else clear_offset w os)"

fun bitmap_alloc_from :: "bitmap \<Rightarrow> nat list \<Rightarrow> ((errno + nat) \<times> bitmap) option" where
  "bitmap_alloc_from b [] = Some (Inl ENOSPC, b)"
| "bitmap_alloc_from b (ix # ixs) = do {
     w \<leftarrow> idx (v b) ix;
     if w \<noteq> WORD_ALLBITS then
       case clear_offset w [0..<BITS_PER_WORD] of
         None \<Rightarrow> None
       | Some offset \<Rightarrow> do {
           vec \<leftarrow> upd (v b) ix (w OR push_bit offset 1);
           KASSERT (ix * BITS_PER_WORD + offset < nbits b);
           Some (Inr (ix * BITS_PER_WORD + offset), b\<lparr>v := vec\<rparr>)
         }
     else bitmap_alloc_from b ixs
   }"

definition bitmap_alloc :: "bitmap \<Rightarrow> ((errno + nat) \<times> bitmap) option" where
  "bitmap_alloc b = bitmap_alloc_from b [0..<DIVROUNDUP (nbits b) BITS_PER_WORD]"

definition bitmap_translate :: "nat \<Rightarrow> nat \<times> u8" where
  "bitmap_translate bitno =
     (let ix = bitno div BITS_PER_WORD; offset = bitno mod BITS_PER_WORD
      in (ix, push_bit offset 1))"

definition bitmap_mark :: "bitmap \<Rightarrow> nat \<Rightarrow> bitmap option" where
  "bitmap_mark b index = do {
     KASSERT (index < nbits b);
     let (ix, mask) = bitmap_translate index;
     w \<leftarrow> idx (v b) ix;
     KASSERT (w AND mask = 0);
     vec \<leftarrow> upd (v b) ix (w OR mask);
     Some (b\<lparr>v := vec\<rparr>)
   }"

definition bitmap_unmark :: "bitmap \<Rightarrow> nat \<Rightarrow> bitmap option" where
  "bitmap_unmark b index = do {
     KASSERT (index < nbits b);
     let (ix, mask) = bitmap_translate index;
     w \<leftarrow> idx (v b) ix;
     KASSERT (w AND mask \<noteq> 0);
     vec \<leftarrow> upd (v b) ix (w AND NOT mask);
     Some (b\<lparr>v := vec\<rparr>)
   }"

definition bitmap_isset :: "bitmap \<Rightarrow> nat \<Rightarrow> u8 option" where
  "bitmap_isset b index = do {
     let (ix, mask) = bitmap_translate index;
     w \<leftarrow> idx (v b) ix;
     Some (w AND mask)
   }"

section \<open>The abstract view and the invariant\<close>

definition bit_at :: "bitmap \<Rightarrow> nat \<Rightarrow> bool" where
  "bit_at b i = bit (v b ! (i div BITS_PER_WORD)) (i mod BITS_PER_WORD)"

definition bitmap_used :: "bitmap \<Rightarrow> nat set" where
  "bitmap_used b = {i. i < nbits b \<and> bit_at b i}"

text \<open>The byte array has the rounded-up length and the left-over bits of its last byte are
  set, so that the scan of \<open>bitmap_alloc\<close> never hands them out.\<close>

definition bitmap_wf :: "bitmap \<Rightarrow> bool" where
  "bitmap_wf b \<longleftrightarrow>
     nbits b < 2 ^ 32 - 8 \<and>
     length (v b) = (nbits b + 7) div 8 \<and>
     (\<forall>i \<in> {nbits b ..< 8 * length (v b)}. bit_at b i)"

section \<open>Correctness of the operations\<close>

lemma DIVROUNDUP_8: "n < 4294967288 \<Longrightarrow> DIVROUNDUP n 8 = (n + 7) div 8"
  by (subst DIVROUNDUP_eq) simp_all

lemma allbits_iff: "w = (0xff :: u8) \<longleftrightarrow> (\<forall>n < 8. bit w n)"
proof -
  have "(0xff :: u8) = - 1" by simp
  moreover have "w = - 1 \<longleftrightarrow> (\<forall>n < 8. bit w n)"
    using word_all_bits_iff [of w] by simp
  ultimately show ?thesis by metis
qed

lemma clear_offset_Some:
  "clear_offset w os = Some k \<Longrightarrow> sorted os \<Longrightarrow> k \<in> set os \<and> \<not> bit w k \<and> (\<forall>j \<in> set os. j < k \<longrightarrow> bit w j)"
  by (induction os) (auto split: if_splits)

lemma clear_offset_None: "clear_offset w os = None \<longleftrightarrow> (\<forall>j \<in> set os. bit w j)"
  by (induction os) auto

text \<open>Changing one bit of the array, seen through \<open>bit_at\<close>.\<close>

lemma bit_update_nth:
  fixes ws :: "u8 list"
  assumes "q < length ws"
  shows "bit (ws[q := set_bit r (ws ! q)] ! q') r' \<longleftrightarrow>
           bit (ws ! q') r' \<or> q' = q \<and> r' = r \<and> r < 8"
    and "bit (ws[q := unset_bit r (ws ! q)] ! q') r' \<longleftrightarrow>
           bit (ws ! q') r' \<and> \<not> (q' = q \<and> r' = r)"
  using assms by (auto simp: nth_list_update bit_set_bit_iff bit_unset_bit_iff)

lemma bit_at_update:
  assumes "k div 8 < length (v b)"
  shows "bit_at (b\<lparr>v := (v b)[k div 8 := set_bit (k mod 8) (v b ! (k div 8))]\<rparr>) i \<longleftrightarrow>
           i = k \<or> bit_at b i"
    and "bit_at (b\<lparr>v := (v b)[k div 8 := unset_bit (k mod 8) (v b ! (k div 8))]\<rparr>) i \<longleftrightarrow>
           i \<noteq> k \<and> bit_at b i"
proof -
  have same: "i div 8 = k div 8 \<and> i mod 8 = k mod 8 \<longleftrightarrow> i = k"
    by (metis div_mult_mod_eq)
  have r: "k mod 8 < 8" by simp
  have vec: "v (b\<lparr>v := ws\<rparr>) = ws" for ws by simp
  show "bit_at (b\<lparr>v := (v b)[k div 8 := set_bit (k mod 8) (v b ! (k div 8))]\<rparr>) i \<longleftrightarrow>
          i = k \<or> bit_at b i"
    unfolding bit_at_def vec bit_update_nth(1) [OF assms] using same r by blast
  show "bit_at (b\<lparr>v := (v b)[k div 8 := unset_bit (k mod 8) (v b ! (k div 8))]\<rparr>) i \<longleftrightarrow>
          i \<noteq> k \<and> bit_at b i"
    unfolding bit_at_def vec bit_update_nth(2) [OF assms] using same by blast
qed

lemma bitmap_index_in_array:
  assumes "bitmap_wf b" "i < nbits b"
  shows "i div 8 < length (v b)"
proof -
  have "nbits b \<le> (nbits b + 7) div 8 * 8" by arith
  then have "i < (nbits b + 7) div 8 * 8" using assms(2) by simp
  then show ?thesis using assms(1) unfolding bitmap_wf_def by (simp add: less_mult_imp_div_less)
qed

lemma bitmap_set_bit_wf:
  assumes wf: "bitmap_wf b" and k: "k < nbits b"
  defines "b' \<equiv> b\<lparr>v := (v b)[k div 8 := set_bit (k mod 8) (v b ! (k div 8))]\<rparr>"
  shows "bitmap_wf b'" and "bitmap_used b' = insert k (bitmap_used b)"
proof -
  have bits: "bit_at b' i \<longleftrightarrow> i = k \<or> bit_at b i" for i
    unfolding b'_def by (rule bit_at_update(1)) (rule bitmap_index_in_array [OF wf k])
  have len: "length (v b') = length (v b)" "nbits b' = nbits b" by (simp_all add: b'_def)
  show "bitmap_wf b'" using wf unfolding bitmap_wf_def len bits by blast
  show "bitmap_used b' = insert k (bitmap_used b)"
    using k unfolding bitmap_used_def len bits by blast
qed

lemma bitmap_unset_bit_wf:
  assumes wf: "bitmap_wf b" and k: "k < nbits b"
  defines "b' \<equiv> b\<lparr>v := (v b)[k div 8 := unset_bit (k mod 8) (v b ! (k div 8))]\<rparr>"
  shows "bitmap_wf b'" and "bitmap_used b' = bitmap_used b - {k}"
proof -
  have bits: "bit_at b' i \<longleftrightarrow> i \<noteq> k \<and> bit_at b i" for i
    unfolding b'_def by (rule bit_at_update(2)) (rule bitmap_index_in_array [OF wf k])
  have len: "length (v b') = length (v b)" "nbits b' = nbits b" by (simp_all add: b'_def)
  show "bitmap_wf b'" using wf k unfolding bitmap_wf_def len bits by auto
  show "bitmap_used b' = bitmap_used b - {k}"
    using k unfolding bitmap_used_def len bits by blast
qed

lemma bitmap_mark_eq:
  assumes "bitmap_wf b" "k < nbits b"
  shows "bitmap_mark b k =
    (if k \<in> bitmap_used b then None
     else Some (b\<lparr>v := (v b)[k div 8 := set_bit (k mod 8) (v b ! (k div 8))]\<rparr>))"
  using assms bitmap_index_in_array [OF assms]
  by (simp add: bitmap_mark_def bitmap_translate_def bitmap_used_def bit_at_def or_exp
      KASSERT_def)

lemma bitmap_unmark_eq:
  assumes "bitmap_wf b" "k < nbits b"
  shows "bitmap_unmark b k =
    (if k \<in> bitmap_used b
     then Some (b\<lparr>v := (v b)[k div 8 := unset_bit (k mod 8) (v b ! (k div 8))]\<rparr>)
     else None)"
  using assms bitmap_index_in_array [OF assms]
  by (simp add: bitmap_unmark_def bitmap_translate_def bitmap_used_def bit_at_def
      and_not_exp KASSERT_def)

lemma bitmap_isset_iff:
  assumes "bitmap_wf b" "k < nbits b"
  shows "\<exists>w. bitmap_isset b k = Some w \<and> (w \<noteq> 0 \<longleftrightarrow> k \<in> bitmap_used b)"
  using assms bitmap_index_in_array [OF assms]
  by (simp add: bitmap_isset_def bitmap_translate_def bitmap_used_def bit_at_def)

lemma bitmap_byte_full:
  assumes "v b ! ix = 0xff" "i div 8 = ix"
  shows "bit_at b i"
  using assms allbits_iff [of "v b ! ix"] by (simp add: bit_at_def)

lemma bitmap_alloc_from_eq:
  assumes "bitmap_wf b" "a \<le> length (v b)" "\<forall>i < 8 * a. bit_at b i"
  shows "(\<forall>i < nbits b. bit_at b i) \<and>
           bitmap_alloc_from b [a..<length (v b)] = Some (Inl ENOSPC, b) \<or>
         (\<exists>k < nbits b. \<not> bit_at b k \<and> (\<forall>i < k. bit_at b i) \<and>
           bitmap_alloc_from b [a..<length (v b)] =
             Some (Inr k, b\<lparr>v := (v b)[k div 8 := set_bit (k mod 8) (v b ! (k div 8))]\<rparr>))"
  using assms(2,3)
proof (induction "length (v b) - a" arbitrary: a)
  case 0
  then have "a = length (v b)" by simp
  moreover have "nbits b \<le> (nbits b + 7) div 8 * 8" by arith
  ultimately show ?case using 0 assms(1) by (auto simp: bitmap_wf_def)
next
  case (Suc d)
  then have a: "a < length (v b)" by simp
  then have upt: "[a..<length (v b)] = a # [Suc a..<length (v b)]" by (simp add: upt_rec)
  show ?case
  proof (cases "v b ! a = 0xff")
    case True
    have "bit_at b i" if "i < 8 * Suc a" for i
      using that Suc.prems(2) bitmap_byte_full [OF True, of i]
      by (cases "i < 8 * a") (auto simp: div_nat_eqI)
    then show ?thesis using Suc.hyps(1) [of "Suc a"] Suc.hyps(2) a upt True by simp
  next
    case False
    then obtain j where "j < 8" "\<not> bit (v b ! a) j" using allbits_iff by blast
    then have "clear_offset (v b ! a) [0..<8] \<noteq> None" by (auto simp: clear_offset_None)
    then obtain off where off: "clear_offset (v b ! a) [0..<8] = Some off" by blast
    from clear_offset_Some [OF this] have o: "off < 8" "\<not> bit (v b ! a) off"
      "\<forall>j < off. bit (v b ! a) j" by auto
    define k where "k = a * 8 + off"
    have k: "k div 8 = a" "k mod 8 = off" using o(1) by (simp_all add: k_def)
    have unset: "\<not> bit_at b k" using k o(2) by (simp add: bit_at_def)
    have below: "bit_at b i" if "i < k" for i
    proof (cases "i < 8 * a")
      case False
      then obtain r where r: "i = a * 8 + r" by (metis le_iff_add linorder_not_less mult.commute)
      then have "r < off" using that by (simp add: k_def)
      then have "i div 8 = a" "i mod 8 < off" using o(1) by (simp_all add: r)
      then show ?thesis using o(3) by (simp add: bit_at_def)
    qed (use Suc.prems(2) in simp)
    have "k < 8 * length (v b)" using a o(1) by (simp add: k_def)
    then have "k < nbits b" using unset assms(1) unfolding bitmap_wf_def
      by (meson atLeastLessThan_iff linorder_not_le)
    moreover have "bitmap_alloc_from b [a..<length (v b)] =
        Some (Inr k, b\<lparr>v := (v b)[a := set_bit off (v b ! a)]\<rparr>)"
      using upt a False off \<open>k < nbits b\<close> unfolding k_def by (simp add: or_exp)
    ultimately show ?thesis using unset below k by blast
  qed
qed

lemma bitmap_used_full: "bitmap_used b = {..<nbits b} \<longleftrightarrow> (\<forall>i < nbits b. bit_at b i)"
  by (auto simp: bitmap_used_def)

lemma bitmap_alloc_cases:
  assumes wf: "bitmap_wf b"
  shows "bitmap_used b = {..<nbits b} \<and> bitmap_alloc b = Some (Inl ENOSPC, b) \<or>
         bitmap_used b \<noteq> {..<nbits b} \<and>
         (\<exists>b'. bitmap_alloc b = Some (Inr (LEAST i. i \<notin> bitmap_used b), b') \<and>
               bitmap_wf b' \<and> nbits b' = nbits b \<and>
               bitmap_used b' = insert (LEAST i. i \<notin> bitmap_used b) (bitmap_used b))"
proof -
  have eq: "bitmap_alloc b = bitmap_alloc_from b [0..<length (v b)]"
    using wf by (simp add: bitmap_alloc_def bitmap_wf_def DIVROUNDUP_8)
  consider "bitmap_used b = {..<nbits b}" "bitmap_alloc b = Some (Inl ENOSPC, b)"
    | k where "k < nbits b" "\<not> bit_at b k" "\<forall>i < k. bit_at b i"
        "bitmap_alloc b =
           Some (Inr k, b\<lparr>v := (v b)[k div 8 := set_bit (k mod 8) (v b ! (k div 8))]\<rparr>)"
    using bitmap_alloc_from_eq [OF wf, of 0] by (auto simp: eq bitmap_used_full)
  then show ?thesis
  proof cases
    case 1
    then show ?thesis by simp
  next
    case (2 k)
    have k: "k \<notin> bitmap_used b" using 2(2) by (simp add: bitmap_used_def)
    moreover have "i \<in> bitmap_used b" if "i < k" for i
      using that 2(1,3) by (simp add: bitmap_used_def)
    ultimately have "(LEAST i. i \<notin> bitmap_used b) = k"
      by (intro Least_equality) (auto simp: not_less [symmetric])
    moreover have "bitmap_used b \<noteq> {..<nbits b}" using k 2(1) by auto
    ultimately show ?thesis using 2(4) bitmap_set_bit_wf [OF wf 2(1)] by simp
  qed
qed

interpretation bm: free_map bitmap_wf bitmap_used nbits bitmap_alloc ENOSPC bitmap_unmark
proof (unfold_locales, goal_cases)
  case (1 b)
  then show ?case by (auto simp: bitmap_used_def)
next
  case (2 b)
  then show ?case using bitmap_alloc_cases [of b] by blast
next
  case (3 b)
  then show ?case using bitmap_alloc_cases [of b] by blast
next
  case (4 b i)
  then have "i < nbits b" by (simp add: bitmap_used_def)
  then show ?case using 4 bitmap_unmark_eq [of b i] bitmap_unset_bit_wf [of b i] by simp
qed

section \<open>Creation\<close>

lemma fold_set_bits:
  "bit (fold (\<lambda>j w. w OR 2 ^ j) [a..<8] (0 :: u8)) i \<longleftrightarrow> a \<le> i \<and> i < 8"
proof -
  have "bit (fold (\<lambda>j w. w OR 2 ^ j) js (w :: u8)) i \<longleftrightarrow> bit w i \<or> i \<in> set js \<and> i < 8" for js w
    by (induction js arbitrary: w) (auto simp: bit_or_iff or_exp bit_set_bit_iff)
  then show ?thesis by auto
qed

lemma bitmap_create_spec:
  assumes "n < 2 ^ 32 - 8"
  shows "\<exists>b. bitmap_create True True n = Some (Some b) \<and> bitmap_wf b \<and> nbits b = n \<and>
             bitmap_used b = {}"
proof (cases "n mod 8 = 0")
  case True
  then obtain m where m: "n = 8 * m" by (metis mod_0_imp_dvd dvdE)
  then have "bitmap_create True True n = Some (Some \<lparr>nbits = n, v = replicate m 0\<rparr>)"
    using assms by (simp add: bitmap_create_def DIVROUNDUP_8 div_nat_eqI Let_def)
  moreover have "bit_at \<lparr>nbits = n, v = replicate m 0\<rparr> i = False" if "i < 8 * m" for i
    using that by (simp add: bit_at_def less_mult_imp_div_less mult.commute)
  ultimately show ?thesis
    using assms m by (auto simp: bitmap_wf_def bitmap_used_def div_nat_eqI)
next
  case False
  define m r where "m = n div 8" and "r = n mod 8"
  have n: "n = 8 * m + r" and r: "0 < r" "r < 8" using False by (simp_all add: m_def r_def)
  have words: "(n + 7) div 8 = Suc m" unfolding n using r by (intro div_nat_eqI) simp_all
  define ws where "ws = (replicate (Suc m) (0 :: u8))
    [m := fold (\<lambda>j w. w OR push_bit j 1) [r..<8] (0 :: u8)]"
  have bits: "bit (ws ! (i div 8)) (i mod 8) \<longleftrightarrow> n \<le> i" if "i < 8 * Suc m" for i
  proof (cases "i div 8 = m")
    case True
    then have "n \<le> i \<longleftrightarrow> r \<le> i mod 8" unfolding n by (metis add_le_cancel_left mult_div_mod_eq)
    then show ?thesis using True by (simp add: ws_def fold_set_bits del: replicate_Suc)
  next
    case False
    then have "i div 8 < m" using that by (metis less_mult_imp_div_less less_SucE mult.commute)
    then have "i < n" using n by (metis add_lessD1 div_less_iff_less_mult mult.commute trans_less_add1 zero_less_numeral)
    then show ?thesis using \<open>i div 8 < m\<close> by (simp add: ws_def del: replicate_Suc)
  qed
  have "sub32 n (wrap32 (m * 8)) = r" using assms n by simp
  then have "bitmap_create True True n = Some (Some \<lparr>nbits = n, v = ws\<rparr>)"
    using assms r words m_def unfolding bitmap_create_def ws_def
    by (simp add: DIVROUNDUP_8 Let_def del: replicate_Suc)
  moreover have "length ws = Suc m" by (simp add: ws_def del: replicate_Suc)
  moreover have "bitmap_used \<lparr>nbits = n, v = ws\<rparr> = {}"
    using bits n r by (fastforce simp: bitmap_used_def bit_at_def)
  moreover have "bitmap_wf \<lparr>nbits = n, v = ws\<rparr>"
    using bits assms \<open>length ws = Suc m\<close> words by (simp add: bitmap_wf_def bit_at_def)
  ultimately show ?thesis by auto
qed

section \<open>Properties\<close>

text \<open>C34: Allocation from a well-formed bitmap is first fit. If some bit is free, \<open>bitmap_alloc\<close>
  returns the lowest free index and marks exactly that one; if none is, it returns ENOSPC and leaves
  the bitmap alone. The padding bits of the last byte are never handed out, and no assertion
  fails.\<close>

theorem bitmap_alloc_first_fit:
  assumes "bitmap_wf b"
  shows "if bitmap_used b = {..<nbits b} then bitmap_alloc b = Some (Inl ENOSPC, b)
         else \<exists>b' i. bitmap_alloc b = Some (Inr i, b') \<and> i < nbits b \<and> i \<notin> bitmap_used b \<and>
           {..<i} \<subseteq> bitmap_used b \<and> bitmap_used b' = insert i (bitmap_used b) \<and> bitmap_wf b' \<and>
           nbits b' = nbits b"
proof (cases "bitmap_used b = {..<nbits b}")
  case True
  then show ?thesis using bm.alloc_full [OF assms] by simp
next
  case False
  obtain b' where a: "bitmap_alloc b = Some (Inr (LEAST i. i \<notin> bitmap_used b), b')"
    using bm.alloc_free [OF assms False] by blast
  have "{..<LEAST i. i \<notin> bitmap_used b} \<subseteq> bitmap_used b" by (auto dest: not_less_Least)
  with a False bm.alloc_Inr [OF assms a] show ?thesis by simp
qed

theorem bitmap_alloc_first_fit_witness:
  "\<exists>b b' i. bitmap_create True True 3 = Some (Some b) \<and> bitmap_used b \<noteq> {..<nbits b} \<and>
     bitmap_alloc b = Some (Inr i, b') \<and> i = 0 \<and> bitmap_used b' = {0}"
proof -
  have n: "(3 :: nat) < 2 ^ 32 - 8" by simp
  obtain b where b: "bitmap_create True True 3 = Some (Some b)" "bitmap_wf b" "nbits b = 3" "bitmap_used b = {}"
    using bitmap_create_spec [OF n] by blast
  have "\<exists>b' i. bitmap_alloc b = Some (Inr i, b') \<and> {..<i} \<subseteq> {} \<and> bitmap_used b' = {i}"
    using bitmap_alloc_first_fit [OF b(2)] b(3,4) by (simp add: lessThan_Suc numeral_3_eq_3 split: if_splits) auto
  moreover have "{..<3 :: nat} \<noteq> {}" by (simp add: numeral_3_eq_3 lessThan_Suc)
  ultimately show ?thesis using b by auto
qed

text \<open>Marking and unmarking. On an index in range, \<open>bitmap_isset\<close> reads the bit; \<open>bitmap_mark\<close>
  and \<open>bitmap_unmark\<close> change that bit only, keep the invariant, and fail their assertion exactly
  when the bit already has the value they set.\<close>

theorem bitmap_mark_unmark:
  assumes "bitmap_wf b" "k < nbits b"
  shows "(\<exists>w. bitmap_isset b k = Some w \<and> (w \<noteq> 0) = (k \<in> bitmap_used b)) \<and>
    (if k \<in> bitmap_used b
     then bitmap_mark b k = None \<and>
       (\<exists>b'. bitmap_unmark b k = Some b' \<and> bitmap_wf b' \<and> nbits b' = nbits b \<and>
             bitmap_used b' = bitmap_used b - {k})
     else bitmap_unmark b k = None \<and>
       (\<exists>b'. bitmap_mark b k = Some b' \<and> bitmap_wf b' \<and> nbits b' = nbits b \<and>
             bitmap_used b' = insert k (bitmap_used b)))"
  using bitmap_isset_iff [OF assms] bitmap_mark_eq [OF assms] bitmap_unmark_eq [OF assms]
    bitmap_set_bit_wf [OF assms] bitmap_unset_bit_wf [OF assms]
  by simp

theorem bitmap_mark_unmark_witness:
  "\<exists>b b'. bitmap_create True True 11 = Some (Some b) \<and> bitmap_unmark b 10 = None \<and>
     bitmap_mark b 10 = Some b' \<and> bitmap_used b' = {10}"
proof -
  have n: "(11 :: nat) < 2 ^ 32 - 8" by simp
  obtain b where b: "bitmap_create True True 11 = Some (Some b)" "bitmap_wf b" "nbits b = 11" "bitmap_used b = {}"
    using bitmap_create_spec [OF n] by blast
  then show ?thesis using bitmap_mark_unmark [of b 10] by auto
qed

text \<open>A bitmap of \<open>n\<close> bits hands out every index below \<open>n\<close> exactly once: after creation, \<open>n\<close>
  allocations succeed and return distinct indices, and the next one reports ENOSPC. This holds for
  every size up to the point where rounding up to bytes wraps around.\<close>

theorem bitmap_exhausts:
  assumes "n < 2 ^ 32 - 8"
  shows "\<exists>b b' is. bitmap_create True True n = Some (Some b) \<and> alloc_seq bitmap_alloc n b = Some (Inr is, b') \<and>
           distinct is \<and> set is = {..<n} \<and> bitmap_alloc b' = Some (Inl ENOSPC, b')"
proof -
  obtain b where b: "bitmap_create True True n = Some (Some b)" "bitmap_wf b" "nbits b = n" "bitmap_used b = {}"
    using bitmap_create_spec [OF assms] by auto
  from bm.alloc_seq_distinct [OF b(2), of n] b(3,4)
  obtain "is" b' where r: "alloc_seq bitmap_alloc n b = Some (Inr is, b')" "length is = n" "distinct is"
      "set is \<subseteq> {..<n}" "bitmap_used b' = set is" "bitmap_wf b'" "nbits b' = n"
    by auto
  have "set is = {..<n}"
    by (rule card_subset_eq) (use r(2,4) distinct_card [OF r(3)] in simp_all)
  then show ?thesis using b r bm.alloc_full [OF r(6)] by simp
qed

theorem bitmap_exhausts_witness:
  "\<exists>b b' is. bitmap_create True True 1000 = Some (Some b) \<and> alloc_seq bitmap_alloc 1000 b = Some (Inr is, b') \<and>
     set is = {..<1000} \<and> bitmap_alloc b' = Some (Inl ENOSPC, b')"
proof -
  have "(1000 :: nat) < 2 ^ 32 - 8" by simp
  from bitmap_exhausts [OF this] show ?thesis by blast
qed

end
