(* ===== verification/KQueue.thy ===== *)
theory KQueue
  imports Interfaces
begin

text \<open>
  \<^verbatim>\<open>kern/lib/queue.c\<close>: a growable circular queue of pointers. The model keeps the indices
  as C integers and the backing store as a list of cells, where \<open>None\<close> is a cell that has not
  been written since it was allocated. The abstract view is the list of the queued pointers.
\<close>

section \<open>The data structure and its operations\<close>

record 'a queue =
  q_size :: int
  q_nextwrite :: int
  q_nextread :: int
  q_data :: "'a option list"

text \<open>The doubling loop of \<open>q_grow\<close>, with the 32-bit wrap-around that its assertion guards
  against.\<close>

function q_grow_size :: "int \<Rightarrow> int \<Rightarrow> int option" where
  "q_grow_size nsize targetsize =
     (if nsize < targetsize then
        (if s32 (nsize * 2) > 0 then q_grow_size (s32 (nsize * 2)) targetsize else None)
      else Some nsize)"
  by pat_completeness auto
termination
  by (relation "measures [\<lambda>(n, t). if n \<ge> 2147483648 then 1 else 0, \<lambda>(n, t). nat (t - n)]")
     (auto simp: not_le s32_double_grows)

declare q_grow_size.simps [simp del]

text \<open>The copying loop of \<open>q_grow\<close>; \<open>addtail\<close> is the call of \<open>q_addtail\<close> it makes. The loop
  test is an inequality, so the loop need not stop on a corrupt queue.\<close>

partial_function (option) q_copy ::
  "('a queue \<Rightarrow> 'a \<Rightarrow> ((errno + unit) \<times> 'a queue) option) \<Rightarrow> 'a option list \<Rightarrow> int \<Rightarrow> int \<Rightarrow> int \<Rightarrow>
   'a queue \<Rightarrow> 'a queue option" where
  "q_copy addtail olddata osize onw i q =
     (if i = onw then Some q
      else do {
        c \<leftarrow> idx olddata (nat i);
        x \<leftarrow> c;
        (result, q') \<leftarrow> addtail q x;
        KASSERT (result = Inr ());
        q_copy addtail olddata osize onw ((i + 1) mod osize) q'
      })"

text \<open>\<open>ok n\<close> says whether an allocation of \<open>n\<close> bytes succeeds.\<close>

definition q_grow ::
  "('a queue \<Rightarrow> 'a \<Rightarrow> ((errno + unit) \<times> 'a queue) option) \<Rightarrow> (int \<Rightarrow> bool) \<Rightarrow> 'a queue \<Rightarrow> int \<Rightarrow>
   ((errno + unit) \<times> 'a queue) option" where
  "q_grow addtail ok q targetsize = do {
     nsize \<leftarrow> q_grow_size (q_size q) targetsize;
     if \<not> ok (nsize * 4) then Some (Inl ENOMEM, q)
     else do {
       let fresh = \<lparr>q_size = nsize, q_nextwrite = 0, q_nextread = 0,
                    q_data = replicate (nat nsize) None\<rparr>;
       q' \<leftarrow> q_copy addtail (q_data q) (q_size q) (q_nextwrite q) (q_nextread q) fresh;
       Some (Inr (), q')
     }
   }"

text \<open>Storing at the write index, the last two statements of \<open>q_addtail\<close>.\<close>

definition q_store :: "'a queue \<Rightarrow> 'a \<Rightarrow> int \<Rightarrow> ((errno + unit) \<times> 'a queue) option" where
  "q_store q x nextnext = do {
     d \<leftarrow> upd (q_data q) (nat (q_nextwrite q)) (Some x);
     Some (Inr (), q\<lparr>q_data := d, q_nextwrite := nextnext\<rparr>)
   }"

text \<open>\<open>q_addtail\<close> and \<open>q_grow\<close> call each other; the first argument bounds the depth of the
  calls. Depth 1 is what the code needs: the queue that \<open>q_grow\<close> copies into never fills up.\<close>

fun q_addtail_depth ::
  "nat \<Rightarrow> (int \<Rightarrow> bool) \<Rightarrow> 'a queue \<Rightarrow> 'a \<Rightarrow> ((errno + unit) \<times> 'a queue) option" where
  "q_addtail_depth depth ok q x = do {
     KASSERT (q_size q > 0);
     let nextnext = (q_nextwrite q + 1) mod q_size q;
     if nextnext = q_nextread q then
       case depth of
         0 \<Rightarrow> None
       | Suc depth' \<Rightarrow> do {
           (result, q') \<leftarrow> q_grow (q_addtail_depth depth' ok) ok q (q_size q + 1);
           if result \<noteq> Inr () then Some (result, q')
           else q_store q' x ((q_nextwrite q' + 1) mod q_size q')
         }
     else q_store q x nextnext
   }"

declare q_addtail_depth.simps [simp del]

definition q_addtail :: "(int \<Rightarrow> bool) \<Rightarrow> 'a queue \<Rightarrow> 'a \<Rightarrow> ((errno + unit) \<times> 'a queue) option" where
  "q_addtail ok q x = q_addtail_depth 1 ok q x"


definition q_preallocate :: "(int \<Rightarrow> bool) \<Rightarrow> 'a queue \<Rightarrow> int \<Rightarrow> ((errno + unit) \<times> 'a queue) option" where
  "q_preallocate ok q sz = do {
     KASSERT (q_size q > 0);
     if sz > q_size q then q_grow (q_addtail ok) ok q sz else Some (Inr (), q)
   }"

definition q_empty :: "'a queue \<Rightarrow> bool" where
  "q_empty q \<longleftrightarrow> q_nextwrite q = q_nextread q"


definition q_destroy :: "'a queue \<Rightarrow> unit option" where
  "q_destroy q = KASSERT (q_empty q)"

definition q_getstart :: "'a queue \<Rightarrow> int" where
  "q_getstart q = q_nextread q"

definition q_getend :: "'a queue \<Rightarrow> int" where
  "q_getend q = q_nextwrite q"

definition q_getsize :: "'a queue \<Rightarrow> int" where
  "q_getsize q = q_size q"

text \<open>\<open>q_getguy\<close> may read a cell that was never written; the inner option is the cell.\<close>

definition q_getguy :: "'a queue \<Rightarrow> int \<Rightarrow> 'a option option" where
  "q_getguy q index = do {
     KASSERT (index \<ge> 0 \<and> index < q_size q);
     idx (q_data q) (nat index)
   }"

text \<open>\<open>q_peek\<close> returns NULL, the inner \<open>None\<close>, on an empty queue.\<close>

definition q_peek :: "'a queue \<Rightarrow> 'a option option" where
  "q_peek q = do {
     KASSERT (q_size q > 0);
     if q_empty q then Some None
     else idx (q_data q) (nat (q_nextread q))
   }"



section \<open>The abstract view\<close>

text \<open>\<open>q_rep q xs\<close>: the queue holds \<open>xs\<close>, oldest first, in consecutive cells (modulo the size)
  from the read index on. One cell always stays free.\<close>

definition q_rep :: "'a queue \<Rightarrow> 'a list \<Rightarrow> bool" where
  "q_rep q xs \<longleftrightarrow>
     0 < q_size q \<and> q_size q < 2 ^ 31 \<and>
     0 \<le> q_nextread q \<and> q_nextread q < q_size q \<and>
     length (q_data q) = nat (q_size q) \<and>
     int (length xs) < q_size q \<and>
     q_nextwrite q = (q_nextread q + int (length xs)) mod q_size q \<and>
     (\<forall>k \<in> {..<length xs}. q_data q ! nat ((q_nextread q + int k) mod q_size q) = Some (xs ! k))"

lemma mod_shift_inj:
  fixes r s :: int
  assumes "int j < s" "int k < s"
  shows "(r + int j) mod s = (r + int k) mod s \<longleftrightarrow> j = k"
proof
  assume "(r + int j) mod s = (r + int k) mod s"
  then have "(r + int j - (r + int k)) mod s = 0" by (simp only: mod_eq_dvd_iff dvd_eq_mod_eq_0)
  then have "s dvd int j - int k" by (simp add: dvd_eq_mod_eq_0)
  then show "j = k" using assms zdvd_imp_le [of s "\<bar>int j - int k\<bar>"] by (cases "j = k") auto
qed simp

lemma q_rep_full_iff:
  assumes "q_rep q xs"
  shows "(q_nextwrite q + 1) mod q_size q = q_nextread q \<longleftrightarrow> int (length xs) + 1 = q_size q"
proof -
  have "(q_nextwrite q + 1) mod q_size q = (q_nextread q + int (Suc (length xs))) mod q_size q"
    using assms by (simp add: q_rep_def mod_simps algebra_simps)
  moreover have "q_nextread q = (q_nextread q + int 0) mod q_size q"
    using assms by (simp add: q_rep_def)
  note eqs = this calculation
  show ?thesis
  proof (cases "int (length xs) + 1 = q_size q")
    case True
    then have "(q_nextread q + int (Suc (length xs))) mod q_size q = q_nextread q"
      using assms by (simp add: q_rep_def add.commute)
    then show ?thesis using True eqs by simp
  next
    case False
    then have "int (Suc (length xs)) < q_size q" "int 0 < q_size q" using assms by (auto simp: q_rep_def)
    from mod_shift_inj [OF this, of "q_nextread q"]
    show ?thesis using False eqs by auto
  qed
qed


lemma q_store_rep:
  assumes rep: "q_rep q xs" and room: "int (length xs) + 1 < q_size q"
  shows "\<exists>q'. q_store q x ((q_nextwrite q + 1) mod q_size q) = Some (Inr (), q') \<and>
              q_rep q' (xs @ [x]) \<and> q_size q' = q_size q"
proof -
  let ?s = "q_size q" and ?r = "q_nextread q" and ?w = "q_nextwrite q"
  have s: "0 < ?s" "length (q_data q) = nat ?s" "?w = (?r + int (length xs)) mod ?s"
    using rep by (auto simp: q_rep_def)
  then have w: "nat ?w < length (q_data q)" by simp
  define q' where "q' = q\<lparr>q_data := (q_data q)[nat ?w := Some x], q_nextwrite := (?w + 1) mod ?s\<rparr>"
  have "q_data q' ! nat ((?r + int k) mod ?s) = Some ((xs @ [x]) ! k)" if "k < Suc (length xs)" for k
  proof (cases "k = length xs")
    case True
    then show ?thesis using w s by (simp add: q'_def)
  next
    case False
    then have k: "k < length xs" using that by simp
    then have "(?r + int k) mod ?s \<noteq> ?w"
      using s(3) room mod_shift_inj [of k ?s "length xs" ?r] by simp
    then have "nat ((?r + int k) mod ?s) \<noteq> nat ?w" using s by (simp add: nat_eq_iff)
    then show ?thesis using rep k by (auto simp: q'_def q_rep_def nth_append)
  qed
  then have "q_rep q' (xs @ [x])"
    using rep room by (simp add: q_rep_def q'_def mod_simps algebra_simps)
  then show ?thesis using w by (auto simp: q_store_def q'_def)
qed

lemma q_addtail_room:
  assumes "q_rep q xs" "int (length xs) + 1 < q_size q"
  shows "\<exists>q'. q_addtail_depth d ok q x = Some (Inr (), q') \<and> q_rep q' (xs @ [x]) \<and>
              q_size q' = q_size q"
  using assms q_store_rep [OF assms, of x] q_rep_full_iff [OF assms(1)]
  by (subst q_addtail_depth.simps) (simp add: q_rep_def)

text \<open>The copying loop moves the whole contents into a larger queue.\<close>

lemma q_copy_rep:
  assumes rep: "q_rep q xs"
    and add: "\<And>p ys y. q_rep p ys \<Longrightarrow> int (length ys) + 1 < q_size p \<Longrightarrow>
      \<exists>p'. addtail p y = Some (Inr (), p') \<and> q_rep p' (ys @ [y]) \<and> q_size p' = q_size p"
    and k: "k \<le> length xs" and p: "q_rep p (take k xs)" "q_size q < q_size p"
  shows "\<exists>p'. q_copy addtail (q_data q) (q_size q) (q_nextwrite q)
                ((q_nextread q + int k) mod q_size q) p = Some p' \<and>
              q_rep p' xs \<and> q_size p' = q_size p"
  using k p
proof (induction "length xs - k" arbitrary: k p)
  case 0
  then have "k = length xs" by simp
  then show ?case using 0 rep by (subst q_copy.simps) (simp add: q_rep_def)
next
  case (Suc n)
  let ?i = "(q_nextread q + int k) mod q_size q"
  have k: "k < length xs" using Suc.hyps(2) by simp
  then have "?i \<noteq> q_nextwrite q"
    using rep mod_shift_inj [of k "q_size q" "length xs" "q_nextread q"] by (simp add: q_rep_def)
  moreover have "idx (q_data q) (nat ?i) = Some (Some (xs ! k))"
    using rep k by (simp add: q_rep_def idx_def nat_less_iff)
  moreover have "int (length (take k xs)) + 1 < q_size p"
    using k rep Suc.prems by (simp add: q_rep_def)
  then obtain p1 where p1: "addtail p (xs ! k) = Some (Inr (), p1)" "q_rep p1 (take k xs @ [xs ! k])"
      "q_size p1 = q_size p"
    using add [OF Suc.prems(2)] by blast
  moreover have "(?i + 1) mod q_size q = (q_nextread q + int (Suc k)) mod q_size q"
    by (simp add: mod_simps algebra_simps)
  moreover have "\<exists>p'. q_copy addtail (q_data q) (q_size q) (q_nextwrite q)
      ((q_nextread q + int (Suc k)) mod q_size q) p1 = Some p' \<and> q_rep p' xs \<and> q_size p' = q_size p1"
    using Suc.hyps(1) [of "Suc k" p1] Suc.hyps(2) k p1 Suc.prems(3)
    by (simp add: take_Suc_conv_app_nth)
  ultimately show ?case by (subst q_copy.simps) auto
qed

lemma q_grow_size_Some:
  assumes "0 < n" "n < 2 ^ 31" "t \<le> 2 ^ 30"
  shows "\<exists>m. q_grow_size n t = Some m \<and> n \<le> m \<and> t \<le> m \<and> m < 2 ^ 31"
  using assms
proof (induction n t rule: q_grow_size.induct)
  case (1 n t)
  show ?case
  proof (cases "n < t")
    case True
    then have d: "s32 (n * 2) = n * 2" using 1 by (intro s32_small) simp_all
    then have "\<exists>m. q_grow_size (n * 2) t = Some m \<and> n * 2 \<le> m \<and> t \<le> m \<and> m < 2 ^ 31"
      using 1 True by simp
    then show ?thesis using True d 1 by (subst q_grow_size.simps) auto
  next
    case False
    then show ?thesis using 1 by (subst q_grow_size.simps) simp
  qed
qed

lemma q_grow_rep:
  assumes rep: "q_rep q xs" and t: "q_size q < t" "t \<le> 2 ^ 30"
    and add: "\<And>p ys y. q_rep p ys \<Longrightarrow> int (length ys) + 1 < q_size p \<Longrightarrow>
      \<exists>p'. addtail p y = Some (Inr (), p') \<and> q_rep p' (ys @ [y]) \<and> q_size p' = q_size p"
  shows "q_grow addtail ok q t = Some (Inl ENOMEM, q) \<or>
         (\<exists>q'. q_grow addtail ok q t = Some (Inr (), q') \<and> q_rep q' xs \<and> t \<le> q_size q')"
    and "(\<And>n. ok n) \<Longrightarrow> q_grow addtail ok q t \<noteq> Some (Inl ENOMEM, q)"
proof -
  have "0 < q_size q" "q_size q < 2 ^ 31" using rep by (auto simp: q_rep_def)
  then obtain m where m: "q_grow_size (q_size q) t = Some m" "t \<le> m" "m < 2 ^ 31"
    using q_grow_size_Some [of "q_size q" t] t by auto
  define p where "p = \<lparr>q_size = m, q_nextwrite = 0, q_nextread = 0,
    q_data = replicate (nat m) (None :: 'a option)\<rparr>"
  have "q_rep p (take 0 xs)" "q_size q < q_size p"
    using m t \<open>0 < q_size q\<close> by (simp_all add: q_rep_def p_def)
  from q_copy_rep [OF rep add _ this]
  obtain p' where p': "q_copy addtail (q_data q) (q_size q) (q_nextwrite q) (q_nextread q) p = Some p'"
      "q_rep p' xs" "q_size p' = m"
    using rep by (auto simp: q_rep_def p_def)
  then show "q_grow addtail ok q t = Some (Inl ENOMEM, q) \<or>
         (\<exists>q'. q_grow addtail ok q t = Some (Inr (), q') \<and> q_rep q' xs \<and> t \<le> q_size q')"
    using m by (simp add: q_grow_def p_def)
  show "q_grow addtail ok q t \<noteq> Some (Inl ENOMEM, q)" if "\<And>n. ok n"
    using m p' that by (simp add: q_grow_def p_def)
qed

lemma q_addtail_rep:
  assumes rep: "q_rep q xs" and len: "length xs + 1 < 2 ^ 30"
  shows "int (length xs) + 1 = q_size q \<and> q_addtail ok q x = Some (Inl ENOMEM, q) \<or>
         (\<exists>q'. q_addtail ok q x = Some (Inr (), q') \<and> q_rep q' (xs @ [x]))"
    and "(\<And>n. ok n) \<Longrightarrow> \<exists>q'. q_addtail ok q x = Some (Inr (), q') \<and> q_rep q' (xs @ [x])"
proof -
  have size: "0 < q_size q" "int (length xs) < q_size q" using rep by (auto simp: q_rep_def)
  have full: "q_addtail ok q x = q_grow (q_addtail_depth 0 ok) ok q (q_size q + 1) \<bind>
      (\<lambda>(result, q'). if result \<noteq> Inr () then Some (result, q')
         else q_store q' x ((q_nextwrite q' + 1) mod q_size q'))" if "int (length xs) + 1 = q_size q"
    using that q_rep_full_iff [OF rep] size
    unfolding q_addtail_def by (subst q_addtail_depth.simps) simp
  have grow: "q_grow (q_addtail_depth 0 ok) ok q (q_size q + 1) = Some (Inl ENOMEM, q) \<or>
      (\<exists>q'. q_grow (q_addtail_depth 0 ok) ok q (q_size q + 1) = Some (Inr (), q') \<and> q_rep q' xs \<and>
            q_size q + 1 \<le> q_size q')" if "int (length xs) + 1 = q_size q" for ok
    by (rule q_grow_rep(1) [OF rep]) (use that len q_addtail_room in auto)
  have grow_ok: "q_grow (q_addtail_depth 0 ok) ok q (q_size q + 1) \<noteq> Some (Inl ENOMEM, q)"
    if "int (length xs) + 1 = q_size q" "\<And>n. ok n"
    by (rule q_grow_rep(2) [OF rep]) (use that len q_addtail_room in auto)
  have store: "\<exists>q''. q_store q' x ((q_nextwrite q' + 1) mod q_size q') = Some (Inr (), q'') \<and>
      q_rep q'' (xs @ [x])" if "q_rep q' xs" "q_size q + 1 \<le> q_size q'" for q'
    using q_store_rep [OF that(1), of x] that(2) size by auto
  show 1: "int (length xs) + 1 = q_size q \<and> q_addtail ok q x = Some (Inl ENOMEM, q) \<or>
         (\<exists>q'. q_addtail ok q x = Some (Inr (), q') \<and> q_rep q' (xs @ [x]))"
  proof (cases "int (length xs) + 1 = q_size q")
    case True
    then show ?thesis using full grow [OF True, of ok] store by fastforce
  next
    case False
    then show ?thesis using q_addtail_room [OF rep, of 1 ok x] size by (auto simp: q_addtail_def)
  qed
  show "\<exists>q'. q_addtail ok q x = Some (Inr (), q') \<and> q_rep q' (xs @ [x])" if ok: "\<And>n. ok n"
  proof (cases "int (length xs) + 1 = q_size q")
    case True
    then show ?thesis using full grow [OF True, of ok] grow_ok [OF True ok] store by fastforce
  next
    case False
    then show ?thesis using 1 by blast
  qed
qed




section \<open>The queue contract\<close>







text \<open>Adding to a queue fails only with ENOMEM, only when the backing array is full and memory
  runs out, and then leaves the queue as it was; in every other case the element is appended.\<close>

theorem queue_addtail_cases:
  assumes "q_rep q xs" "length xs + 1 < 2 ^ 30"
  shows "(q_addtail ok q x = Some (Inl ENOMEM, q) \<and> int (length xs) + 1 = q_size q \<and> \<not> (\<forall>n. ok n)) \<or>
         (\<exists>q'. q_addtail ok q x = Some (Inr (), q') \<and> q_rep q' (xs @ [x]))"
  using q_addtail_rep(1) [OF assms] q_addtail_rep(2) [OF assms] by blast

theorem queue_addtail_cases_witness:
  "q_addtail (\<lambda>_. False) \<lparr>q_size = 2, q_nextwrite = 1, q_nextread = 0, q_data = [Some ''a'', None]\<rparr> ''b'' =
     Some (Inl ENOMEM, \<lparr>q_size = 2, q_nextwrite = 1, q_nextread = 0, q_data = [Some ''a'', None]\<rparr>)"
proof -
  let ?q = "\<lparr>q_size = 2, q_nextwrite = 1, q_nextread = 0, q_data = [Some ''a'', None]\<rparr>"
  have "q_rep ?q [''a'']" by (simp add: q_rep_def)
  moreover have "q_addtail (\<lambda>_. False) ?q ''b'' \<noteq> Some (Inr (), q')" for q'
    by (simp add: q_addtail_def q_addtail_depth.simps q_grow_def q_grow_size.simps s32_def)
  ultimately show ?thesis
    using queue_addtail_cases [of ?q "[''a'']" "\<lambda>_. False" "''b''"] by simp
qed

end
