(* ===== verification/Endian.thy ===== *)
theory Endian
  imports Prelude
begin

text \<open>
  \<^verbatim>\<open>kern/lib/bswap.c\<close>: byte swapping, network byte order and the splitting of 64-bit values.
  The kernel runs on a big-endian MIPS, so the \<open>_BIG_ENDIAN\<close> branches are modelled.
\<close>

definition bswap16 :: "u16 \<Rightarrow> u16" where
  "bswap16 val = push_bit 8 (val AND 0x00ff) OR drop_bit 8 (val AND 0xff00)"

definition bswap32 :: "u32 \<Rightarrow> u32" where
  "bswap32 val =
         push_bit 24 (val AND 0x000000ff)
     OR push_bit 8 (val AND 0x0000ff00)
     OR drop_bit 8 (val AND 0x00ff0000)
     OR drop_bit 24 (val AND 0xff000000)"

definition bswap64 :: "u64 \<Rightarrow> u64" where
  "bswap64 val =
         push_bit 56 (val AND 0x00000000000000ff)
     OR push_bit 40 (val AND 0x000000000000ff00)
     OR push_bit 24 (val AND 0x0000000000ff0000)
     OR push_bit 8 (val AND 0x00000000ff000000)
     OR push_bit 8 (val AND 0x000000ff00000000)
     OR push_bit 24 (val AND 0x0000ff0000000000)
     OR drop_bit 40 (val AND 0x00ff000000000000)
     OR drop_bit 56 (val AND 0xff00000000000000)"

text \<open>On a big-endian machine the conversions to and from network order are identities.\<close>

definition ntohs :: "u16 \<Rightarrow> u16" where "ntohs val = val"
definition htons :: "u16 \<Rightarrow> u16" where "htons val = val"
definition ntohl :: "u32 \<Rightarrow> u32" where "ntohl val = val"
definition htonl :: "u32 \<Rightarrow> u32" where "htonl val = val"
definition ntohll :: "u64 \<Rightarrow> u64" where "ntohll val = val"
definition htonll :: "u64 \<Rightarrow> u64" where "htonll val = val"

definition join32to64 :: "u32 \<Rightarrow> u32 \<Rightarrow> u64" where
  "join32to64 x1 x2 = push_bit 32 (ucast x1) OR ucast x2"

definition split64to32 :: "u64 \<Rightarrow> u32 \<times> u32" where
  "split64to32 x = (ucast (drop_bit 32 x), ucast (x AND 0xffffffff))"

section \<open>Byte order reversal\<close>

text \<open>The bytes of a word, least significant first, and the reference definition of a byte
  swap: the word whose bytes are those of the argument in reverse order.\<close>

definition byte_of :: "nat \<Rightarrow> 'a::len word \<Rightarrow> u8" where
  "byte_of i w = ucast (drop_bit (8 * i) w)"

lemma bit_byte_of: "bit (byte_of i (w :: 'a::len word)) n \<longleftrightarrow> n < 8 \<and> bit w (8 * i + n)"
  by (auto simp: byte_of_def bit_simps dest: bit_imp_le_length)

text \<open>Masking, shifting and joining whole bytes.\<close>

definition byte_mask :: "nat \<Rightarrow> 'a::len word" where
  "byte_mask i = push_bit (8 * i) (mask 8)"

definition push_byte :: "nat \<Rightarrow> 'a::len word \<Rightarrow> 'a word" where
  "push_byte k w = push_bit (8 * k) w"

definition drop_byte :: "nat \<Rightarrow> 'a::len word \<Rightarrow> 'a word" where
  "drop_byte k w = drop_bit (8 * k) w"

lemma byte_of_or: "byte_of i (a OR b) = byte_of i a OR byte_of i (b :: 'a::len word)"
  by (rule bit_word_eqI) (auto simp: bit_byte_of bit_simps)

lemma byte_of_and_mask:
  "byte_of i (w AND byte_mask j) = (if i = j then byte_of i w else (0 :: u8))"
  for w :: "'a::len word"
  by (rule bit_word_eqI) (auto simp: bit_byte_of bit_simps byte_mask_def dest: bit_imp_le_length)

lemma byte_of_push:
  "8 * i + 8 \<le> LENGTH('a) \<Longrightarrow>
   byte_of i (push_byte k w) = (if k \<le> i then byte_of (i - k) w else (0 :: u8))"
  for w :: "'a::len word"
  by (rule bit_word_eqI) (auto simp: push_byte_def bit_byte_of bit_simps algebra_simps)

lemma byte_of_drop: "byte_of i (drop_byte k w) = byte_of (i + k) (w :: 'a::len word)"
  by (rule bit_word_eqI) (auto simp: drop_byte_def bit_byte_of bit_simps algebra_simps)

lemmas byte_of_simps = byte_of_or byte_of_and_mask byte_of_push byte_of_drop

lemma bytes_eqI:
  fixes a b :: "'a::len word"
  assumes "\<And>i. 8 * i < LENGTH('a) \<Longrightarrow> byte_of i a = byte_of i b"
  shows "a = b"
proof (rule bit_word_eqI)
  fix n assume "n < LENGTH('a)"
  then have "byte_of (n div 8) a = byte_of (n div 8) b" by (intro assms) simp
  then have "bit (byte_of (n div 8) a) (n mod 8) = bit (byte_of (n div 8) b) (n mod 8)" by simp
  then show "bit a n = bit b n" by (simp add: bit_byte_of)
qed

text \<open>The definitions in terms of whole bytes.\<close>

lemmas byte_ops = byte_mask_def push_byte_def drop_byte_def mask_eq_exp_minus_1

lemma bswap16_bytes:
  "bswap16 w = push_byte 1 (w AND byte_mask 0) OR drop_byte 1 (w AND byte_mask 1)"
  by (simp add: bswap16_def byte_ops)

lemma bswap32_bytes:
  "bswap32 w =
     push_byte 3 (w AND byte_mask 0) OR push_byte 1 (w AND byte_mask 1) OR
     drop_byte 1 (w AND byte_mask 2) OR drop_byte 3 (w AND byte_mask 3)"
  by (simp add: bswap32_def byte_ops)

lemma bswap64_bytes:
  "bswap64 w =
     push_byte 7 (w AND byte_mask 0) OR push_byte 5 (w AND byte_mask 1) OR
     push_byte 3 (w AND byte_mask 2) OR push_byte 1 (w AND byte_mask 3) OR
     push_byte 1 (w AND byte_mask 4) OR push_byte 3 (w AND byte_mask 5) OR
     drop_byte 5 (w AND byte_mask 6) OR drop_byte 7 (w AND byte_mask 7)"
  by (simp add: bswap64_def byte_ops)

lemma bswap16_byte: "i < 2 \<Longrightarrow> byte_of i (bswap16 w) = byte_of (1 - i) w"
  by (auto simp: bswap16_bytes byte_of_simps less_2_cases_iff)

lemma lt4_cases: "i < (4 :: nat) \<longleftrightarrow> i = 0 \<or> i = 1 \<or> i = 2 \<or> i = 3"
  by auto

lemma bswap32_byte: "i < 4 \<Longrightarrow> byte_of i (bswap32 w) = byte_of (3 - i) w"
  by (auto simp: bswap32_bytes byte_of_simps lt4_cases numeral_2_eq_2)

lemma bswap64_byte:
  "byte_of 7 (bswap64 w) = byte_of 0 w" "byte_of 6 (bswap64 w) = byte_of 1 w"
  "byte_of 5 (bswap64 w) = byte_of 2 w OR byte_of 4 w" "byte_of 4 (bswap64 w) = byte_of 3 w"
  "byte_of 3 (bswap64 w) = 0" "byte_of 2 (bswap64 w) = 0"
  "byte_of 1 (bswap64 w) = byte_of 6 w" "byte_of 0 (bswap64 w) = byte_of 7 w"
  by (simp_all add: bswap64_bytes byte_of_simps)

lemma bswap16_involution: "bswap16 (bswap16 w) = w"
  by (rule bytes_eqI) (auto simp: bswap16_byte less_2_cases_iff)

lemma bswap32_involution: "bswap32 (bswap32 w) = w"
  by (rule bytes_eqI) (simp add: bswap32_byte)

section \<open>Properties\<close>

text \<open>The 16-bit and 32-bit swaps reverse the order of the bytes and are their own inverses.\<close>

theorem bswap16_32_reverse:
  "map (\<lambda>i. byte_of i (bswap16 x)) [0, 1] = rev (map (\<lambda>i. byte_of i x) [0, 1]) \<and>
   map (\<lambda>i. byte_of i (bswap32 y)) [0, 1, 2, 3] = rev (map (\<lambda>i. byte_of i y) [0, 1, 2, 3]) \<and>
   bswap16 (bswap16 x) = x \<and> bswap32 (bswap32 y) = y"
  by (simp add: bswap16_byte bswap32_byte bswap16_involution bswap32_involution)

text \<open>The 64-bit swap is not a byte reversal. Two of its shifts go the wrong way, so bytes 2 and
  3 of the result are always zero, byte 5 mixes two bytes of the argument, byte 5 of the
  argument is lost, and swapping twice does not give the argument back.\<close>

theorem bswap64_loses_bytes:
  "byte_of 2 (bswap64 w) = 0 \<and> byte_of 3 (bswap64 w) = 0 \<and>
   byte_of 5 (bswap64 w) = byte_of 2 w OR byte_of 4 w \<and>
   bswap64 0x0000010000000000 = 0 \<and>
   bswap64 (bswap64 0x0000000100000000) \<noteq> 0x0000000100000000"
  by (simp add: bswap64_byte) (simp add: bswap64_def)

text \<open>Joining two 32-bit halves in memory order and splitting the result are inverse to each
  other, and the first half is the most significant one.\<close>

theorem join_split_roundtrip:
  "split64to32 (join32to64 a b) = (a, b) \<and>
   join32to64 (fst (split64to32 x)) (snd (split64to32 x)) = x \<and>
   unat (join32to64 a b) = unat a * 2 ^ 32 + unat b"
proof -
  have join: "join32to64 a b = mk64 a b" for a b
    by (simp add: join32to64_def mk64_def)
  have "(0xffffffff :: u64) = mask 32" by (simp add: mask_eq_exp_minus_1)
  then have "x AND 0xffffffff = take_bit 32 x" for x :: u64 by (simp only: take_bit_eq_mask)
  then have split: "split64to32 x = (hi32 x, lo32 x)" for x
    by (auto simp: split64to32_def hi32_def lo32_def bit_simps intro!: bit_word_eqI)
  show ?thesis by (simp add: join split unat_mk64)
qed

end
