(* ===== verification/Millicode.thy ===== *)
theory Millicode
  imports Prelude
begin

text \<open>
  \<^verbatim>\<open>common/gcc-millicode\<close>: 64-bit integer arithmetic on a machine with 32-bit registers, linked
  into the kernel and into every user program. A \<open>long long\<close> is a \<open>u64\<close>; its two halves, the
  \<open>ui[H]\<close> and \<open>ui[L]\<close> of \<^verbatim>\<open>union uu\<close>, are \<open>hi32\<close> and \<open>lo32\<close>. Each routine is compared
  with the operation on 64-bit words that it implements.
\<close>

section \<open>Addition, subtraction, negation and bitwise operations\<close>

definition of_cond :: "bool \<Rightarrow> u32" where
  "of_cond b = (if b then 1 else 0)"

definition adddi3 :: "u64 \<Rightarrow> u64 \<Rightarrow> u64" where
  "adddi3 a b =
     (let suml = lo32 a + lo32 b;
          sumh = hi32 a + hi32 b + of_cond (suml < lo32 b)
      in mk64 sumh suml)"

definition subdi3 :: "u64 \<Rightarrow> u64 \<Rightarrow> u64" where
  "subdi3 a b =
     (let diffl = lo32 a - lo32 b;
          diffh = hi32 a - hi32 b - of_cond (diffl > lo32 a)
      in mk64 diffh diffl)"

definition negdi2 :: "u64 \<Rightarrow> u64" where
  "negdi2 a =
     (let resl = - lo32 a;
          resh = - hi32 a - of_cond (resl > 0)
      in mk64 resh resl)"

definition anddi3 :: "u64 \<Rightarrow> u64 \<Rightarrow> u64" where
  "anddi3 a b = mk64 (hi32 a AND hi32 b) (lo32 a AND lo32 b)"

definition iordi3 :: "u64 \<Rightarrow> u64 \<Rightarrow> u64" where
  "iordi3 a b = mk64 (hi32 a OR hi32 b) (lo32 a OR lo32 b)"

definition xordi3 :: "u64 \<Rightarrow> u64 \<Rightarrow> u64" where
  "xordi3 a b = mk64 (hi32 a XOR hi32 b) (lo32 a XOR lo32 b)"

definition one_cmpldi2 :: "u64 \<Rightarrow> u64" where
  "one_cmpldi2 a = mk64 (NOT (hi32 a)) (NOT (lo32 a))"

section \<open>Shifts\<close>

text \<open>A shift of a 32-bit operand by 32 or more is undefined in C; the machine instruction uses
  the low five bits of the count. The routines never do it for counts below 64.\<close>

definition ashldi3 :: "u64 \<Rightarrow> nat \<Rightarrow> u64" where
  "ashldi3 a shift =
     (if shift = 0 then a
      else if shift \<ge> 32 then mk64 (push_bit (shift - 32) (lo32 a)) 0
      else mk64 (push_bit shift (hi32 a) OR drop_bit (32 - shift) (lo32 a))
                (push_bit shift (lo32 a)))"

definition lshldi3 :: "u64 \<Rightarrow> nat \<Rightarrow> u64" where
  "lshldi3 a shift =
     (if shift = 0 then a
      else if shift \<ge> 32 then mk64 (push_bit (shift - 32) (lo32 a)) 0
      else mk64 (push_bit shift (hi32 a) OR drop_bit (32 - shift) (lo32 a))
                (push_bit shift (lo32 a)))"

definition lshrdi3 :: "u64 \<Rightarrow> nat \<Rightarrow> u64" where
  "lshrdi3 a shift =
     (if shift = 0 then a
      else if shift \<ge> 32 then mk64 0 (drop_bit (shift - 32) (hi32 a))
      else mk64 (drop_bit shift (hi32 a))
                (drop_bit shift (lo32 a) OR push_bit (32 - shift) (hi32 a)))"

definition ashrdi3 :: "u64 \<Rightarrow> nat \<Rightarrow> u64" where
  "ashrdi3 a shift =
     (if shift = 0 then a
      else if shift \<ge> 32 then
        let s = signed_drop_bit 1 (signed_drop_bit (32 - 1) (hi32 a))
        in mk64 s (signed_drop_bit (shift - 32) (hi32 a))
      else mk64 (signed_drop_bit shift (hi32 a))
                (drop_bit shift (lo32 a) OR push_bit (32 - shift) (hi32 a)))"

section \<open>Comparison\<close>

definition cmpdi2 :: "u64 \<Rightarrow> u64 \<Rightarrow> int" where
  "cmpdi2 a b =
     (if hi32 a <s hi32 b then 0 else if hi32 b <s hi32 a then 2
      else if lo32 a < lo32 b then 0 else if lo32 b < lo32 a then 2 else 1)"

definition ucmpdi2 :: "u64 \<Rightarrow> u64 \<Rightarrow> int" where
  "ucmpdi2 a b =
     (if hi32 a < hi32 b then 0 else if hi32 b < hi32 a then 2
      else if lo32 a < lo32 b then 0 else if lo32 b < lo32 a then 2 else 1)"

section \<open>Multiplication\<close>

definition HHALF :: "u32 \<Rightarrow> u32" where
  "HHALF x = drop_bit 16 x"

definition LHALF :: "u32 \<Rightarrow> u32" where
  "LHALF x = x AND (push_bit 16 1 - 1)"

definition LHUP :: "u32 \<Rightarrow> u32" where
  "LHUP x = push_bit 16 x"

definition lmulq :: "u32 \<Rightarrow> u32 \<Rightarrow> u64" where
  "lmulq u v =
     (let u1 = HHALF u; u0 = LHALF u; v1 = HHALF v; v0 = LHALF v;
          low = u0 * v0
      in if u1 = 0 \<and> v1 = 0 then mk64 0 low
      else
        let (udiff, neg) = (if u1 \<ge> u0 then (u1 - u0, False) else (u0 - u1, True));
            (vdiff, neg) = (if v0 \<ge> v1 then (v0 - v1, neg) else (v1 - v0, \<not> neg));
            mid = udiff * vdiff;
            high = u1 * v1;
            prodh = high + HHALF high;
            prodl = LHUP high;
            (prodh, prodl) =
              (if neg then
                 let was = prodl; prodl = prodl - LHUP mid
                 in (prodh - (HHALF mid + of_cond (prodl > was)), prodl)
               else
                 let was = prodl; prodl = prodl + LHUP mid
                 in (prodh + (HHALF mid + of_cond (prodl < was)), prodl));
            was = prodl;
            prodl = prodl + LHUP low;
            prodh = prodh + (HHALF low + of_cond (prodl < was));
            prodl = prodl + low;
            prodh = (if prodl < low then prodh + 1 else prodh)
        in mk64 prodh prodl)"

definition muldi3_prod :: "u64 \<Rightarrow> u64 \<Rightarrow> u64" where
  "muldi3_prod u v =
     (let u1 = hi32 u; u0 = lo32 u; v1 = hi32 v; v0 = lo32 v
      in if u1 = 0 \<and> v1 = 0 then lmulq u0 v0
      else
        let low = lmulq u0 v0;
            (negmid, udiff) = (if u1 \<ge> u0 then (False, u1 - u0) else (True, u0 - u1));
            (vdiff, negmid) = (if v0 \<ge> v1 then (v0 - v1, negmid) else (v1 - v0, \<not> negmid));
            mid = udiff * vdiff;
            high = u1 * v1
        in mk64 (high + (if negmid then - mid else mid) + lo32 low + hi32 low) (lo32 low))"

definition muldi3 :: "u64 \<Rightarrow> u64 \<Rightarrow> u64" where
  "muldi3 a b =
     (let (u, negall) = (if 0 \<le>s a then (a, False) else (- a, True));
          (v, negall) = (if 0 \<le>s b then (b, negall) else (- b, \<not> negall));
          prod = muldi3_prod u v
      in if negall then - prod else prod)"

section \<open>The halves in 64-bit arithmetic\<close>

text \<open>A 64-bit word is the sum of its high half, shifted up, and its low half. Shifting up is a
  homomorphism from 32-bit to 64-bit arithmetic, because the carries it loses do not fit into 64
  bits; for the low half the carry has to be accounted for.\<close>

definition H32 :: "u32 \<Rightarrow> u64" where
  "H32 x = push_bit 32 (ucast x)"

definition L32 :: "u32 \<Rightarrow> u64" where
  "L32 x = ucast x"

lemma mk64_sum: "mk64 h l = H32 h + L32 l"
  unfolding mk64_def H32_def L32_def
  by (rule disjunctive_add [symmetric])
     (auto simp: bit_simps dest: bit_imp_le_length)

lemma H32_of_int: "H32 (of_int z) = of_int (2 ^ 32 * z)"
proof -
  have "H32 (of_int z) = push_bit 32 (of_int z)"
    by (rule bit_word_eqI) (auto simp: H32_def bit_simps)
  then show ?thesis by (simp add: push_bit_eq_mult)
qed

lemma of_int_uint_u32: "x = of_int (uint (x :: u32))"
  by simp

lemma H32_add [simp]: "H32 (x + y) = H32 x + H32 y"
  using H32_of_int [of "uint x + uint y"] H32_of_int [of "uint x"] H32_of_int [of "uint y"]
  by (simp add: algebra_simps)

lemma H32_minus [simp]: "H32 (- x) = - H32 x"
  using H32_of_int [of "- uint x"] H32_of_int [of "uint x"] by simp

lemma H32_diff [simp]: "H32 (x - y) = H32 x - H32 y"
  using H32_add [of x "- y"] by simp

lemma H32_0 [simp]: "H32 0 = 0" and H32_1 [simp]: "H32 1 = 4294967296"
  by (simp_all add: H32_def)

lemma H32_L32: "H32 x = 4294967296 * L32 x"
  by (simp add: H32_def L32_def push_bit_eq_mult mult.commute)

lemma H32_mult: "H32 (x * y) = H32 x * L32 y"
proof -
  have "L32 y = of_int (uint y)" by (simp add: L32_def)
  then show ?thesis
    using H32_of_int [of "uint x * uint y"] H32_of_int [of "uint x"] by (simp add: algebra_simps)
qed

lemma H32_shift: "4294967296 * H32 x = 0"
proof -
  have "H32 x * 4294967296 = 4294967296 * 4294967296 * L32 x"
    by (simp only: H32_L32 algebra_simps)
  also have "(4294967296 * 4294967296 :: u64) = 0" by simp
  finally show ?thesis by (simp add: mult.commute)
qed

lemma unat_L32: "unat (L32 x) = unat x"
proof -
  have "unat x < 2 ^ LENGTH(32)" by (rule unsigned_less)
  then show ?thesis by (simp add: L32_def unsigned_ucast_eq take_bit_eq_mod)
qed

lemma unat_u32_less: "unat (x :: u32) < 4294967296"
  using unsigned_less [of x] by simp

lemma L32_eq_of_nat: "L32 x = of_nat (unat x)"
  by (simp add: L32_def)

lemma L32_add: "L32 (x + y) = L32 x + L32 y - (if x + y < y then 4294967296 else 0)"
proof -
  have b: "unat x < 4294967296" "unat y < 4294967296" by (rule unat_u32_less)+
  show ?thesis
  proof (cases "unat x + unat y < 4294967296")
    case True
    then have "unat (x + y) = unat x + unat y" by (simp add: unat_word_ariths)
    then show ?thesis by (simp add: L32_eq_of_nat word_less_nat_alt)
  next
    case False
    then have "unat (x + y) = unat x + unat y - 4294967296"
      using b by (simp add: unat_word_ariths mod_if)
    then show ?thesis using False b by (simp add: L32_eq_of_nat word_less_nat_alt of_nat_diff)
  qed
qed

lemma L32_diff: "L32 (x - y) = L32 x - L32 y + (if x - y > x then 4294967296 else 0)"
proof -
  have lt: "x - y + y < y \<longleftrightarrow> x - y > x" by (simp add: word_less_nat_alt unat_sub_if_size word_size) (use unat_u32_less [of x] unat_u32_less [of y] in linarith)
  show ?thesis using L32_add [of "x - y" y] lt by (simp split: if_splits)
qed

lemma L32_0 [simp]: "L32 0 = 0" and L32_1 [simp]: "L32 1 = 1"
  by (simp_all add: L32_def)

lemma L32_minus: "L32 (- x) = - L32 x + (if - x > 0 then 4294967296 else 0)"
  using L32_diff [of 0 x] by simp

lemma H32_of_cond: "H32 (of_cond b) = (if b then 4294967296 else 0)"
  by (simp add: of_cond_def)

lemmas half_simps = mk64_sum H32_of_cond L32_add L32_diff L32_minus

lemma split64: "H32 (hi32 a) + L32 (lo32 a) = a"
  by (metis mk64_hi_lo mk64_sum)

lemma adddi3_eq: "adddi3 a b = a + b"
proof -
  have "adddi3 a b = (H32 (hi32 a) + L32 (lo32 a)) + (H32 (hi32 b) + L32 (lo32 b))"
    by (simp add: adddi3_def half_simps)
  then show ?thesis by (simp only: split64)
qed

lemma subdi3_eq: "subdi3 a b = a - b"
proof -
  have "subdi3 a b = (H32 (hi32 a) + L32 (lo32 a)) - (H32 (hi32 b) + L32 (lo32 b))"
    by (simp add: subdi3_def half_simps)
  then show ?thesis by (simp only: split64)
qed

lemma negdi2_eq: "negdi2 a = - a"
proof -
  have "negdi2 a = - (H32 (hi32 a) + L32 (lo32 a))"
    by (simp add: negdi2_def half_simps)
  then show ?thesis by (simp only: split64)
qed

lemma bitwise_eq:
  "anddi3 a b = a AND b" "iordi3 a b = a OR b" "xordi3 a b = a XOR b" "one_cmpldi2 a = NOT a"
  by (rule bit_word_eqI;
      auto simp: anddi3_def iordi3_def xordi3_def one_cmpldi2_def bit_mk64 bit_hi32 bit_lo32 bit_simps)+

lemma bit_sdb32: "i < 32 \<Longrightarrow> bit (signed_drop_bit k x) i \<longleftrightarrow> bit x (if 31 \<le> k + i then 31 else k + i)"
  for x :: u32
  by (cases "k + i < 31"; cases "k + i = 31") (simp_all add: bit_simps le_diff_conv)

lemma bit_sdb64: "i < 64 \<Longrightarrow> bit (signed_drop_bit k x) i \<longleftrightarrow> bit x (if 63 \<le> k + i then 63 else k + i)"
  for x :: u64
  by (cases "k + i < 63"; cases "k + i = 63") (simp_all add: bit_simps le_diff_conv)

lemma shifts_eq:
  assumes "n < 64"
  shows "ashldi3 a n = push_bit n a" "lshldi3 a n = push_bit n a" "lshrdi3 a n = drop_bit n a"
    "ashrdi3 a n = signed_drop_bit n a"
proof -
  show "ashldi3 a n = push_bit n a"
    by (rule bit_word_eqI)
       (use assms in \<open>auto simp: ashldi3_def bit_mk64 bit_hi32 bit_lo32 bit_simps\<close>)
  then show "lshldi3 a n = push_bit n a"
    by (simp add: ashldi3_def lshldi3_def)
  show "lshrdi3 a n = drop_bit n a"
    by (rule bit_word_eqI)
       (use assms in \<open>auto simp: lshrdi3_def bit_mk64 bit_hi32 bit_lo32 bit_simps add.commute
          not_less dest: bit_imp_le_length\<close>, metis le_add_diff_inverse not_less)
  show "ashrdi3 a n = signed_drop_bit n a"
  proof (rule bit_word_eqI)
    fix m assume "m < LENGTH(64)"
    then have m: "m < 64" by simp
    have l: "bit (signed_drop_bit n a) m \<longleftrightarrow> bit a (if 63 \<le> n + m then 63 else n + m)"
      by (rule bit_sdb64 [OF m])
    have r: "bit (ashrdi3 a n) m \<longleftrightarrow>
        (if n = 0 then bit a m
         else if 32 \<le> n then (if m < 32 then bit (signed_drop_bit (n - 32) (hi32 a)) m else bit a 63)
         else if 32 \<le> m then bit (signed_drop_bit n (hi32 a)) (m - 32)
         else bit (lo32 a) (n + m) \<or> 32 - n \<le> m \<and> bit (hi32 a) (m - (32 - n)))"
      using m by (auto simp: ashrdi3_def Let_def bit_mk64 bit_sdb32 bit_hi32 bit_or_iff bit_push_bit_iff bit_drop_bit_eq)
    consider "n = 0" | "0 < n" "n < 32" "m < 32" "n + m < 32" | "0 < n" "n < 32" "m < 32" "32 \<le> n + m"
      | "0 < n" "n < 32" "32 \<le> m" | "32 \<le> n" "m < 32" | "32 \<le> n" "32 \<le> m" by linarith
    then show "bit (ashrdi3 a n) m \<longleftrightarrow> bit (signed_drop_bit n a) m"
    proof cases
      case 1 with m show ?thesis unfolding l r by (cases "m = 63") auto
    next
      case 2 then show ?thesis unfolding l r by (auto simp: bit_lo32)
    next
      case 3
      then have "m - (32 - n) + 32 = n + m" "m - (32 - n) < 32" "32 - n \<le> m" by arith+
      with 3 show ?thesis unfolding l r by (auto simp: bit_lo32 bit_hi32 add.commute)
    next
      case 4
      then have "n + (m - 32) + 32 = n + m" "m - 32 < 32" using m by arith+
      with 4 m show ?thesis unfolding l r by (auto simp: bit_sdb32 bit_hi32)
    next
      case 5
      then have "n - 32 + m + 32 = n + m" by arith
      with 5 show ?thesis unfolding l r by (auto simp: bit_sdb32 bit_hi32)
    next
      case 6 then show ?thesis unfolding l r by auto
    qed
  qed
qed

lemma word64_less_iff: "a < b \<longleftrightarrow> hi32 a < hi32 b \<or> hi32 a = hi32 b \<and> lo32 a < lo32 b"
proof -
  have u: "unat x = unat (hi32 x) * 4294967296 + unat (lo32 x)" for x
    using unat_mk64 [of "hi32 x" "lo32 x"] by simp
  have "unat (lo32 a) < 4294967296" "unat (lo32 b) < 4294967296" by (rule unat_u32_less)+
  then show ?thesis
    unfolding word_less_nat_alt u [of a] u [of b] word_unat_eq_iff by auto
qed

lemma ucmpdi2_eq: "ucmpdi2 a b = (if a < b then 0 else if b < a then 2 else 1)"
  by (auto simp: ucmpdi2_def word64_less_iff)

section \<open>Multiplication\<close>

lemma unat_HHALF: "unat (HHALF x) = unat x div 65536"
  by (simp add: HHALF_def unat_drop_bit_eq drop_bit_eq_div unat_div)

lemma LHALF_take: "LHALF x = take_bit 16 x"
proof -
  have "(push_bit 16 1 - 1 :: u32) = mask 16" by (simp add: mask_eq_exp_minus_1)
  then show ?thesis by (simp only: LHALF_def take_bit_eq_mask)
qed

lemma unat_LHALF: "unat (LHALF x) = unat x mod 65536"
  by (simp add: LHALF_take take_bit_eq_mod unat_mod take_bit_eq_mod)

lemma half_bounds: "unat (HHALF x) < 65536" "unat (LHALF x) < 65536"
  using unat_u32_less [of x] by (simp_all add: unat_HHALF unat_LHALF less_mult_imp_div_less)

lemma L32_halves: "L32 x = 65536 * L32 (HHALF x) + L32 (LHALF x)"
proof -
  have "unat x = 65536 * unat (HHALF x) + unat (LHALF x)" by (simp add: unat_HHALF unat_LHALF)
  then have "L32 x = of_nat (65536 * unat (HHALF x) + unat (LHALF x))"
    by (metis L32_eq_of_nat)
  also have "\<dots> = 65536 * of_nat (unat (HHALF x)) + of_nat (unat (LHALF x))"
    by (simp only: of_nat_add of_nat_mult of_nat_numeral)
  finally show ?thesis by (simp only: L32_eq_of_nat)
qed

text \<open>A product of two 16-bit quantities fits into 32 bits.\<close>

lemma L32_mult:
  assumes "unat x < 65536" "unat y < 65536"
  shows "L32 (x * y) = L32 x * L32 y"
proof -
  have "unat x * unat y \<le> 65535 * 65535" using assms by (intro mult_le_mono) simp_all
  then have "unat (x * y) = unat x * unat y" by (simp add: unat_word_ariths)
  then have "L32 (x * y) = of_nat (unat x * unat y)" by (metis L32_eq_of_nat)
  then show ?thesis by (simp only: of_nat_mult L32_eq_of_nat)
qed

text \<open>A value shifted up by 16 splits into \<open>HHALF\<close> and \<open>LHUP\<close>.\<close>

lemma shift_halves: "H32 (HHALF x) + L32 (LHUP x) = 65536 * L32 x"
proof -
  have "mk64 (HHALF x) (LHUP x) = push_bit 16 (ucast x)"
    by (rule bit_word_eqI) (auto simp: bit_mk64 HHALF_def LHUP_def bit_simps dest: bit_imp_le_length)
  then show ?thesis by (simp add: mk64_sum L32_def push_bit_eq_mult mult.commute)
qed

lemma L32_absdiff:
  "x \<ge> y \<Longrightarrow> L32 (x - y) = L32 x - L32 y"
  using L32_diff [of x y] by (auto simp: word_le_nat_alt word_less_nat_alt unat_sub_if_size)

text \<open>Adding or subtracting \<open>m << 16\<close> to a double word with the carry taken from a comparison.\<close>

lemma add_shifted:
  "H32 (h + (HHALF m + of_cond (l + LHUP m < l))) + L32 (l + LHUP m) = H32 h + L32 l + 65536 * L32 m"
  using L32_add [of "LHUP m" l] shift_halves [of m]
  by (simp add: H32_of_cond add.commute algebra_simps)

lemma sub_shifted:
  "H32 (h - (HHALF m + of_cond (l - LHUP m > l))) + L32 (l - LHUP m) = H32 h + L32 l - 65536 * L32 m"
  by (simp add: shift_halves [symmetric] L32_diff H32_of_cond)

lemma lmulq_eq: "lmulq u v = L32 u * L32 v"
proof -
  let ?u1 = "HHALF u" and ?u0 = "LHALF u" and ?v1 = "HHALF v" and ?v0 = "LHALF v"
  define U1 U0 V1 V0 where "U1 = L32 ?u1" and "U0 = L32 ?u0" and "V1 = L32 ?v1" and "V0 = L32 ?v0"
  note UV = U1_def U0_def V1_def V0_def
  note b = half_bounds [of u] half_bounds [of v]
  have low: "L32 (?u0 * ?v0) = U0 * V0" and high: "L32 (?u1 * ?v1) = U1 * V1"
    using b by (simp_all add: L32_mult UV)
  define neg where "neg = ((\<not> ?u1 \<ge> ?u0) \<noteq> (\<not> ?v0 \<ge> ?v1))"
  define ud where "ud = (if ?u1 \<ge> ?u0 then ?u1 - ?u0 else ?u0 - ?u1)"
  define vd where "vd = (if ?v0 \<ge> ?v1 then ?v0 - ?v1 else ?v1 - ?v0)"
  have "unat ud < 65536" "unat vd < 65536"
    using b by (auto simp: ud_def vd_def unat_sub_if_size word_le_nat_alt)
  moreover have "L32 ud = (if ?u1 \<ge> ?u0 then U1 - U0 else U0 - U1)"
    "L32 vd = (if ?v0 \<ge> ?v1 then V0 - V1 else V1 - V0)"
    by (auto simp: ud_def vd_def UV L32_absdiff)
  ultimately have mid: "L32 (ud * vd) = (if neg then - ((U1 - U0) * (V0 - V1)) else (U1 - U0) * (V0 - V1))"
    by (simp add: L32_mult neg_def algebra_simps)
  show ?thesis
  proof (cases "?u1 = 0 \<and> ?v1 = 0")
    case True
    then have "L32 u * L32 v = U0 * V0" by (simp add: L32_halves [of u] L32_halves [of v] UV)
    moreover have "lmulq u v = mk64 0 (?u0 * ?v0)" using True by (simp add: lmulq_def)
    ultimately show ?thesis by (simp add: mk64_sum low)
  next
    case False
    define h1 l1 where "h1 = ?u1 * ?v1 + HHALF (?u1 * ?v1)" and "l1 = LHUP (?u1 * ?v1)"
    define h2 where "h2 = (if neg then h1 - (HHALF (ud * vd) + of_cond (l1 - LHUP (ud * vd) > l1))
                           else h1 + (HHALF (ud * vd) + of_cond (l1 + LHUP (ud * vd) < l1)))"
    define l2 where "l2 = (if neg then l1 - LHUP (ud * vd) else l1 + LHUP (ud * vd))"
    define h3 where "h3 = h2 + (HHALF (?u0 * ?v0) + of_cond (l2 + LHUP (?u0 * ?v0) < l2))"
    define l3 where "l3 = l2 + LHUP (?u0 * ?v0)"
    have "lmulq u v = mk64 (if l3 + ?u0 * ?v0 < ?u0 * ?v0 then h3 + 1 else h3) (l3 + ?u0 * ?v0)"
      unfolding h1_def l1_def h2_def l2_def h3_def l3_def ud_def vd_def neg_def
      by (cases "?u1 \<ge> ?u0"; cases "?v0 \<ge> ?v1")
         (simp_all only: lmulq_def Let_def if_not_P [OF False] if_True if_False prod.case simp_thms)
    also have "\<dots> = H32 h3 + L32 l3 + U0 * V0"
      by (simp add: mk64_sum L32_add low)
    also have "H32 h3 + L32 l3 = H32 h2 + L32 l2 + 65536 * (U0 * V0)"
      unfolding h3_def l3_def by (simp only: add_shifted low)
    also have "H32 h2 + L32 l2 = H32 h1 + L32 l1 + 65536 * ((U1 - U0) * (V0 - V1))"
      unfolding h2_def l2_def by (simp only: add_shifted sub_shifted mid split: if_split) simp
    also have "H32 h1 + L32 l1 = 4294967296 * (U1 * V1) + 65536 * (U1 * V1)"
      by (simp only: h1_def l1_def H32_add add.assoc shift_halves H32_L32 [of "?u1 * ?v1"] high)
    finally show ?thesis
      by (simp add: L32_halves [of u] L32_halves [of v] UV [symmetric] algebra_simps)
  qed
qed

lemma sint_sign: "sint x = uint x - 2 ^ LENGTH('a) * of_bool (bit x (LENGTH('a) - 1))"
  for x :: "'a::len word"
proof -
  have "Suc (LENGTH('a) - 1) = LENGTH('a)" by simp
  then show ?thesis
    by (simp only: sint_uint signed_take_bit_eq_take_bit_minus bit_uint_iff)
       (auto simp: bit_simps take_bit_int_eq_self unsigned_less)
qed

lemma sless_sign:
  "x <s y \<longleftrightarrow> (if bit x (LENGTH('a) - 1) = bit y (LENGTH('a) - 1) then x < y else bit x (LENGTH('a) - 1))"
  for x y :: "'a::len word"
proof -
  have "uint x - 2 ^ LENGTH('a) < uint y" "uint y - 2 ^ LENGTH('a) \<le> uint x"
    using unsigned_less [of x, where ?'a = int] unsigned_less [of y, where ?'a = int]
      unsigned_greater_eq [of x, where ?'a = int] unsigned_greater_eq [of y, where ?'a = int]
    by linarith+
  then show ?thesis by (simp add: word_sless_alt sint_sign word_less_def)
qed

lemma cmpdi2_eq: "cmpdi2 a b = (if a <s b then 0 else if b <s a then 2 else 1)"
proof -
  have s: "bit a 63 = bit (hi32 a) 31" for a by (simp add: bit_hi32)
  have e: "hi32 a = hi32 b \<and> lo32 a = lo32 b \<longleftrightarrow> a = b" using word64_eqI by auto
  show ?thesis
    by (auto simp: cmpdi2_def sless_sign s word64_less_iff)
qed

lemma muldi3_prod_eq: "muldi3_prod u v = u * v"
proof -
  let ?u1 = "hi32 u" and ?u0 = "lo32 u" and ?v1 = "hi32 v" and ?v0 = "lo32 v"
  define low where "low = lmulq ?u0 ?v0"
  define a b where "a = L32 ?u0" and "b = L32 ?v0"
  have uv: "u = H32 ?u1 + a" "v = H32 ?v1 + b"
    by (simp_all only: a_def b_def split64)
  have low: "H32 (hi32 low) + L32 (lo32 low) = a * b"
    by (simp only: split64 low_def lmulq_eq a_def b_def)
  have lowlow: "H32 (lo32 low) = H32 (?u0 * ?v0)"
  proof -
    have "H32 (lo32 low) = 4294967296 * (H32 (hi32 low) + L32 (lo32 low))"
      by (simp only: H32_L32 [of "lo32 low"] distrib_left H32_shift add_0)
    also have "\<dots> = H32 (?u0 * ?v0)"
      by (simp only: low H32_mult H32_L32 [of ?u0] mult.assoc a_def b_def)
    finally show ?thesis .
  qed
  show ?thesis
  proof (cases "?u1 = 0 \<and> ?v1 = 0")
    case True
    then have "u * v = a * b" by (subst uv(1), subst uv(2)) simp
    moreover have "muldi3_prod u v = low" using True by (simp add: muldi3_prod_def low_def)
    ultimately show ?thesis using low by (simp add: split64)
  next
    case False
    have "muldi3_prod u v = mk64 (?u1 * ?v1 + (?u1 - ?u0) * (?v0 - ?v1) + lo32 low + hi32 low) (lo32 low)"
      by (cases "?u1 \<ge> ?u0"; cases "?v0 \<ge> ?v1";
          simp only: muldi3_prod_def Let_def if_not_P [OF False] if_True if_False prod.case simp_thms low_def)
         (simp_all add: algebra_simps)
    also have "\<dots> = H32 (?u1 * ?v1 + (?u1 - ?u0) * (?v0 - ?v1) + ?u0 * ?v0) + a * b"
      by (simp only: mk64_sum H32_add lowlow add.assoc low)
    also have "?u1 * ?v1 + (?u1 - ?u0) * (?v0 - ?v1) + ?u0 * ?v0 = ?u1 * ?v0 + ?v1 * ?u0"
      by (simp add: algebra_simps)
    also have "H32 \<dots> = H32 ?u1 * b + H32 ?v1 * a"
      by (simp only: H32_add H32_mult a_def b_def)
    also have "H32 ?u1 * b + H32 ?v1 * a + a * b = (H32 ?u1 + a) * (H32 ?v1 + b)"
      using H32_shift [of "?u1 * ?v1"] by (simp add: H32_mult H32_L32 [of ?v1] algebra_simps)
    finally show ?thesis by (simp only: uv [symmetric])
  qed
qed

lemma muldi3_eq: "muldi3 a b = a * b"
  by (simp add: muldi3_def muldi3_prod_eq)

section \<open>Correctness\<close>

text \<open>C38: The long long helpers built from 32-bit halves (\<open>__adddi3\<close>, \<open>__subdi3\<close>, \<open>__negdi2\<close>, the
  bitwise ones and \<open>__muldi3\<close> with its Karatsuba step \<open>__lmulq\<close>) compute the sum, difference,
  negation, bitwise operations and product modulo \<open>2\<^sup>6\<^sup>4\<close>.\<close>

theorem millicode_arith:
  "adddi3 a b = a + b \<and> subdi3 a b = a - b \<and> negdi2 a = - a \<and> muldi3 a b = a * b \<and>
   lmulq u v = ucast u * ucast v \<and>
   anddi3 a b = a AND b \<and> iordi3 a b = a OR b \<and> xordi3 a b = a XOR b \<and> one_cmpldi2 a = NOT a"
  by (simp add: adddi3_eq subdi3_eq negdi2_eq muldi3_eq lmulq_eq L32_def bitwise_eq)

text \<open>For every shift amount below 64 the shift helpers agree with the 64-bit shifts, the
  arithmetic one filling with the sign bit; the three-way comparisons return 0, 1 or 2 exactly when
  the first operand is below, equal to or above the second one, signed for \<open>__cmpdi2\<close> and unsigned
  for \<open>__ucmpdi2\<close>.\<close>

theorem millicode_shift_compare:
  assumes "n < 64"
  shows "ashldi3 a n = push_bit n a \<and> lshldi3 a n = push_bit n a \<and> lshrdi3 a n = drop_bit n a \<and>
    ashrdi3 a n = signed_drop_bit n a \<and>
    cmpdi2 a b = (if a <s b then 0 else if b <s a then 2 else 1) \<and>
    ucmpdi2 a b = (if a < b then 0 else if b < a then 2 else 1)"
  using assms by (simp add: shifts_eq cmpdi2_eq ucmpdi2_eq)

theorem millicode_shift_compare_witness:
  "(33 :: nat) < 64 \<and> ashrdi3 (- 8589934592) 33 = - 1 \<and> cmpdi2 (- 2) 3 = 0 \<and> ucmpdi2 (- 2) 3 = 2"
  using millicode_shift_compare [of 33 "- 8589934592"] millicode_shift_compare [of 33 "- 2" 3]
  by simp

end
