(* ===== verification/ThreadList.thy ===== *)
theory ThreadList
  imports Interfaces
begin

text \<open>
  \<^verbatim>\<open>kern/thread/threadlist.c\<close>: doubly linked lists of threads with a bookend node at each
  end. The nodes live in an explicit heap, because the operations write through pointers; the
  abstract view of a heap maps each initialised list to the threads on it. The kernel is built
  with DEBUGASSERT disabled, so those assertions are not part of the model.
\<close>

section \<open>Nodes, lists and the heap\<close>

type_synonym thread_id = nat
type_synonym list_id = nat

text \<open>The address of a node: the bookends of a list, or the \<open>t_listnode\<close> of a thread.\<close>

datatype node = TlHead list_id | TlTail list_id | TNode thread_id

record threadlistnode =
  tln_prev :: "node option"
  tln_next :: "node option"
  tln_self :: "thread_id option"

record tlheap =
  tl_nodes :: "node \<Rightarrow> threadlistnode"
  tl_count :: "list_id \<Rightarrow> u32"

definition set_prev :: "tlheap \<Rightarrow> node \<Rightarrow> node option \<Rightarrow> tlheap" where
  "set_prev h a p = h\<lparr>tl_nodes := (tl_nodes h)(a := (tl_nodes h a)\<lparr>tln_prev := p\<rparr>)\<rparr>"

definition set_next :: "tlheap \<Rightarrow> node \<Rightarrow> node option \<Rightarrow> tlheap" where
  "set_next h a p = h\<lparr>tl_nodes := (tl_nodes h)(a := (tl_nodes h a)\<lparr>tln_next := p\<rparr>)\<rparr>"

definition set_self :: "tlheap \<Rightarrow> node \<Rightarrow> thread_id option \<Rightarrow> tlheap" where
  "set_self h a p = h\<lparr>tl_nodes := (tl_nodes h)(a := (tl_nodes h a)\<lparr>tln_self := p\<rparr>)\<rparr>"

definition set_count :: "tlheap \<Rightarrow> list_id \<Rightarrow> u32 \<Rightarrow> tlheap" where
  "set_count h l n = h\<lparr>tl_count := (tl_count h)(l := n)\<rparr>"

abbreviation prev_of :: "tlheap \<Rightarrow> node \<Rightarrow> node option" where
  "prev_of h a \<equiv> tln_prev (tl_nodes h a)"

abbreviation next_of :: "tlheap \<Rightarrow> node \<Rightarrow> node option" where
  "next_of h a \<equiv> tln_next (tl_nodes h a)"

abbreviation self_of :: "tlheap \<Rightarrow> node \<Rightarrow> thread_id option" where
  "self_of h a \<equiv> tln_self (tl_nodes h a)"

section \<open>The operations\<close>

definition threadlistnode_init :: "tlheap \<Rightarrow> node \<Rightarrow> thread_id \<Rightarrow> tlheap" where
  "threadlistnode_init h tln t = set_self (set_prev (set_next h tln None) tln None) tln (Some t)"

definition threadlistnode_cleanup :: "tlheap \<Rightarrow> node \<Rightarrow> unit option" where
  "threadlistnode_cleanup h tln = do {
     KASSERT (next_of h tln = None);
     KASSERT (prev_of h tln = None);
     KASSERT (self_of h tln \<noteq> None)
   }"

definition threadlist_init :: "tlheap \<Rightarrow> list_id \<Rightarrow> tlheap" where
  "threadlist_init h lst =
     (let h = set_next h (TlHead lst) (Some (TlTail lst));
          h = set_prev h (TlHead lst) None;
          h = set_next h (TlTail lst) None;
          h = set_prev h (TlTail lst) (Some (TlHead lst));
          h = set_self h (TlHead lst) None;
          h = set_self h (TlTail lst) None
      in set_count h lst 0)"

definition threadlist_isempty :: "tlheap \<Rightarrow> list_id \<Rightarrow> bool" where
  "threadlist_isempty h lst \<longleftrightarrow> tl_count h lst = 0"

definition threadlist_cleanup :: "tlheap \<Rightarrow> list_id \<Rightarrow> unit option" where
  "threadlist_cleanup h lst = do {
     KASSERT (threadlist_isempty h lst);
     KASSERT (tl_count h lst = 0)
   }"

text \<open>Following a NULL pointer is \<open>None\<close>.\<close>

definition threadlist_insertafternode :: "tlheap \<Rightarrow> node \<Rightarrow> thread_id \<Rightarrow> tlheap option" where
  "threadlist_insertafternode h onlist t = do {
     let addee = TNode t;
     let h = set_prev h addee (Some onlist);
     let h = set_next h addee (next_of h onlist);
     p \<leftarrow> prev_of h addee;
     let h = set_next h p (Some addee);
     n \<leftarrow> next_of h addee;
     Some (set_prev h n (Some addee))
   }"

definition threadlist_insertbeforenode :: "tlheap \<Rightarrow> thread_id \<Rightarrow> node \<Rightarrow> tlheap option" where
  "threadlist_insertbeforenode h t onlist = do {
     let addee = TNode t;
     let h = set_prev h addee (prev_of h onlist);
     let h = set_next h addee (Some onlist);
     p \<leftarrow> prev_of h addee;
     let h = set_next h p (Some addee);
     n \<leftarrow> next_of h addee;
     Some (set_prev h n (Some addee))
   }"

definition threadlist_removenode :: "tlheap \<Rightarrow> node \<Rightarrow> tlheap option" where
  "threadlist_removenode h tln = do {
     p \<leftarrow> prev_of h tln;
     let h = set_next h p (next_of h tln);
     n \<leftarrow> next_of h tln;
     let h = set_prev h n (prev_of h tln);
     let h = set_prev h tln None;
     Some (set_next h tln None)
   }"

definition threadlist_addhead :: "tlheap \<Rightarrow> list_id \<Rightarrow> thread_id \<Rightarrow> tlheap option" where
  "threadlist_addhead h lst t = do {
     h \<leftarrow> threadlist_insertafternode h (TlHead lst) t;
     Some (set_count h lst (tl_count h lst + 1))
   }"

definition threadlist_addtail :: "tlheap \<Rightarrow> list_id \<Rightarrow> thread_id \<Rightarrow> tlheap option" where
  "threadlist_addtail h lst t = do {
     h \<leftarrow> threadlist_insertbeforenode h t (TlTail lst);
     Some (set_count h lst (tl_count h lst + 1))
   }"

text \<open>The result of a removal is the removed thread, NULL if the list was empty.\<close>

definition threadlist_remhead :: "tlheap \<Rightarrow> list_id \<Rightarrow> (thread_id option \<times> tlheap) option" where
  "threadlist_remhead h lst = do {
     tln \<leftarrow> next_of h (TlHead lst);
     if next_of h tln = None then Some (None, h)
     else do {
       h \<leftarrow> threadlist_removenode h tln;
       let h = set_count h lst (tl_count h lst - 1);
       Some (self_of h tln, h)
     }
   }"

definition threadlist_remtail :: "tlheap \<Rightarrow> list_id \<Rightarrow> (thread_id option \<times> tlheap) option" where
  "threadlist_remtail h lst = do {
     tln \<leftarrow> prev_of h (TlTail lst);
     if prev_of h tln = None then Some (None, h)
     else do {
       h \<leftarrow> threadlist_removenode h tln;
       let h = set_count h lst (tl_count h lst - 1);
       Some (self_of h tln, h)
     }
   }"

definition threadlist_insertafter :: "tlheap \<Rightarrow> list_id \<Rightarrow> thread_id \<Rightarrow> thread_id \<Rightarrow> tlheap option" where
  "threadlist_insertafter h lst onlist addee = do {
     h \<leftarrow> threadlist_insertafternode h (TNode onlist) addee;
     Some (set_count h lst (tl_count h lst + 1))
   }"

definition threadlist_insertbefore :: "tlheap \<Rightarrow> list_id \<Rightarrow> thread_id \<Rightarrow> thread_id \<Rightarrow> tlheap option" where
  "threadlist_insertbefore h lst addee onlist = do {
     h \<leftarrow> threadlist_insertbeforenode h addee (TNode onlist);
     Some (set_count h lst (tl_count h lst + 1))
   }"

definition threadlist_remove :: "tlheap \<Rightarrow> list_id \<Rightarrow> thread_id \<Rightarrow> tlheap option" where
  "threadlist_remove h lst t = do {
     h \<leftarrow> threadlist_removenode h (TNode t);
     Some (set_count h lst (tl_count h lst - 1))
   }"

text \<open>The loop of the macro \<open>THREADLIST_FORALL\<close>, collecting the threads its body is run for. The
  iteration variable is a thread pointer, so its test reads the node of the thread it points to;
  for NULL that is a wild access, \<open>None\<close>.\<close>

partial_function (option) forall_loop :: "tlheap \<Rightarrow> thread_id option \<Rightarrow> thread_id list option" where
  "forall_loop h itervar = do {
     t \<leftarrow> itervar;
     (case next_of h (TNode t) of
        None \<Rightarrow> Some []
      | Some n \<Rightarrow> do {
          ts \<leftarrow> forall_loop h (self_of h n);
          Some (t # ts)
        })
   }"

definition THREADLIST_FORALL :: "tlheap \<Rightarrow> list_id \<Rightarrow> thread_id list option" where
  "THREADLIST_FORALL h lst = do {
     n \<leftarrow> next_of h (TlHead lst);
     forall_loop h (self_of h n)
   }"

section \<open>Chains of nodes\<close>

fun linked :: "tlheap \<Rightarrow> node list \<Rightarrow> bool" where
  "linked h (a # b # ns) \<longleftrightarrow> next_of h a = Some b \<and> prev_of h b = Some a \<and> linked h (b # ns)"
| "linked h ns \<longleftrightarrow> True"

lemma set_simps [simp]:
  "prev_of (set_prev h a p) b = (if b = a then p else prev_of h b)"
  "prev_of (set_next h a p) b = prev_of h b"
  "prev_of (set_self h a s) b = prev_of h b"
  "prev_of (set_count h l n) b = prev_of h b"
  "next_of (set_prev h a p) b = next_of h b"
  "next_of (set_next h a p) b = (if b = a then p else next_of h b)"
  "next_of (set_self h a s) b = next_of h b"
  "next_of (set_count h l n) b = next_of h b"
  "self_of (set_prev h a p) b = self_of h b"
  "self_of (set_next h a p) b = self_of h b"
  "self_of (set_self h a s) b = (if b = a then s else self_of h b)"
  "self_of (set_count h l n) b = self_of h b"
  "tl_count (set_prev h a p) l' = tl_count h l'"
  "tl_count (set_next h a p) l' = tl_count h l'"
  "tl_count (set_self h a s) l' = tl_count h l'"
  "tl_count (set_count h l n) l' = (if l' = l then n else tl_count h l')"
  by (simp_all add: set_prev_def set_next_def set_self_def set_count_def)

lemma linked_append: "linked h (xs @ a # ys) \<longleftrightarrow> linked h (xs @ [a]) \<and> linked h (a # ys)"
  by (induction h xs rule: linked.induct) (cases ys; auto)+

lemma linked_cong:
  assumes "\<And>x. x \<in> set (butlast ns) \<Longrightarrow> next_of h' x = next_of h x"
    "\<And>x. x \<in> set (tl ns) \<Longrightarrow> prev_of h' x = prev_of h x"
  shows "linked h' ns = linked h ns"
  using assms
proof (induction h ns rule: linked.induct)
  case (1 h a b ns)
  then have "linked h' (b # ns) = linked h (b # ns)"
    by (intro 1(1)) (cases ns; auto)+
  then show ?case using 1(2) [of a] 1(3) [of b] by simp
qed simp_all

text \<open>The effect of inserting a node \<open>c\<close> between \<open>a\<close> and \<open>b\<close>, and of taking it out again.\<close>

definition spliced :: "tlheap \<Rightarrow> tlheap \<Rightarrow> node \<Rightarrow> node \<Rightarrow> node \<Rightarrow> bool" where
  "spliced h h' a c b \<longleftrightarrow>
     (\<forall>x. next_of h' x = (if x = a then Some c else if x = c then Some b else next_of h x)) \<and>
     (\<forall>x. prev_of h' x = (if x = b then Some c else if x = c then Some a else prev_of h x)) \<and>
     (\<forall>x. self_of h' x = self_of h x) \<and> (\<forall>l. tl_count h' l = tl_count h l)"

definition unspliced :: "tlheap \<Rightarrow> tlheap \<Rightarrow> node \<Rightarrow> node \<Rightarrow> node \<Rightarrow> bool" where
  "unspliced h h' a c b \<longleftrightarrow>
     (\<forall>x. next_of h' x = (if x = a then Some b else if x = c then None else next_of h x)) \<and>
     (\<forall>x. prev_of h' x = (if x = b then Some a else if x = c then None else prev_of h x)) \<and>
     (\<forall>x. self_of h' x = self_of h x) \<and> (\<forall>l. tl_count h' l = tl_count h l)"

lemma insertafternode_spliced:
  assumes "next_of h a = Some b" "a \<noteq> TNode t" "b \<noteq> TNode t"
  shows "\<exists>h'. threadlist_insertafternode h a t = Some h' \<and> spliced h h' a (TNode t) b"
  using assms by (simp add: threadlist_insertafternode_def spliced_def Let_def)

lemma insertbeforenode_spliced:
  assumes "prev_of h b = Some a" "a \<noteq> TNode t" "b \<noteq> TNode t"
  shows "\<exists>h'. threadlist_insertbeforenode h t b = Some h' \<and> spliced h h' a (TNode t) b"
  using assms by (simp add: threadlist_insertbeforenode_def spliced_def Let_def)

lemma removenode_unspliced:
  assumes "prev_of h c = Some a" "next_of h c = Some b" "a \<noteq> c" "b \<noteq> c"
  shows "\<exists>h'. threadlist_removenode h c = Some h' \<and> unspliced h h' a c b"
  using assms by (simp add: threadlist_removenode_def unspliced_def Let_def)

lemma linked_spliced:
  assumes "linked h (xs @ a # b # ys)" "distinct (xs @ a # c # b # ys)" "spliced h h' a c b"
  shows "linked h' (xs @ a # c # b # ys)"
proof -
  have "linked h (xs @ [a])" "linked h (b # ys)"
    using assms(1) linked_append [of h xs a "b # ys"] by auto
  moreover have "linked h' (xs @ [a]) = linked h (xs @ [a])"
    by (rule linked_cong; use assms in \<open>cases xs; auto simp: spliced_def butlast_append\<close>)
  moreover have "linked h' (b # ys) = linked h (b # ys)"
    by (rule linked_cong) (use assms in \<open>auto simp: spliced_def dest: in_set_butlastD split: if_splits\<close>)
  ultimately show ?thesis
    using assms(2,3) linked_append [of h' xs a "c # b # ys"] by (auto simp: spliced_def)
qed

lemma linked_unspliced:
  assumes "linked h (xs @ a # c # b # ys)" "distinct (xs @ a # c # b # ys)" "unspliced h h' a c b"
  shows "linked h' (xs @ a # b # ys)"
proof -
  have "linked h (xs @ [a])" "linked h (b # ys)"
    using assms(1) linked_append [of h xs a "c # b # ys"] by auto
  moreover have "linked h' (xs @ [a]) = linked h (xs @ [a])"
    by (rule linked_cong; use assms in \<open>cases xs; auto simp: unspliced_def butlast_append\<close>)
  moreover have "linked h' (b # ys) = linked h (b # ys)"
    by (rule linked_cong) (use assms in \<open>auto simp: unspliced_def dest: in_set_butlastD split: if_splits\<close>)
  ultimately show ?thesis
    using assms(2,3) linked_append [of h' xs a "b # ys"] by (auto simp: unspliced_def)
qed

section \<open>The abstract view\<close>

definition chain :: "list_id \<Rightarrow> thread_id list \<Rightarrow> node list" where
  "chain l ts = TlHead l # map TNode ts @ [TlTail l]"

definition tl_rep :: "tlheap \<Rightarrow> list_id \<Rightarrow> thread_id list \<Rightarrow> bool" where
  "tl_rep h l ts \<longleftrightarrow>
     distinct ts \<and> linked h (chain l ts) \<and>
     prev_of h (TlHead l) = None \<and> next_of h (TlTail l) = None \<and>
     self_of h (TlHead l) = None \<and> self_of h (TlTail l) = None \<and>
     (\<forall>t \<in> set ts. self_of h (TNode t) = Some t) \<and>
     tl_count h l = of_nat (length ts)"

text \<open>All the lists of a heap: those initialised hold what \<open>L\<close> says, and no thread is on two of
  them.\<close>

definition tls_rep :: "tlheap \<Rightarrow> (list_id \<Rightarrow> thread_id list option) \<Rightarrow> bool" where
  "tls_rep h L \<longleftrightarrow>
     (\<forall>l ts. L l = Some ts \<longrightarrow> tl_rep h l ts) \<and>
     (\<forall>l l' ts ts'. L l = Some ts \<longrightarrow> L l' = Some ts' \<longrightarrow> l \<noteq> l' \<longrightarrow> set ts \<inter> set ts' = {})"

definition off_lists :: "(list_id \<Rightarrow> thread_id list option) \<Rightarrow> thread_id \<Rightarrow> bool" where
  "off_lists L t \<longleftrightarrow> (\<forall>l ts. L l = Some ts \<longrightarrow> t \<notin> set ts)"

lemma set_chain: "set (chain l ts) = {TlHead l, TlTail l} \<union> TNode ` set ts"
  by (auto simp: chain_def)

lemma distinct_chain: "distinct (chain l ts) \<longleftrightarrow> distinct ts"
  by (auto simp: chain_def distinct_map inj_on_def)

lemma tl_rep_frame:
  assumes "tl_rep h l ts" "tl_count h' l = tl_count h l"
    "\<And>x. x \<in> set (chain l ts) \<Longrightarrow> next_of h' x = next_of h x \<and> prev_of h' x = prev_of h x \<and> self_of h' x = self_of h x"
  shows "tl_rep h' l ts"
proof -
  have "linked h' (chain l ts) = linked h (chain l ts)"
    by (rule linked_cong) (use assms(3) in_set_butlastD list.set_sel(2) in \<open>metis tl_Nil\<close>)+
  then show ?thesis using assms by (simp add: tl_rep_def set_chain)
qed

text \<open>The neighbours of position \<open>length us\<close> in the chain of \<open>us @ vs\<close>.\<close>

definition left_of :: "list_id \<Rightarrow> thread_id list \<Rightarrow> node" where
  "left_of l us = last (TlHead l # map TNode us)"

definition right_of :: "list_id \<Rightarrow> thread_id list \<Rightarrow> node" where
  "right_of l vs = hd (map TNode vs @ [TlTail l])"

lemma chain_split:
  "chain l (us @ vs) = butlast (TlHead l # map TNode us) @ left_of l us # right_of l vs #
     tl (map TNode vs @ [TlTail l])"
  "chain l (us @ t # vs) = butlast (TlHead l # map TNode us) @ left_of l us # TNode t # right_of l vs #
     tl (map TNode vs @ [TlTail l])"
proof -
  have a: "butlast (TlHead l # map TNode us) @ left_of l us # ns = (TlHead l # map TNode us) @ ns" for ns
    using append_butlast_last_id [of "TlHead l # map TNode us"] by (simp add: left_of_def)
  have b: "right_of l vs # tl (map TNode vs @ [TlTail l]) = map TNode vs @ [TlTail l]"
    by (cases vs) (simp_all add: right_of_def)
  show "chain l (us @ vs) = butlast (TlHead l # map TNode us) @ left_of l us # right_of l vs #
      tl (map TNode vs @ [TlTail l])"
    by (simp only: a b) (simp add: chain_def)
  show "chain l (us @ t # vs) = butlast (TlHead l # map TNode us) @ left_of l us # TNode t # right_of l vs #
      tl (map TNode vs @ [TlTail l])"
    by (simp only: a b) (simp add: chain_def)
qed

lemma left_right_in_chain:
  "left_of l us \<in> set (chain l us)" "right_of l vs \<in> set (chain l vs)"
  "left_of l us \<noteq> TlTail l'" "right_of l vs \<noteq> TlHead l'"
  "left_of l us = TNode t \<Longrightarrow> t \<in> set us" "right_of l vs = TNode t \<Longrightarrow> t \<in> set vs"
  "left_of l us = TlHead l' \<Longrightarrow> l' = l" "right_of l vs = TlTail l' \<Longrightarrow> l' = l"
  by (cases us rule: rev_cases; cases vs; auto simp: left_of_def right_of_def chain_def)+

lemma left_right_bookends [simp]:
  "left_of l us \<noteq> TlTail l'" "TlTail l' \<noteq> left_of l us"
  "right_of l vs \<noteq> TlHead l'" "TlHead l' \<noteq> right_of l vs"
  using left_right_in_chain(3) [of l us l'] left_right_in_chain(4) [of l vs l'] by auto

lemma tls_rep_upd:
  assumes rep: "tls_rep h L" and new: "tl_rep h' l ts"
    and old: "\<And>l' ts'. L l' = Some ts' \<Longrightarrow> l' \<noteq> l \<Longrightarrow> tl_rep h' l' ts'"
    and disj: "\<And>l' ts'. L l' = Some ts' \<Longrightarrow> l' \<noteq> l \<Longrightarrow> set ts' \<inter> set ts = {}"
  shows "tls_rep h' (L(l \<mapsto> ts))"
  unfolding tls_rep_def
proof (intro conjI allI impI)
  fix l' ts' assume "(L(l \<mapsto> ts)) l' = Some ts'"
  then show "tl_rep h' l' ts'" using new old by (cases "l' = l") auto
next
  fix l1 l2 ts1 ts2
  assume a: "(L(l \<mapsto> ts)) l1 = Some ts1" "(L(l \<mapsto> ts)) l2 = Some ts2" "l1 \<noteq> l2"
  consider "l1 = l" | "l2 = l" | "l1 \<noteq> l" "l2 \<noteq> l" by blast
  then show "set ts1 \<inter> set ts2 = {}"
  proof cases
    case 1 then show ?thesis using a disj [of l2 ts2] by (simp add: inf_commute)
  next
    case 2 then show ?thesis using a disj [of l1 ts1] by simp
  next
    case 3 then show ?thesis using a rep unfolding tls_rep_def by simp
  qed
qed

lemma tls_rep_insert:
  assumes rep: "tls_rep h L" and L: "L l = Some (us @ vs)" and t: "off_lists L t"
    and self: "self_of h (TNode t) = Some t" and sp: "spliced h h' (left_of l us) (TNode t) (right_of l vs)"
  shows "tls_rep (set_count h' l (tl_count h' l + 1)) (L(l \<mapsto> us @ t # vs))"
proof -
  let ?h = "set_count h' l (tl_count h' l + 1)"
  have r: "tl_rep h l (us @ vs)" using rep L by (auto simp: tls_rep_def)
  have "t \<notin> set (us @ vs)" using L t unfolding off_lists_def by blast
  then have tn: "t \<notin> set us" "t \<notin> set vs" by simp_all
  have d: "distinct (us @ t # vs)" using r tn by (auto simp: tl_rep_def)
  have "linked h' (chain l (us @ t # vs))"
    unfolding chain_split(2)
    by (rule linked_spliced [OF _ _ sp])
       (use r d in \<open>simp_all only: tl_rep_def chain_split [symmetric] distinct_chain\<close>)
  then have "linked ?h (chain l (us @ t # vs))" by (subst linked_cong [of _ _ h']) simp_all
  then have new: "tl_rep ?h l (us @ t # vs)"
    using r d self sp left_right_in_chain [of l us] left_right_in_chain(2,4,6,8) [of l vs]
    by (auto simp: tl_rep_def spliced_def)
  have old: "tl_rep ?h l' ts" if "L l' = Some ts" "l' \<noteq> l" for l' ts
  proof (rule tl_rep_frame)
    show "tl_rep h l' ts" using rep that by (auto simp: tls_rep_def)
    show "tl_count ?h l' = tl_count h l'" using that sp by (simp add: spliced_def)
    have "set ts \<inter> set (us @ vs) = {}" using rep that L unfolding tls_rep_def by blast
    moreover have "t \<notin> set ts" using t that by (auto simp: off_lists_def)
    ultimately have "left_of l us \<notin> set (chain l' ts)" "right_of l vs \<notin> set (chain l' ts)" "TNode t \<notin> set (chain l' ts)"
      using that left_right_in_chain(1,3,5) [of l us] left_right_in_chain(2,4,6) [of l vs]
      by (auto simp: set_chain)
    then show "next_of ?h x = next_of h x \<and> prev_of ?h x = prev_of h x \<and> self_of ?h x = self_of h x"
      if "x \<in> set (chain l' ts)" for x
      using sp that by (auto simp: spliced_def)
  qed
  show ?thesis
  proof (rule tls_rep_upd [OF rep new old])
    fix l' ts' assume "L l' = Some ts'" "l' \<noteq> l"
    then have "set ts' \<inter> set (us @ vs) = {}" "t \<notin> set ts'"
      using rep L t unfolding tls_rep_def off_lists_def by blast+
    then show "set ts' \<inter> set (us @ t # vs) = {}" by auto
  qed
qed

lemma tls_rep_remove:
  assumes rep: "tls_rep h L" and L: "L l = Some (us @ t # vs)"
    and un: "unspliced h h' (left_of l us) (TNode t) (right_of l vs)"
  shows "tls_rep (set_count h' l (tl_count h' l - 1)) (L(l \<mapsto> us @ vs))"
proof -
  let ?h = "set_count h' l (tl_count h' l - 1)"
  have r: "tl_rep h l (us @ t # vs)" using rep L by (auto simp: tls_rep_def)
  then have d: "distinct (us @ t # vs)" by (auto simp: tl_rep_def)
  have "linked h' (chain l (us @ vs))"
    unfolding chain_split(1)
    by (rule linked_unspliced [OF _ _ un])
       (use r d in \<open>simp_all only: tl_rep_def chain_split [symmetric] distinct_chain\<close>)
  then have "linked ?h (chain l (us @ vs))" by (subst linked_cong [of _ _ h']) simp_all
  then have new: "tl_rep ?h l (us @ vs)"
    using r d un left_right_in_chain [of l us] left_right_in_chain(2,4,6,8) [of l vs]
    by (auto simp: tl_rep_def unspliced_def)
  have old: "tl_rep ?h l' ts" if "L l' = Some ts" "l' \<noteq> l" for l' ts
  proof (rule tl_rep_frame)
    show "tl_rep h l' ts" using rep that by (auto simp: tls_rep_def)
    show "tl_count ?h l' = tl_count h l'" using that un by (simp add: unspliced_def)
    have "set ts \<inter> set (us @ t # vs) = {}" using rep that L unfolding tls_rep_def by blast
    then have "left_of l us \<notin> set (chain l' ts)" "right_of l vs \<notin> set (chain l' ts)" "TNode t \<notin> set (chain l' ts)"
      using that left_right_in_chain(1,3,5) [of l us] left_right_in_chain(2,4,6) [of l vs]
      by (auto simp: set_chain)
    then show "next_of ?h x = next_of h x \<and> prev_of ?h x = prev_of h x \<and> self_of ?h x = self_of h x"
      if "x \<in> set (chain l' ts)" for x
      using un that by (auto simp: unspliced_def)
  qed
  show ?thesis
  proof (rule tls_rep_upd [OF rep new old])
    fix l' ts' assume "L l' = Some ts'" "l' \<noteq> l"
    then have "set ts' \<inter> set (us @ t # vs) = {}" using rep L unfolding tls_rep_def by blast
    then show "set ts' \<inter> set (us @ vs) = {}" by auto
  qed
qed

section \<open>The operations refine lists\<close>

lemma linked_pair: "linked h (xs @ a # b # ys) \<Longrightarrow> next_of h a = Some b \<and> prev_of h b = Some a"
  by (simp add: linked_append [of h xs a "b # ys"])

lemma tl_rep_links:
  "tl_rep h l (us @ vs) \<Longrightarrow> next_of h (left_of l us) = Some (right_of l vs)"
  "tl_rep h l (us @ vs) \<Longrightarrow> prev_of h (right_of l vs) = Some (left_of l us)"
  using linked_pair by (simp_all only: tl_rep_def chain_split(1)) blast+

lemma left_right_simps [simp]:
  "left_of l [] = TlHead l" "right_of l [] = TlTail l"
  "left_of l (us @ [t]) = TNode t" "right_of l (t # vs) = TNode t"
  by (simp_all add: left_of_def right_of_def)

lemma left_right_not_node:
  "t \<notin> set us \<Longrightarrow> left_of l us \<noteq> TNode t" "t \<notin> set vs \<Longrightarrow> right_of l vs \<noteq> TNode t"
  using left_right_in_chain(5,6) by auto

lemma insert_between:
  assumes rep: "tls_rep h L" and L: "L l = Some (us @ vs)" and t: "off_lists L t"
    and self: "self_of h (TNode t) = Some t"
  shows "\<exists>h'. threadlist_insertafternode h (left_of l us) t = Some h' \<and>
             tls_rep (set_count h' l (tl_count h' l + 1)) (L(l \<mapsto> us @ t # vs))"
    and "\<exists>h'. threadlist_insertbeforenode h t (right_of l vs) = Some h' \<and>
             tls_rep (set_count h' l (tl_count h' l + 1)) (L(l \<mapsto> us @ t # vs))"
proof -
  have r: "tl_rep h l (us @ vs)" using rep L by (auto simp: tls_rep_def)
  have "t \<notin> set (us @ vs)" using L t unfolding off_lists_def by blast
  then have n: "left_of l us \<noteq> TNode t" "right_of l vs \<noteq> TNode t" by (auto dest: left_right_in_chain(5,6))
  show "\<exists>h'. threadlist_insertafternode h (left_of l us) t = Some h' \<and>
             tls_rep (set_count h' l (tl_count h' l + 1)) (L(l \<mapsto> us @ t # vs))"
    using insertafternode_spliced [OF tl_rep_links(1) [OF r] n] tls_rep_insert [OF assms] by blast
  show "\<exists>h'. threadlist_insertbeforenode h t (right_of l vs) = Some h' \<and>
             tls_rep (set_count h' l (tl_count h' l + 1)) (L(l \<mapsto> us @ t # vs))"
    using insertbeforenode_spliced [OF tl_rep_links(2) [OF r] n] tls_rep_insert [OF assms] by blast
qed

lemma remove_between:
  assumes rep: "tls_rep h L" and L: "L l = Some (us @ t # vs)"
  shows "\<exists>h'. threadlist_removenode h (TNode t) = Some h' \<and>
             tls_rep (set_count h' l (tl_count h' l - 1)) (L(l \<mapsto> us @ vs)) \<and>
             prev_of h' (TNode t) = None \<and> next_of h' (TNode t) = None \<and> self_of h' (TNode t) = Some t"
proof -
  have r: "tl_rep h l (us @ t # vs)" using rep L by (auto simp: tls_rep_def)
  then have "tl_rep h l ((us @ [t]) @ vs)" by simp
  with r have links: "prev_of h (TNode t) = Some (left_of l us)" "next_of h (TNode t) = Some (right_of l vs)"
    using tl_rep_links(2) [of h l us "t # vs"] tl_rep_links(1) [of h l "us @ [t]" vs] by simp_all
  have "t \<notin> set us" "t \<notin> set vs" using r by (auto simp: tl_rep_def)
  then have n: "left_of l us \<noteq> TNode t" "right_of l vs \<noteq> TNode t" by (auto dest: left_right_in_chain(5,6))
  obtain h' where h': "threadlist_removenode h (TNode t) = Some h'" "unspliced h h' (left_of l us) (TNode t) (right_of l vs)"
    using removenode_unspliced [OF links n] by blast
  moreover have "prev_of h' (TNode t) = None" "next_of h' (TNode t) = None" "self_of h' (TNode t) = Some t"
    using h'(2) n r by (auto simp: unspliced_def tl_rep_def)
  ultimately show ?thesis using tls_rep_remove [OF rep L] by blast
qed

text \<open>A thread that is not on a list: both its links are NULL, so \<open>threadlistnode_cleanup\<close>
  succeeds.\<close>

definition loose :: "tlheap \<Rightarrow> thread_id \<Rightarrow> bool" where
  "loose h t \<longleftrightarrow> threadlistnode_cleanup h (TNode t) = Some ()"

lemma addtail_refines:
  assumes "tls_rep h L" "L l = Some ts" "off_lists L t" "self_of h (TNode t) = Some t"
  shows "\<exists>h'. threadlist_addtail h l t = Some h' \<and> tls_rep h' (L(l \<mapsto> ts @ [t]))"
  using insert_between(2) [of h L l ts "[]" t] assms by (auto simp: threadlist_addtail_def)

lemma addhead_refines:
  assumes "tls_rep h L" "L l = Some ts" "off_lists L t" "self_of h (TNode t) = Some t"
  shows "\<exists>h'. threadlist_addhead h l t = Some h' \<and> tls_rep h' (L(l \<mapsto> t # ts))"
  using insert_between(1) [of h L l "[]" ts t] assms by (auto simp: threadlist_addhead_def)

lemma remhead_refines:
  assumes rep: "tls_rep h L" and L: "L l = Some ts"
  shows "(case ts of [] \<Rightarrow> threadlist_remhead h l = Some (None, h)
     | t # vs \<Rightarrow> \<exists>h'. threadlist_remhead h l = Some (Some t, h') \<and> tls_rep h' (L(l \<mapsto> vs)) \<and> loose h' t)"
proof -
  have r: "tl_rep h l ts" using rep L by (auto simp: tls_rep_def)
  then have n: "next_of h (TlHead l) = Some (right_of l ts)" using tl_rep_links(1) [of h l "[]" ts] by simp
  show ?thesis
  proof (cases ts)
    case Nil
    then show ?thesis using n r by (simp add: threadlist_remhead_def tl_rep_def)
  next
    case (Cons t vs)
    have "next_of h (TNode t) \<noteq> None" using r Cons tl_rep_links(1) [of h l "[t]" vs] by (simp add: left_of_def)
    then show ?thesis using remove_between [OF rep, of l "[]" t vs] L n Cons
      by (auto simp: threadlist_remhead_def loose_def threadlistnode_cleanup_def Let_def)
  qed
qed

lemma remtail_refines:
  assumes rep: "tls_rep h L" and L: "L l = Some ts"
  shows "if ts = [] then threadlist_remtail h l = Some (None, h)
     else \<exists>h'. threadlist_remtail h l = Some (Some (last ts), h') \<and> tls_rep h' (L(l \<mapsto> butlast ts)) \<and> loose h' (last ts)"
proof -
  have r: "tl_rep h l ts" using rep L by (auto simp: tls_rep_def)
  then have n: "prev_of h (TlTail l) = Some (left_of l ts)" using tl_rep_links(2) [of h l ts "[]"] by simp
  show ?thesis
  proof (cases ts rule: rev_cases)
    case Nil
    then show ?thesis using n r by (simp add: threadlist_remtail_def tl_rep_def)
  next
    case (snoc us t)
    have "prev_of h (TNode t) \<noteq> None" using r snoc tl_rep_links(2) [of h l us "[t]"] by (simp add: right_of_def)
    then show ?thesis using remove_between [OF rep, of l us t "[]"] L n snoc
      by (auto simp: threadlist_remtail_def loose_def threadlistnode_cleanup_def Let_def)
  qed
qed

lemma init_refines:
  assumes "tls_rep h L"
  shows "tls_rep (threadlist_init h l) (L(l \<mapsto> []))"
proof (rule tls_rep_upd [OF assms])
  show "tl_rep (threadlist_init h l) l []"
    by (simp add: tl_rep_def threadlist_init_def chain_def Let_def)
  show "tl_rep (threadlist_init h l) l' ts'" if "L l' = Some ts'" "l' \<noteq> l" for l' ts'
    by (rule tl_rep_frame [of h])
       (use assms that in \<open>auto simp: tls_rep_def threadlist_init_def set_chain Let_def\<close>)
qed simp

text \<open>A heap with no list and an initialised node for each thread.\<close>

definition boot_heap :: tlheap where
  "boot_heap = \<lparr>tl_nodes = (\<lambda>a. \<lparr>tln_prev = None, tln_next = None,
      tln_self = (case a of TNode t \<Rightarrow> Some t | _ \<Rightarrow> None)\<rparr>), tl_count = (\<lambda>_. 0)\<rparr>"

lemma boot_heap_rep: "tls_rep boot_heap Map.empty" "self_of boot_heap (TNode t) = Some t"
  by (simp_all add: tls_rep_def boot_heap_def)

lemma init_self [simp]: "self_of (threadlist_init h l) (TNode t) = self_of h (TNode t)"
  by (simp add: threadlist_init_def Let_def)

lemma off_lists_single [simp]: "off_lists [l \<mapsto> ts] t \<longleftrightarrow> t \<notin> set ts"
  by (auto simp: off_lists_def split: if_splits)

section \<open>The queue contract\<close>

definition tlq_rep :: "list_id \<Rightarrow> tlheap \<Rightarrow> thread_id list \<Rightarrow> bool" where
  "tlq_rep l h ts \<longleftrightarrow> tls_rep h [l \<mapsto> ts] \<and> (\<forall>t. self_of h (TNode t) = Some t)"

definition tlq_pop :: "list_id \<Rightarrow> tlheap \<Rightarrow> (thread_id \<times> tlheap) option" where
  "tlq_pop l h = do {
     (r, h') \<leftarrow> threadlist_remhead h l;
     t \<leftarrow> r;
     Some (t, h')
   }"

definition tlq_admit :: "thread_id list \<Rightarrow> thread_id \<Rightarrow> bool" where
  "tlq_admit ts t \<longleftrightarrow> t \<notin> set ts"

lemma insertbeforenode_self: "threadlist_insertbeforenode h t b = Some h' \<Longrightarrow> self_of h' x = self_of h x"
  by (auto simp: threadlist_insertbeforenode_def Let_def option_bind_Some_iff)

lemma removenode_self: "threadlist_removenode h a = Some h' \<Longrightarrow> self_of h' x = self_of h x"
  by (auto simp: threadlist_removenode_def Let_def option_bind_Some_iff)

lemma addtail_self: "threadlist_addtail h l t = Some h' \<Longrightarrow> self_of h' x = self_of h x"
  by (auto simp: threadlist_addtail_def option_bind_Some_iff dest: insertbeforenode_self)

lemma remhead_self: "threadlist_remhead h l = Some (r, h') \<Longrightarrow> self_of h' x = self_of h x"
  by (auto simp: threadlist_remhead_def Let_def option_bind_Some_iff split: if_splits dest: removenode_self)

interpretation tlq: fifo "tlq_rep l" "\<lambda>h t. threadlist_addtail h l t" "tlq_pop l" tlq_admit for l
proof
  fix h ts t
  assume "tlq_rep l h ts" "tlq_admit ts t"
  then show "\<exists>h'. threadlist_addtail h l t = Some h' \<and> tlq_rep l h' (ts @ [t])"
    using addtail_refines [of h "[l \<mapsto> ts]" l ts t] addtail_self [of h l t]
    by (auto simp: tlq_rep_def tlq_admit_def)
next
  fix h t ts
  assume "tlq_rep l h (t # ts)"
  then show "\<exists>h'. tlq_pop l h = Some (t, h') \<and> tlq_rep l h' ts"
    using remhead_refines [of h "[l \<mapsto> t # ts]" l "t # ts"] remhead_self [of h l]
    by (auto simp: tlq_rep_def tlq_pop_def)
qed

section \<open>Properties\<close>

text \<open>The operations at the ends of a thread list refine the list operations, with every other
  list of the heap untouched. Adding a thread that is on no list puts it at that end; removing takes
  the thread at that end off, hands back NULL exactly on an empty list, and leaves the removed
  thread's links NULL, so that its node may be cleaned up or queued again.\<close>

theorem threadlist_ends_refine:
  assumes "tls_rep h L" "L l = Some ts" "off_lists L t" "self_of h (TNode t) = Some t"
  shows "(\<exists>h'. threadlist_addhead h l t = Some h' \<and> tls_rep h' (L(l \<mapsto> t # ts))) \<and>
    (\<exists>h'. threadlist_addtail h l t = Some h' \<and> tls_rep h' (L(l \<mapsto> ts @ [t]))) \<and>
    (if ts = [] then threadlist_remhead h l = Some (None, h) \<and> threadlist_remtail h l = Some (None, h)
     else (\<exists>h'. threadlist_remhead h l = Some (Some (hd ts), h') \<and> tls_rep h' (L(l \<mapsto> tl ts)) \<and>
                threadlistnode_cleanup h' (TNode (hd ts)) = Some ()) \<and>
          (\<exists>h'. threadlist_remtail h l = Some (Some (last ts), h') \<and> tls_rep h' (L(l \<mapsto> butlast ts)) \<and>
                threadlistnode_cleanup h' (TNode (last ts)) = Some ()))"
  using addhead_refines [OF assms] addtail_refines [OF assms] remhead_refines [OF assms(1,2)]
    remtail_refines [OF assms(1,2)]
  by (auto simp: loose_def split: list.splits if_splits)

theorem threadlist_ends_refine_witness:
  "\<exists>h1 h2. threadlist_addtail (threadlist_init boot_heap 7) 7 3 = Some h1 \<and> tls_rep h1 [7 \<mapsto> [3]] \<and>
     threadlist_remhead (threadlist_init boot_heap 7) 7 = Some (None, h2)"
proof -
  have "tls_rep (threadlist_init boot_heap 7) [7 \<mapsto> []]" using init_refines [OF boot_heap_rep(1)] by simp
  then show ?thesis
    using threadlist_ends_refine [of "threadlist_init boot_heap 7" "[7 \<mapsto> []]" 7 "[]" 3]
    by (auto simp: boot_heap_rep)
qed

text \<open>The operations in the middle of a list. Inserting after or before a thread of the list
  and removing a thread from the list do exactly that, keep the order of the others, and leave
  every other list of the heap untouched.\<close>

theorem threadlist_middle_refine:
  assumes "tls_rep h L" "L l = Some (us @ x # vs)" "off_lists L t" "self_of h (TNode t) = Some t"
  shows "(\<exists>h'. threadlist_insertafter h l x t = Some h' \<and> tls_rep h' (L(l \<mapsto> us @ x # t # vs))) \<and>
    (\<exists>h'. threadlist_insertbefore h l t x = Some h' \<and> tls_rep h' (L(l \<mapsto> us @ t # x # vs))) \<and>
    (\<exists>h'. threadlist_remove h l x = Some h' \<and> tls_rep h' (L(l \<mapsto> us @ vs)) \<and>
          threadlistnode_cleanup h' (TNode x) = Some ())"
proof -
  have "L l = Some ((us @ [x]) @ vs)" using assms(2) by simp
  from insert_between(1) [OF assms(1) this assms(3,4)] insert_between(2) [OF assms]
    remove_between [OF assms(1,2)]
  show ?thesis
    by (auto simp: threadlist_insertafter_def threadlist_insertbefore_def threadlist_remove_def
        threadlistnode_cleanup_def)
qed

theorem threadlist_middle_refine_witness:
  "\<exists>h h1 h2. threadlist_addtail (threadlist_init boot_heap 7) 7 3 = Some h \<and>
     threadlist_insertbefore h 7 4 3 = Some h1 \<and> tls_rep h1 [7 \<mapsto> [4, 3]] \<and>
     threadlist_remove h 7 3 = Some h2 \<and> tls_rep h2 [7 \<mapsto> []]"
proof -
  have "tls_rep (threadlist_init boot_heap 7) [7 \<mapsto> []]" using init_refines [OF boot_heap_rep(1)] by simp
  then obtain h where h: "threadlist_addtail (threadlist_init boot_heap 7) 7 3 = Some h" "tls_rep h [7 \<mapsto> [3]]"
    using addtail_refines [of "threadlist_init boot_heap 7" "[7 \<mapsto> []]" 7 "[]" 3]
    by (auto simp: boot_heap_rep)
  have "self_of h (TNode 4) = Some 4"
    using addtail_self [OF h(1)] by (simp add: boot_heap_rep)
  then show ?thesis
    using threadlist_middle_refine [OF h(2), of 7 "[]" 3 "[]" 4] h(1) by auto
qed

text \<open>C35: Used as a queue (add at the tail, remove at the head, as the run queues and the wait
  channels do), a thread list hands the threads back in the order in which they were queued, for
  every sequence of operations that does not queue a thread twice.\<close>

theorem threadlist_fifo:
  assumes "list_ops tlq_admit ops [] = Some (ys, zs)"
  shows "\<exists>h'. run_ops (\<lambda>h t. threadlist_addtail h l t) (tlq_pop l) ops (threadlist_init boot_heap l) = Some (ys, h') \<and>
           tls_rep h' [l \<mapsto> zs] \<and> tl_count h' l = of_nat (length zs)"
proof -
  have "tlq_rep l (threadlist_init boot_heap l) []"
    using init_refines [OF boot_heap_rep(1)]
    by (auto simp: tlq_rep_def boot_heap_rep)
  from tlq.run_ops_refines [OF this assms] show ?thesis by (auto simp: tlq_rep_def tls_rep_def tl_rep_def)
qed

theorem threadlist_fifo_witness:
  "\<exists>h'. run_ops (\<lambda>h t. threadlist_addtail h 1 t) (tlq_pop 1) [Push 5, Push 6, Pop, Push 5, Pop]
      (threadlist_init boot_heap 1) = Some ([5, 6], h') \<and> tls_rep h' [1 \<mapsto> [5]]"
  using threadlist_fifo [of "[Push 5, Push 6, Pop, Push 5, Pop]" "[5, 6]" "[5]" 1] by (auto simp: tlq_admit_def)

lemma forall_loop_None:
  "tl_rep h l (us @ vs) \<Longrightarrow> forall_loop h (self_of h (right_of l vs)) = None"
proof (induction vs arbitrary: us)
  case Nil
  then show ?case by (subst forall_loop.simps) (simp add: tl_rep_def)
next
  case (Cons t vs)
  then have "tl_rep h l ((us @ [t]) @ vs)" by simp
  then show ?case using Cons.IH [of "us @ [t]"] tl_rep_links(1) [of h l "us @ [t]" vs] Cons.prems
    by (subst forall_loop.simps) (simp add: tl_rep_def)
qed

text \<open>The iteration macro \<open>THREADLIST_FORALL\<close> cannot be used: on every well-formed list, the
  empty one included, it follows a NULL pointer. It steps through \<open>tln_self\<close>, which is NULL in the
  closing bookend, and then reads the node of that thread.\<close>

theorem THREADLIST_FORALL_faults:
  assumes "tls_rep h L" "L l = Some ts"
  shows "THREADLIST_FORALL h l = None"
proof -
  have r: "tl_rep h l ([] @ ts)" using assms by (auto simp: tls_rep_def)
  show ?thesis using forall_loop_None [OF r] tl_rep_links(1) [OF r] by (simp add: THREADLIST_FORALL_def)
qed

theorem THREADLIST_FORALL_faults_witness: "THREADLIST_FORALL (threadlist_init boot_heap 7) 7 = None"
  using THREADLIST_FORALL_faults [OF init_refines [OF boot_heap_rep(1)], of 7 7 "[]"] by simp

end
