(* ===== verification/CoreMap.thy ===== *)
theory CoreMap
  imports Interfaces
begin

text \<open>
  Physical memory: \<^verbatim>\<open>kern/arch/mips/vm/ram.c\<close> and the frame allocator of
  \<^verbatim>\<open>kern/arch/mips/vm/dumbvm.c\<close> (\<open>vm_bootstrap\<close>, \<open>getppages\<close>, \<open>alloc_kpages\<close>,
  \<open>free_kpages\<close>). Before the core map exists memory is stolen from the bottom of RAM and never
  returned; afterwards contiguous runs of frames are handed out first fit. The abstract view of
  the core map is the partial map from the first frame of each allocated block to its length.
\<close>

type_synonym paddr = u32
type_synonym vaddr = u32

abbreviation PAGE_SIZE :: nat where
  "PAGE_SIZE \<equiv> 4096"

definition MIPS_KSEG0 :: u32 where
  "MIPS_KSEG0 = 0x80000000"

definition PAGE_FRAME :: u32 where "PAGE_FRAME = 0xfffff000"

definition PADDR_TO_KVADDR :: "paddr \<Rightarrow> vaddr" where
  "PADDR_TO_KVADDR p = p + MIPS_KSEG0"

section \<open>The memory not yet managed\<close>

record ram =
  firstpaddr :: paddr
  lastpaddr :: paddr

definition ram_bootstrap :: "u32 \<Rightarrow> vaddr \<Rightarrow> ram" where
  "ram_bootstrap mainbus_ramsize firstfree =
     (let ramsize = (if mainbus_ramsize > 508 * 1024 * 1024 then 508 * 1024 * 1024 else mainbus_ramsize)
      in \<lparr>firstpaddr = firstfree - MIPS_KSEG0, lastpaddr = ramsize\<rparr>)"

definition ram_stealmem :: "ram \<Rightarrow> u32 \<Rightarrow> paddr \<times> ram" where
  "ram_stealmem r npages =
     (let sz = npages * 4096 in
      if firstpaddr r + sz > lastpaddr r then (0, r)
      else (firstpaddr r, r\<lparr>firstpaddr := firstpaddr r + sz\<rparr>))"

definition ram_getsize :: "ram \<Rightarrow> paddr \<times> paddr \<times> ram" where
  "ram_getsize r = (firstpaddr r, lastpaddr r, \<lparr>firstpaddr = 0, lastpaddr = 0\<rparr>)"

section \<open>The core map\<close>

record coremap =
  baseAddr :: paddr
  inUse :: "int list"
  containNext :: "int list"
  cm_size :: int

record vm_state =
  vm_ram :: ram
  core_map :: coremap
  iscmapCreated :: bool
  addr_lo :: paddr
  addr_hi :: paddr

text \<open>The alignment loop of \<open>vm_bootstrap\<close>.\<close>

function align_page :: "paddr \<Rightarrow> paddr" where
  "align_page a = (if unat a mod PAGE_SIZE \<noteq> 0 then align_page (a + 1) else a)"
  by pat_completeness auto
termination
proof (relation "measure (\<lambda>a. (PAGE_SIZE - unat a mod PAGE_SIZE) mod PAGE_SIZE)", goal_cases)
  case (2 a)
  have "unat (a + 1) mod 4096 = (unat a + 1) mod 4096"
    by (simp add: unat_word_ariths mod_mod_cancel)
  moreover have "unat a mod 4096 < 4096" "unat a mod 4096 \<noteq> 0" using 2 by simp_all
  ultimately show ?case
    by (cases "unat a mod 4096 = 4095") (simp_all add: mod_Suc)
qed simp

declare align_page.simps [simp del]

text \<open>The core map and its two arrays (\<open>int\<close> cells, cleared) are placed at the bottom of the free
  memory; \<open>sizeof(struct coremap)\<close> is 16 and \<open>sizeof(int)\<close> is 4.\<close>

definition vm_bootstrap :: "vm_state \<Rightarrow> vm_state" where
  "vm_bootstrap s =
     (let (lo, hi, r) = ram_getsize (vm_ram s);
          frameCount = sint ((hi - lo) div 4096);
          lo = lo + 16;
          lo = lo + 4 * word_of_int frameCount;
          lo = lo + 4 * word_of_int frameCount;
          lo = align_page lo
      in s\<lparr>vm_ram := r,
            core_map := \<lparr>baseAddr = lo, inUse = replicate (nat frameCount) 0,
                         containNext = replicate (nat frameCount) 0,
                         cm_size = sint ((hi - lo) div 4096)\<rparr>,
            iscmapCreated := True, addr_lo := lo, addr_hi := hi\<rparr>)"

text \<open>The inner loop of \<open>getppages\<close>: the number of free frames from \<open>sofar\<close> on, at most
  \<open>pageRequired - count\<close> more.\<close>

function count_free :: "coremap \<Rightarrow> int \<Rightarrow> int \<Rightarrow> nat \<Rightarrow> int option" where
  "count_free cm pageRequired count sofar =
     (if count < pageRequired \<and> int sofar < cm_size cm then do {
        u \<leftarrow> idx (inUse cm) sofar;
        if u \<noteq> 0 then Some count else count_free cm pageRequired (count + 1) (sofar + 1)
      } else Some count)"
  by pat_completeness auto
termination by (relation "measure (\<lambda>(cm, p, c, s). nat (p - c))") auto

declare count_free.simps [simp del]

text \<open>The search loop: the first frame of a large enough free run. When the run starting at \<open>i\<close> is
  too short, the search resumes behind the frame that ended it.\<close>

function find_run :: "coremap \<Rightarrow> int \<Rightarrow> nat \<Rightarrow> nat option option" where
  "find_run cm pageRequired i =
     (if int i < cm_size cm then do {
        u \<leftarrow> idx (inUse cm) i;
        if u = 0 then do {
          count \<leftarrow> count_free cm pageRequired 0 i;
          if count < pageRequired then find_run cm pageRequired (i + nat count + 1)
          else Some (Some i)
        } else find_run cm pageRequired (i + 1)
      } else Some None)"
  by pat_completeness auto
termination by (relation "measure (\<lambda>(cm, p, i). nat (cm_size cm - int i))") auto

declare find_run.simps [simp del]

text \<open>Marking the frames of the new block.\<close>

fun mark_frames :: "coremap \<Rightarrow> int \<Rightarrow> nat \<Rightarrow> nat list \<Rightarrow> coremap option" where
  "mark_frames cm pageRequired i [] = Some cm"
| "mark_frames cm pageRequired i (j # js) = do {
     us \<leftarrow> upd (inUse cm) (i + j) 1;
     ns \<leftarrow> upd (containNext cm) (i + j) (if int j \<noteq> pageRequired - 1 then 1 else 0);
     mark_frames (cm\<lparr>inUse := us, containNext := ns\<rparr>) pageRequired i js
   }"

text \<open>The returned value is a physical address, or the number of ENOMEM.\<close>

definition getppages :: "vm_state \<Rightarrow> u32 \<Rightarrow> (paddr \<times> vm_state) option" where
  "getppages s npages = do {
     let pageRequired = sint npages;
     if \<not> iscmapCreated s then do {
       let (addr, r) = ram_stealmem (vm_ram s) npages;
       Some (addr, s\<lparr>vm_ram := r\<rparr>)
     } else do {
       let cm = core_map s;
       KASSERT (cm_size cm \<ge> pageRequired);
       found \<leftarrow> find_run cm pageRequired 0;
       case found of
         Some i \<Rightarrow> do {
           cm' \<leftarrow> mark_frames cm pageRequired i [0..<nat pageRequired];
           let addr = of_nat i * 4096 + baseAddr cm';
           KASSERT (addr \<le> addr_hi s \<and> addr \<ge> addr_lo s);
           Some (addr, s\<lparr>core_map := cm'\<rparr>)
         }
       | None \<Rightarrow> Some (of_nat (errno_code ENOMEM), s)
     }
   }"

definition alloc_kpages :: "vm_state \<Rightarrow> int \<Rightarrow> (vaddr \<times> vm_state) option" where
  "alloc_kpages s npages = do {
     (pa, s') \<leftarrow> getppages s (word_of_int npages);
     if pa = 0 then Some (0, s') else Some (PADDR_TO_KVADDR pa, s')
   }"

text \<open>The loop of \<open>free_kpages\<close>, over frame numbers that may be out of range: the address is not
  checked, and C's division rounds toward zero.\<close>

definition idx_int :: "'a list \<Rightarrow> int \<Rightarrow> 'a option" where
  "idx_int xs i = (if i < 0 then None else idx xs (nat i))"

function free_run :: "coremap \<Rightarrow> int \<Rightarrow> coremap option" where
  "free_run cm i =
     (if i < cm_size cm then do {
        c \<leftarrow> idx_int (containNext cm) i;
        us \<leftarrow> upd (inUse cm) (nat i) 0;
        if c = 1 then free_run (cm\<lparr>inUse := us\<rparr>) (i + 1)
        else Some (cm\<lparr>inUse := us\<rparr>)
      } else Some cm)"
  by pat_completeness auto
termination by (relation "measure (\<lambda>(cm, i). nat (cm_size cm - i))") auto

declare free_run.simps [simp del]

definition free_kpages :: "vm_state \<Rightarrow> vaddr \<Rightarrow> vm_state option" where
  "free_kpages s addr =
     (if \<not> iscmapCreated s then Some s
      else do {
        let targetAddr = sint (addr - (baseAddr (core_map s) + MIPS_KSEG0));
        let targetAddr = (if targetAddr \<ge> 0 then targetAddr div 4096 else - ((- targetAddr) div 4096));
        cm' \<leftarrow> free_run (core_map s) targetAddr;
        Some (s\<lparr>core_map := cm'\<rparr>)
      })"

section \<open>Page addresses\<close>

lemma PAGE_FRAME_mask: "PAGE_FRAME = NOT (mask 12)"
  by (simp add: PAGE_FRAME_def mask_eq_exp_minus_1)

lemma unat_PAGE_FRAME: "unat (x AND PAGE_FRAME) = unat x div 4096 * 4096"
proof -
  have e: "x AND NOT (mask 12) = push_bit 12 (drop_bit 12 x)"
    by (rule bit_word_eqI) (auto simp: bit_simps)
  have d: "unat (drop_bit 12 x) = unat x div 4096"
    by (simp add: drop_bit_eq_div unat_div)
  have "unat x div 4096 * 4096 \<le> unat x" by simp
  then have "unat x div 4096 * 4096 < 4294967296"
    using unsigned_less [of x, where ?'a = nat] by simp
  then show ?thesis unfolding PAGE_FRAME_mask e push_bit_eq_mult by (simp add: unat_word_ariths d)
qed

lemma PAGE_FRAME_aligned: "x AND PAGE_FRAME = x \<longleftrightarrow> unat x mod 4096 = 0"
proof -
  have "x AND PAGE_FRAME = x \<longleftrightarrow> unat x div 4096 * 4096 = unat x"
    by (metis unat_PAGE_FRAME unsigned_word_eqI)
  then show ?thesis by (metis minus_mod_eq_div_mult diff_zero div_mult_mod_eq add_cancel_right_right)
qed

section \<open>The search\<close>

definition fits :: "coremap \<Rightarrow> nat \<Rightarrow> nat \<Rightarrow> bool" where
  "fits cm n i \<longleftrightarrow> int (i + n) \<le> cm_size cm \<and> (\<forall>k < n. inUse cm ! (i + k) = 0)"

lemma count_free_spec:
  assumes "cm_size cm \<le> int (length (inUse cm))" "c \<le> r"
  shows "\<exists>n. count_free cm r c i = Some (c + int n) \<and> c + int n \<le> r \<and>
    (\<forall>k < n. int (i + k) < cm_size cm \<and> inUse cm ! (i + k) = 0) \<and>
    (c + int n < r \<longrightarrow> cm_size cm \<le> int (i + n) \<or> inUse cm ! (i + n) \<noteq> 0)"
  using assms
proof (induction cm r c i rule: count_free.induct)
  case (1 cm r c i)
  show ?case
  proof (cases "c < r \<and> int i < cm_size cm \<and> inUse cm ! i = 0")
    case True
    then have "i < length (inUse cm)" using 1(2) by simp
    then have "idx (inUse cm) i = Some 0" using True by (simp add: idx_def)
    then obtain n where n: "count_free cm r (c + 1) (i + 1) = Some (c + 1 + int n)" "c + 1 + int n \<le> r"
        "\<forall>k < n. int (i + 1 + k) < cm_size cm \<and> inUse cm ! (i + 1 + k) = 0"
        "c + 1 + int n < r \<longrightarrow> cm_size cm \<le> int (i + 1 + n) \<or> inUse cm ! (i + 1 + n) \<noteq> 0"
      using 1(1) [of 0] 1(2) True by auto
    have "\<forall>k < Suc n. int (i + k) < cm_size cm \<and> inUse cm ! (i + k) = 0"
      using n(3) True by (auto simp: less_Suc_eq_0_disj)
    moreover have "count_free cm r c i = Some (c + int (Suc n))"
      using True n(1) \<open>idx (inUse cm) i = Some 0\<close> by (subst count_free.simps) simp
    ultimately show ?thesis using n(2,4) by (intro exI [of _ "Suc n"]) auto
  next
    case False
    then have "count_free cm r c i = Some c"
      using 1(2) by (subst count_free.simps) (auto simp: idx_def)
    then show ?thesis using False 1(3) by (intro exI [of _ 0]) auto
  qed
qed

lemma find_run_spec:
  assumes "cm_size cm \<le> int (length (inUse cm))" "0 < n"
  shows "(find_run cm (int n) i = Some None \<and> (\<forall>j \<ge> i. \<not> fits cm n j)) \<or>
    (\<exists>j \<ge> i. find_run cm (int n) i = Some (Some j) \<and> fits cm n j \<and> (\<forall>m. i \<le> m \<longrightarrow> m < j \<longrightarrow> \<not> fits cm n m))"
  using assms
proof (induction "nat (cm_size cm - int i)" arbitrary: i rule: less_induct)
  case less
  note len = less(2)
  consider (ends) "cm_size cm \<le> int i" | (used) "int i < cm_size cm" "inUse cm ! i \<noteq> 0"
    | (free) "int i < cm_size cm" "inUse cm ! i = 0" by linarith
  then show ?case
  proof cases
    case ends
    then have "\<not> fits cm n j" if "i \<le> j" for j using that less(3) by (auto simp: fits_def)
    then show ?thesis using ends by (subst find_run.simps) simp
  next
    case used
    have nf: "\<not> fits cm n i" using used less(3) by (auto simp: fits_def)
    have eq: "find_run cm (int n) i = find_run cm (int n) (i + 1)"
      using used len by (subst find_run.simps) (simp add: idx_def)
    have "nat (cm_size cm - int (i + 1)) < nat (cm_size cm - int i)" using used by simp
    note IH = less(1) [OF this len less(3)]
    have lift: "\<not> fits cm n m" if "i \<le> m" "i + 1 \<le> m \<Longrightarrow> \<not> fits cm n m" for m
      using that nf by (cases "m = i") auto
    from IH show ?thesis
    proof (elim disjE conjE exE, goal_cases)
      case 1
        then have "\<forall>j \<ge> i. \<not> fits cm n j" by (intro allI impI) (rule lift, simp_all)
        then show ?thesis unfolding eq using 1(1) by simp
    next
      case (2 j)
        then have "\<forall>m. i \<le> m \<longrightarrow> m < j \<longrightarrow> \<not> fits cm n m" by (intro allI impI) (rule lift, simp_all)
        then show ?thesis unfolding eq using 2 by (intro disjI2 exI [of _ j]) simp
    qed
  next
    case free
    obtain c where c: "count_free cm (int n) 0 i = Some (int c)" "int c \<le> int n"
        "\<forall>k < c. int (i + k) < cm_size cm \<and> inUse cm ! (i + k) = 0"
        "int c < int n \<longrightarrow> cm_size cm \<le> int (i + c) \<or> inUse cm ! (i + c) \<noteq> 0"
      using count_free_spec [OF len, of 0 "int n" i] by auto
    have step: "find_run cm (int n) i = (if c < n then find_run cm (int n) (i + c + 1) else Some (Some i))"
      using free len c(1) by (subst find_run.simps) (simp add: idx_def)
    show ?thesis
    proof (cases "c < n")
      case True
      have nf: "\<not> fits cm n m" if "i \<le> m" "m < i + c + 1" for m
      proof
        assume f: "fits cm n m"
        have "i + c < m + n" using that True by simp
        moreover have "i + c - m < n" "m + (i + c - m) = i + c" using that True by auto
        then have "inUse cm ! (i + c) = 0" using f by (auto simp: fits_def)
        moreover have "int (m + n) \<le> cm_size cm" using f by (simp add: fits_def)
        ultimately show False using c(4) True by auto
      qed
      have "nat (cm_size cm - int (i + c + 1)) < nat (cm_size cm - int i)" using free by simp
      note IH = less(1) [OF this len less(3)]
      have eq: "find_run cm (int n) i = find_run cm (int n) (i + c + 1)" using step True by simp
      have lift: "\<not> fits cm n m" if "i \<le> m" "i + c + 1 \<le> m \<Longrightarrow> \<not> fits cm n m" for m
        using that nf [of m] by linarith
      from IH show ?thesis
      proof (elim disjE conjE exE, goal_cases)
        case 1
        then have "\<forall>j \<ge> i. \<not> fits cm n j" by (intro allI impI) (rule lift, simp_all)
        then show ?thesis unfolding eq using 1(1) by simp
      next
        case (2 j)
        then have "\<forall>m. i \<le> m \<longrightarrow> m < j \<longrightarrow> \<not> fits cm n m" by (intro allI impI) (rule lift, simp_all)
        then show ?thesis unfolding eq using 2 by (intro disjI2 exI [of _ j]) simp
      qed
    next
      case False
      then have "c = n" using c(2) by simp
      moreover have "int (i + (n - 1)) < cm_size cm" using c(3) [rule_format, of "n - 1"] \<open>c = n\<close> less(3) by simp
      ultimately have "fits cm n i" using c(3) less(3) by (auto simp: fits_def)
      then show ?thesis using False step by (intro disjI2 exI [of _ i]) simp
    qed
  qed
qed

lemma mark_frames_spec:
  assumes "i + n \<le> length (inUse cm)" "length (containNext cm) = length (inUse cm)" "a \<le> n"
  shows "\<exists>cm'. mark_frames cm r i [a..<n] = Some cm' \<and> baseAddr cm' = baseAddr cm \<and> cm_size cm' = cm_size cm \<and>
    length (inUse cm') = length (inUse cm) \<and> length (containNext cm') = length (inUse cm) \<and>
    (\<forall>k. inUse cm' ! k = (if i + a \<le> k \<and> k < i + n then 1 else inUse cm ! k)) \<and>
    (\<forall>k. containNext cm' ! k =
       (if i + a \<le> k \<and> k < i + n then (if int (k - i) \<noteq> r - 1 then 1 else 0) else containNext cm ! k))"
  using assms
proof (induction "n - a" arbitrary: a cm)
  case 0
  then show ?case by auto
next
  case (Suc m)
  let ?cm = "cm\<lparr>inUse := (inUse cm)[i + a := 1],
    containNext := (containNext cm)[i + a := (if int a \<noteq> r - 1 then 1 else 0)]\<rparr>"
  have a: "a < n" using Suc.hyps(2) by simp
  obtain cm' where cm': "mark_frames ?cm r i [Suc a..<n] = Some cm'" "baseAddr cm' = baseAddr cm"
     "cm_size cm' = cm_size cm" "length (inUse cm') = length (inUse cm)" "length (containNext cm') = length (inUse cm)"
     "\<forall>k. inUse cm' ! k = (if i + Suc a \<le> k \<and> k < i + n then 1 else inUse ?cm ! k)"
     "\<forall>k. containNext cm' ! k =
       (if i + Suc a \<le> k \<and> k < i + n then (if int (k - i) \<noteq> r - 1 then 1 else 0) else containNext ?cm ! k)"
  proof -
    have sel: "inUse ?cm = (inUse cm)[i + a := 1]"
      "containNext ?cm = (containNext cm)[i + a := (if int a \<noteq> r - 1 then 1 else 0)]"
      "baseAddr ?cm = baseAddr cm" "cm_size ?cm = cm_size cm" by simp_all
    have pre: "m = n - Suc a" "i + n \<le> length (inUse ?cm)" "length (containNext ?cm) = length (inUse ?cm)" "Suc a \<le> n"
      using Suc.hyps(2) Suc.prems a unfolding sel by simp_all
    show ?thesis using Suc.hyps(1) [OF pre] that unfolding sel by (auto simp only: length_list_update)
  qed
  have "mark_frames cm r i [a..<n] = Some cm'"
    using cm'(1) a Suc.prems by (simp add: upt_rec [of a] upd_def)
  moreover have "inUse cm' ! k = (if i + a \<le> k \<and> k < i + n then 1 else inUse cm ! k)" for k
    using cm'(6) a Suc.prems by (cases "k = i + a") (auto simp: not_less_eq_eq)
  moreover have "containNext cm' ! k =
       (if i + a \<le> k \<and> k < i + n then (if int (k - i) \<noteq> r - 1 then 1 else 0) else containNext cm ! k)" for k
    using cm'(7) a Suc.prems by (cases "k = i + a") (auto simp: not_less_eq_eq)
  ultimately show ?case using cm'(2-5) by blast
qed

section \<open>The abstract view\<close>

type_synonym blocks = "nat \<Rightarrow> nat option"

definition frames :: "blocks \<Rightarrow> nat set" where
  "frames B = {k. \<exists>i l. B i = Some l \<and> i \<le> k \<and> k < i + l}"

text \<open>The blocks lie inside the managed frames and do not overlap.\<close>

definition blocks_wf :: "nat \<Rightarrow> blocks \<Rightarrow> bool" where
  "blocks_wf sz B \<longleftrightarrow>
     (\<forall>i l. B i = Some l \<longrightarrow> 0 < l \<and> i + l \<le> sz) \<and>
     (\<forall>i j l m. B i = Some l \<longrightarrow> B j = Some m \<longrightarrow> i < j \<longrightarrow> i + l \<le> j)"

text \<open>The core map represents \<open>B\<close>: a frame is in use iff it belongs to a block, and \<open>containNext\<close>
  chains the frames of a block. Its value on free frames is stale. The managed region is page
  aligned, starts above the exception vectors and ends below 508 MB.\<close>

definition cm_rep :: "vm_state \<Rightarrow> blocks \<Rightarrow> bool" where
  "cm_rep s B \<longleftrightarrow>
     (let cm = core_map s; sz = nat (cm_size cm) in
      iscmapCreated s \<and> 0 \<le> cm_size cm \<and> sz \<le> length (inUse cm) \<and>
      length (containNext cm) = length (inUse cm) \<and>
      addr_lo s = baseAddr cm \<and> 0 < unat (baseAddr cm) \<and> unat (baseAddr cm) mod PAGE_SIZE = 0 \<and>
      unat (baseAddr cm) + sz * PAGE_SIZE \<le> unat (addr_hi s) \<and> unat (addr_hi s) \<le> 508 * 1024 * 1024 \<and>
      blocks_wf sz B \<and>
      (\<forall>k < sz. inUse cm ! k \<noteq> 0 \<longleftrightarrow> k \<in> frames B) \<and>
      (\<forall>i l k. B i = Some l \<longrightarrow> i \<le> k \<longrightarrow> k < i + l \<longrightarrow>
         containNext cm ! k = (if Suc k = i + l then 0 else 1)))"

definition frame_addr :: "vm_state \<Rightarrow> nat \<Rightarrow> paddr" where
  "frame_addr s i = of_nat i * 4096 + baseAddr (core_map s)"

abbreviation nframes :: "vm_state \<Rightarrow> nat" where
  "nframes s \<equiv> nat (cm_size (core_map s))"

definition free_run_at :: "vm_state \<Rightarrow> blocks \<Rightarrow> nat \<Rightarrow> nat \<Rightarrow> bool" where
  "free_run_at s B n i \<longleftrightarrow> i + n \<le> nframes s \<and> {i..<i + n} \<inter> frames B = {}"

lemma cm_repD:
  assumes "cm_rep s B"
  shows "iscmapCreated s" "0 \<le> cm_size (core_map s)" "nframes s \<le> length (inUse (core_map s))"
    "length (containNext (core_map s)) = length (inUse (core_map s))"
    "addr_lo s = baseAddr (core_map s)" "0 < unat (baseAddr (core_map s))"
    "unat (baseAddr (core_map s)) mod PAGE_SIZE = 0"
    "unat (baseAddr (core_map s)) + nframes s * PAGE_SIZE \<le> unat (addr_hi s)" "unat (addr_hi s) \<le> 532676608"
    "blocks_wf (nframes s) B"
    "\<And>k. k < nframes s \<Longrightarrow> inUse (core_map s) ! k \<noteq> 0 \<longleftrightarrow> k \<in> frames B"
    "\<And>i l k. B i = Some l \<Longrightarrow> i \<le> k \<Longrightarrow> k < i + l \<Longrightarrow>
       containNext (core_map s) ! k = (if Suc k = i + l then 0 else 1)"
  using assms unfolding cm_rep_def Let_def by simp_all

lemma interval_disjoint: "{i..<i + n} \<inter> F = {} \<longleftrightarrow> (\<forall>k < n. i + k \<notin> F)" for i n :: nat
proof
  assume *: "\<forall>k < n. i + k \<notin> F"
  show "{i..<i + n} \<inter> F = {}"
  proof (rule equals0I)
    fix x assume "x \<in> {i..<i + n} \<inter> F"
    then have "x - i < n" "i + (x - i) = x" "x \<in> F" by auto
    then show False using * by metis
  qed
qed (auto simp: disjoint_iff)

lemma fits_iff:
  assumes "cm_rep s B"
  shows "fits (core_map s) n i \<longleftrightarrow> free_run_at s B n i"
proof -
  note D = cm_repD [OF assms]
  have "inUse (core_map s) ! (i + k) = 0 \<longleftrightarrow> i + k \<notin> frames B" if "i + n \<le> nframes s" "k < n" for k
    using D(11) [of "i + k"] that by auto
  moreover have "int (i + n) \<le> cm_size (core_map s) \<longleftrightarrow> i + n \<le> nframes s" using D(2) by (simp add: le_nat_iff)
  ultimately show ?thesis unfolding fits_def free_run_at_def interval_disjoint by blast
qed

lemma frame_addr_unat:
  assumes "cm_rep s B" "i \<le> nframes s"
  shows "unat (frame_addr s i) = unat (baseAddr (core_map s)) + i * PAGE_SIZE"
proof -
  note D = cm_repD [OF assms(1)]
  have b: "unat (baseAddr (core_map s)) + i * 4096 \<le> 532676608"
    using D(8,9) assms(2) mult_le_mono1 [OF assms(2), of 4096] by linarith
  have "(of_nat i * 4096 :: u32) = of_nat (i * 4096)" by simp
  then have "unat (of_nat i * 4096 :: u32) = i * 4096"
    using b by (simp only: unsigned_of_nat) (simp add: take_bit_nat_eq_self)
  then show ?thesis using b unfolding frame_addr_def by (subst unat_add_lem [THEN iffD1]) simp_all
qed

lemma frames_upd: "B i = None \<Longrightarrow> frames (B(i \<mapsto> l)) = frames B \<union> {i..<i + l}"
  by (auto simp: frames_def split: if_splits)

lemma blocks_wf_upd:
  assumes "blocks_wf sz B" "0 < n" "i + n \<le> sz" "{i..<i + n} \<inter> frames B = {}"
  shows "blocks_wf sz (B(i \<mapsto> n))" "B i = None"
proof -
  have out: "j + m \<le> i \<or> i + n \<le> j" if "B j = Some m" for j m
  proof (rule ccontr)
    assume "\<not> ?thesis"
    then have "max i j \<in> {i..<i + n}" "j \<le> max i j" "max i j < j + m"
      using assms(1,2) that by (auto simp: blocks_wf_def)
    moreover have "max i j \<in> frames B"
      unfolding frames_def by (rule CollectI, rule exI [of _ j], rule exI [of _ m]) (use calculation that in blast)
    ultimately show False using assms(4) by blast
  qed
  show "B i = None" using out [of i] assms(1,2) by (cases "B i") (auto simp: blocks_wf_def)
  then show "blocks_wf sz (B(i \<mapsto> n))"
    using assms(1-3) unfolding blocks_wf_def by (auto split: if_splits dest: out)
qed

lemma nframes_small: "cm_rep s B \<Longrightarrow> nframes s < 131072"
  using cm_repD(8,9) [of s B] by linarith

lemma sint_of_nat_u32: "n < 2147483648 \<Longrightarrow> sint (of_nat n :: u32) = int n"
  by (simp add: signed_of_nat signed_take_bit_int_eq_self)

lemma getppages_found:
  assumes rep: "cm_rep s B" and n: "0 < n" and run: "free_run_at s B n i"
    and first: "\<And>m. m < i \<Longrightarrow> \<not> free_run_at s B n m"
  shows "\<exists>s'. getppages s (of_nat n) = Some (frame_addr s i, s') \<and> cm_rep s' (B(i \<mapsto> n)) \<and>
             nframes s' = nframes s \<and> frame_addr s' = frame_addr s"
proof -
  note D = cm_repD [OF rep]
  let ?cm = "core_map s"
  have i: "i + n \<le> nframes s" "{i..<i + n} \<inter> frames B = {}" using run by (auto simp: free_run_at_def)
  have r: "sint (of_nat n :: u32) = int n" using i nframes_small [OF rep] by (intro sint_of_nat_u32) simp
  have len: "cm_size ?cm \<le> int (length (inUse ?cm))" using D(2,3) by simp
  have "find_run ?cm (int n) 0 = Some (Some i)"
    using find_run_spec [OF len n, of 0] run first unfolding fits_iff [OF rep]
    by (metis le0 linorder_neqE_nat)
  moreover obtain cm' where cm': "mark_frames ?cm (int n) i [0..<n] = Some cm'" "baseAddr cm' = baseAddr ?cm"
      "cm_size cm' = cm_size ?cm" "length (inUse cm') = length (inUse ?cm)" "length (containNext cm') = length (inUse ?cm)"
      "\<forall>k. inUse cm' ! k = (if i + 0 \<le> k \<and> k < i + n then 1 else inUse ?cm ! k)"
      "\<forall>k. containNext cm' ! k =
         (if i + 0 \<le> k \<and> k < i + n then (if int (k - i) \<noteq> int n - 1 then 1 else 0) else containNext ?cm ! k)"
    using mark_frames_spec [of i n ?cm 0 "int n"] i D(3,4) by auto
  moreover have "unat (frame_addr s i) = unat (baseAddr ?cm) + i * 4096"
    using frame_addr_unat [OF rep] i by simp
  then have "frame_addr s i \<le> addr_hi s" "addr_lo s \<le> frame_addr s i"
    using D(5,8) i by (simp_all add: word_le_nat_alt)
  moreover have "cm_size ?cm \<ge> int n" using i D(2) by simp
  ultimately have "getppages s (of_nat n) = Some (frame_addr s i, s\<lparr>core_map := cm'\<rparr>)"
    using D(1) by (simp add: getppages_def r frame_addr_def)
  moreover have "cm_rep (s\<lparr>core_map := cm'\<rparr>) (B(i \<mapsto> n))"
  proof -
    note B' = blocks_wf_upd [OF D(10) n i]
    have "inUse cm' ! k \<noteq> 0 \<longleftrightarrow> k \<in> frames (B(i \<mapsto> n))" if "k < nframes s" for k
      using D(11) [OF that] cm'(6) unfolding frames_upd [of B i n, OF B'(2)] by auto
    moreover have "containNext cm' ! k = (if Suc k = j + l then 0 else 1)"
      if b: "(B(i \<mapsto> n)) j = Some l" "j \<le> k" "k < j + l" for j l k
    proof (cases "j = i")
      case True
      then show ?thesis using b cm'(7) by auto
    next
      case False
      then have bj: "B j = Some l" using b by simp
      then have "k \<in> frames B" using b by (auto simp: frames_def)
      then have "\<not> (i \<le> k \<and> k < i + n)" using i(2) by auto
      then have "containNext cm' ! k = containNext ?cm ! k" using cm'(7) by auto
      then show ?thesis using D(12) [OF bj b(2,3)] by simp
    qed
    ultimately show ?thesis
      using D(1-9) B'(1) cm'(2-5) unfolding cm_rep_def Let_def by simp
  qed
  ultimately show ?thesis using cm'(2,3) by (intro exI) (auto simp: frame_addr_def)
qed

lemma getppages_full:
  assumes rep: "cm_rep s B" and n: "0 < n" "n \<le> nframes s" and none: "\<And>i. \<not> free_run_at s B n i"
  shows "getppages s (of_nat n) = Some (3, s)"
proof -
  note D = cm_repD [OF rep]
  let ?cm = "core_map s"
  have r: "sint (of_nat n :: u32) = int n" using n nframes_small [OF rep] by (intro sint_of_nat_u32) simp
  have len: "cm_size ?cm \<le> int (length (inUse ?cm))" using D(2,3) by simp
  have "find_run ?cm (int n) 0 = Some None"
    using find_run_spec [OF len n(1), of 0] none unfolding fits_iff [OF rep] by blast
  moreover have "cm_size ?cm \<ge> int n" using n D(2) by simp
  ultimately show ?thesis
    using D(1) by (simp add: getppages_def r errno_code_def errno_list_def)
qed

lemma free_run_spec:
  assumes "j < k" "int k \<le> cm_size cm" "k \<le> length (inUse cm)" "length (containNext cm) = length (inUse cm)"
    and "\<And>x. j \<le> x \<Longrightarrow> x < k \<Longrightarrow> containNext cm ! x = (if Suc x = k then 0 else 1)"
  shows "\<exists>us. free_run cm (int j) = Some (cm\<lparr>inUse := us\<rparr>) \<and> length us = length (inUse cm) \<and>
     (\<forall>x. us ! x = (if j \<le> x \<and> x < k then 0 else inUse cm ! x))"
  using assms
proof (induction "k - j" arbitrary: j cm)
  case (Suc m)
  let ?cm = "cm\<lparr>inUse := (inUse cm)[j := 0]\<rparr>"
  have sel: "inUse ?cm = (inUse cm)[j := 0]" "containNext ?cm = containNext cm" "cm_size ?cm = cm_size cm" by simp_all
  have j: "j < length (inUse cm)" "int j < cm_size cm" using Suc.prems by simp_all
  have step: "free_run cm (int j) = (if containNext cm ! j = 1 then free_run ?cm (int (Suc j)) else Some ?cm)"
    using j Suc.prems(4) by (subst free_run.simps) (simp add: idx_int_def idx_def upd_def add.commute)
  show ?case
  proof (cases "Suc j = k")
    case True
    then have "containNext cm ! j = 0" using Suc.prems(1,5) by simp
    then show ?thesis using step True j by (auto simp: nth_list_update)
  next
    case False
    then have "Suc j < k" "containNext cm ! j = 1" using Suc.prems(1,5) by simp_all
    then obtain us where us: "free_run ?cm (int (Suc j)) = Some (?cm\<lparr>inUse := us\<rparr>)" "length us = length (inUse cm)"
        "\<forall>x. us ! x = (if Suc j \<le> x \<and> x < k then 0 else (inUse cm)[j := 0] ! x)"
    proof -
      have "m = k - Suc j" using Suc.hyps(2) by simp
      from Suc.hyps(1) [OF this, of ?cm] that show ?thesis
        using \<open>Suc j < k\<close> Suc.prems unfolding sel by auto
    qed
    moreover have "(if Suc j \<le> x \<and> x < k then 0 else (inUse cm)[j := 0] ! x) =
        (if j \<le> x \<and> x < k then 0 else inUse cm ! x)" for x
      using j Suc.prems(1) by (cases "x = j") auto
    ultimately show ?thesis using step \<open>containNext cm ! j = 1\<close> by auto
  qed
qed simp

lemma kvaddr_offset:
  assumes "cm_rep s B" "i < nframes s"
  shows "sint (PADDR_TO_KVADDR (frame_addr s i) - (baseAddr (core_map s) + MIPS_KSEG0)) = int i * 4096"
proof -
  have "PADDR_TO_KVADDR (frame_addr s i) - (baseAddr (core_map s) + MIPS_KSEG0) = of_nat (i * 4096)"
    by (simp add: PADDR_TO_KVADDR_def frame_addr_def)
  moreover have "i * 4096 < 2147483648" using assms(2) nframes_small [OF assms(1)] by simp
  ultimately show ?thesis using sint_of_nat_u32 [of "i * 4096"] by (simp only: of_nat_mult of_nat_numeral)
qed

lemma frames_remove:
  assumes "blocks_wf sz B" "B i = Some l"
  shows "frames (B(i := None)) = frames B - {i..<i + l}"
proof -
  have "\<not> (i \<le> k \<and> k < i + l)" if "B j = Some m" "j \<le> k" "k < j + m" "j \<noteq> i" for j m k
    using assms that unfolding blocks_wf_def by (metis le_less_trans linorder_neqE_nat not_le order_less_le_trans)
  then have "\<not> (i \<le> x \<and> x < i + l)" if "x \<in> frames (B(i := None))" for x
    using that by (auto simp: frames_def split: if_splits)
  moreover have "x \<in> frames (B(i := None))" if "x \<in> frames B" "\<not> (i \<le> x \<and> x < i + l)" for x
  proof -
    obtain j m where "B j = Some m" "j \<le> x" "x < j + m" using \<open>x \<in> frames B\<close> by (auto simp: frames_def)
    moreover have "j \<noteq> i" using calculation that(2) assms(2) by auto
    ultimately show ?thesis unfolding frames_def by (intro CollectI exI [of _ j] exI [of _ m]) simp
  qed
  moreover have "x \<in> frames B" if "x \<in> frames (B(i := None))" for x
    using that by (auto simp: frames_def split: if_splits)
  ultimately show ?thesis unfolding set_eq_iff Diff_iff atLeastLessThan_iff by blast
qed

lemma free_kpages_rep:
  assumes rep: "cm_rep s B" and B: "B i = Some l"
  shows "\<exists>s'. free_kpages s (PADDR_TO_KVADDR (frame_addr s i)) = Some s' \<and> cm_rep s' (B(i := None)) \<and>
             nframes s' = nframes s \<and> frame_addr s' = frame_addr s"
proof -
  note D = cm_repD [OF rep]
  let ?cm = "core_map s"
  have il: "0 < l" "i + l \<le> nframes s" using D(10) B by (auto simp: blocks_wf_def)
  then have "int (i + l) \<le> cm_size ?cm" using D(2) by simp
  then obtain us where us: "free_run ?cm (int i) = Some (?cm\<lparr>inUse := us\<rparr>)" "length us = length (inUse ?cm)"
      "\<forall>x. us ! x = (if i \<le> x \<and> x < i + l then 0 else inUse ?cm ! x)"
    using free_run_spec [of i "i + l" ?cm] il D(3,4) D(12) [OF B] by auto
  have "i < nframes s" using il by simp
  then have "free_kpages s (PADDR_TO_KVADDR (frame_addr s i)) = Some (s\<lparr>core_map := ?cm\<lparr>inUse := us\<rparr>\<rparr>)"
    using us(1) D(1) by (simp add: free_kpages_def kvaddr_offset [OF rep])
  moreover have "cm_rep (s\<lparr>core_map := ?cm\<lparr>inUse := us\<rparr>\<rparr>) (B(i := None))"
  proof -
    have "us ! k \<noteq> 0 \<longleftrightarrow> k \<in> frames (B(i := None))" if "k < nframes s" for k
      using D(11) [OF that] us(3) unfolding frames_remove [OF D(10) B] by auto
    moreover have "blocks_wf (nframes s) (B(i := None))"
      using D(10) unfolding blocks_wf_def by (auto split: if_splits)
    ultimately show ?thesis
      using D(1-9) D(12) us(2) unfolding cm_rep_def Let_def by (simp split: if_splits)
  qed
  ultimately show ?thesis by (auto simp: frame_addr_def)
qed

section \<open>Bootstrapping\<close>

lemma align_page_spec:
  assumes "unat a + 4095 < 4294967296"
  shows "unat (align_page a) mod 4096 = 0 \<and> unat a \<le> unat (align_page a) \<and> unat (align_page a) < unat a + 4096"
proof -
  have "unat (align_page a) mod 4096 = 0 \<and> unat a \<le> unat (align_page a) \<and> unat (align_page a) \<le> m"
    if "unat a \<le> m" "m mod 4096 = 0" "m < 4294967296" for m a
    using that
  proof (induction a rule: align_page.induct)
    case (1 a)
    show ?case
    proof (cases "unat a mod 4096 = 0")
      case True
      then show ?thesis using 1 by (subst (1 2 3) align_page.simps) simp
    next
      case False
      then have lt: "unat a < m" using 1(2,3) by (metis le_neq_implies_less)
      then have suc: "unat (a + 1) = unat a + 1" using 1(4) by (simp add: unat_word_ariths)
      then have "unat (align_page (a + 1)) mod 4096 = 0 \<and> unat (a + 1) \<le> unat (align_page (a + 1)) \<and>
          unat (align_page (a + 1)) \<le> m" using 1(1) [OF False] lt 1(3,4) by simp
      moreover have "align_page a = align_page (a + 1)" using False by (subst align_page.simps) simp
      ultimately show ?thesis using suc by simp
    qed
  qed
  note * = this [of a "(unat a + 4095) div 4096 * 4096"]
  have "(unat a + 4095) mod 4096 < 4096" by simp
  moreover have "(unat a + 4095) div 4096 * 4096 = unat a + 4095 - (unat a + 4095) mod 4096"
    by (simp only: minus_mod_eq_div_mult)
  ultimately have m: "unat a \<le> (unat a + 4095) div 4096 * 4096" "(unat a + 4095) div 4096 * 4096 \<le> unat a + 4095"
    by linarith+
  then have "unat (align_page a) mod 4096 = 0 \<and> unat a \<le> unat (align_page a) \<and>
      unat (align_page a) \<le> (unat a + 4095) div 4096 * 4096" using * assms by simp
  with m(2) show ?thesis by linarith
qed

lemma vm_bootstrap_spec:
  assumes lo: "0 < unat (firstpaddr (vm_ram s))" and hi: "unat (lastpaddr (vm_ram s)) \<le> 532676608"
    and room: "unat (firstpaddr (vm_ram s)) + 16 + 8 * ((unat (lastpaddr (vm_ram s)) - unat (firstpaddr (vm_ram s))) div 4096)
       + 4095 \<le> unat (lastpaddr (vm_ram s))"
  shows "cm_rep (vm_bootstrap s) Map.empty \<and>
    unat (firstpaddr (vm_ram s)) + 16 + 8 * length (inUse (core_map (vm_bootstrap s))) \<le> unat (baseAddr (core_map (vm_bootstrap s))) \<and>
    nframes (vm_bootstrap s) = (unat (addr_hi (vm_bootstrap s)) - unat (baseAddr (core_map (vm_bootstrap s)))) div 4096 \<and>
    addr_hi (vm_bootstrap s) = lastpaddr (vm_ram s)"
proof -
  let ?lo = "firstpaddr (vm_ram s)" and ?hi = "lastpaddr (vm_ram s)"
  define fc where "fc = (unat ?hi - unat ?lo) div 4096"
  have le: "unat ?lo \<le> unat ?hi" using room by simp
  have quot: "sint ((?hi - l) div 4096) = int ((unat ?hi - unat l) div 4096)" if "unat l \<le> unat ?hi" for l
  proof -
    have "unat ((?hi - l) div 4096) = (unat ?hi - unat l) div 4096"
      using that by (simp add: unat_div unat_sub_if_size word_size)
    moreover have "(unat ?hi - unat l) div 4096 < 2147483648" using hi by linarith
    ultimately show ?thesis
      using sint_of_nat_u32 [of "(unat ?hi - unat l) div 4096"] by (metis of_nat_unat ucast_id)
  qed
  have fc: "sint ((?hi - ?lo) div 4096) = int fc" using quot [OF le] by (simp add: fc_def)
  define a where "a = ?lo + 16 + 4 * of_nat fc + 4 * of_nat fc"
  have "a = of_nat (unat ?lo + 16 + 8 * fc)" by (simp add: a_def)
  moreover have small: "unat ?lo + 16 + 8 * fc + 4095 \<le> 532676608" using room hi by (simp add: fc_def)
  ultimately have ua: "unat a = unat ?lo + 16 + 8 * fc"
    by (simp only: unsigned_of_nat) (simp add: take_bit_nat_eq_self)
  define b where "b = align_page a"
  have b: "unat b mod 4096 = 0" "unat a \<le> unat b" "unat b < unat a + 4096"
    using align_page_spec [of a] ua small by (auto simp: b_def)
  have bh: "unat b \<le> unat ?hi" using b ua room by (simp add: fc_def)
  define k where "k = (unat ?hi - unat b) div 4096"
  have k: "k \<le> fc" "unat b + k * 4096 \<le> unat ?hi"
    using b(2) ua bh by (auto simp: k_def fc_def intro!: div_le_mono)
  have eq: "vm_bootstrap s = s\<lparr>vm_ram := \<lparr>firstpaddr = 0, lastpaddr = 0\<rparr>,
      core_map := \<lparr>baseAddr = b, inUse = replicate fc 0, containNext = replicate fc 0, cm_size = int k\<rparr>,
      iscmapCreated := True, addr_lo := b, addr_hi := ?hi\<rparr>"
  proof -
    have w: "(word_of_int (int fc) :: u32) = of_nat fc" "nat (int fc) = fc" by simp_all
    show ?thesis
      unfolding vm_bootstrap_def ram_getsize_def Let_def prod.case fc w a_def [symmetric] b_def [symmetric]
        quot [OF bh] k_def [symmetric] ..
  qed
  show ?thesis
    unfolding eq cm_rep_def Let_def
    using b k lo ua hi by (simp add: blocks_wf_def frames_def k_def)
qed

section \<open>Single frames\<close>

text \<open>A request for one frame, seen as an index allocator. The physical address 3 is the failure
  value, which no frame has.\<close>

definition frames_used :: "vm_state \<Rightarrow> nat set" where
  "frames_used s = {k. k < nframes s \<and> inUse (core_map s) ! k \<noteq> 0}"

definition get_frame :: "vm_state \<Rightarrow> ((errno + nat) \<times> vm_state) option" where
  "get_frame s = do {
     (pa, s') \<leftarrow> getppages s 1;
     Some (if pa = 3 then Inl ENOMEM else Inr (unat (pa - baseAddr (core_map s)) div PAGE_SIZE), s')
   }"

definition cm_ok :: "vm_state \<Rightarrow> bool" where
  "cm_ok s \<longleftrightarrow> 0 < nframes s \<and> (\<exists>B. cm_rep s B)"

lemma frames_used_eq:
  assumes "cm_rep s B"
  shows "frames_used s = frames B"
proof -
  have "frames B \<subseteq> {..<nframes s}"
    using cm_repD(10) [OF assms] by (fastforce simp: frames_def blocks_wf_def)
  then show ?thesis using cm_repD(11) [OF assms] by (auto simp: frames_used_def)
qed

lemma frame_addr_not_3: "cm_rep s B \<Longrightarrow> i \<le> nframes s \<Longrightarrow> frame_addr s i \<noteq> 3"
proof
  assume a: "cm_rep s B" "i \<le> nframes s" "frame_addr s i = 3"
  then have "unat (baseAddr (core_map s)) + i * 4096 = 3" using frame_addr_unat [OF a(1,2)] by simp
  moreover have "4096 \<le> unat (baseAddr (core_map s))"
    using cm_repD(6,7) [OF a(1)] by (metis mod_less not_le less_irrefl)
  ultimately show False by simp
qed

lemma frame_addr_index:
  assumes "cm_rep s B" "i < nframes s"
  shows "unat (frame_addr s i - baseAddr (core_map s)) div PAGE_SIZE = i"
proof -
  have "frame_addr s i - baseAddr (core_map s) = of_nat (i * 4096)" by (simp add: frame_addr_def)
  moreover have "i * 4096 < 4294967296" using assms(2) nframes_small [OF assms(1)] by simp
  ultimately have "unat (frame_addr s i - baseAddr (core_map s)) = i * 4096"
    by (simp only: unsigned_of_nat) (simp add: take_bit_nat_eq_self)
  then show ?thesis by simp
qed

interpretation fr: index_alloc cm_ok frames_used nframes get_frame ENOMEM
proof (unfold_locales, goal_cases)
  case (1 s)
  then show ?case by (auto simp: frames_used_def)
next
  case (2 s)
  then obtain B where B: "cm_rep s B" by (auto simp: cm_ok_def)
  note U = frames_used_eq [OF B]
  let ?i = "LEAST i. i \<notin> frames_used s"
  obtain j where j: "j < nframes s" "j \<notin> frames_used s" using 2(2) by (auto simp: frames_used_def)
  have i: "?i \<notin> frames_used s" "?i < nframes s"
    using j LeastI [of "\<lambda>i. i \<notin> frames_used s" j] Least_le [of "\<lambda>i. i \<notin> frames_used s" j] by simp_all
  have run: "free_run_at s B 1 ?i" using i U by (simp add: free_run_at_def)
  have first: "\<not> free_run_at s B 1 m" if "m < ?i" for m
    using not_less_Least [OF that] U by (simp add: free_run_at_def)
  obtain s' where s': "getppages s (of_nat 1) = Some (frame_addr s ?i, s')" "cm_rep s' (B(?i \<mapsto> 1))"
      "nframes s' = nframes s"
    using getppages_found [OF B zero_less_one run first] by blast
  have "B ?i = None" using blocks_wf_upd(2) [OF cm_repD(10) [OF B], of 1 ?i] run by (simp add: free_run_at_def)
  then have "frames_used s' = insert ?i (frames_used s)"
    using frames_used_eq [OF s'(2)] frames_upd [of B ?i 1] U by auto
  moreover have "get_frame s = Some (Inr ?i, s')"
    using s'(1) frame_addr_not_3 [OF B, of ?i] frame_addr_index [OF B, of ?i] i(2) by (simp add: get_frame_def)
  moreover have "cm_ok s'" unfolding cm_ok_def using s'(2,3) i(2) by (metis gr_implies_not0 neq0_conv)
  ultimately show ?case using s'(3) by blast
next
  case (3 s)
  then obtain B where B: "cm_rep s B" by (auto simp: cm_ok_def)
  have none: "\<not> free_run_at s B 1 i" for i using 3(2) frames_used_eq [OF B] by (auto simp: free_run_at_def)
  have "0 < nframes s" using 3(1) by (simp add: cm_ok_def)
  then show ?case using getppages_full [OF B, of 1] none by (simp add: get_frame_def)
qed

section \<open>Properties\<close>

text \<open>C14: With the core map in place, a request for \<open>n\<close> frames is served first fit. If some run of
  \<open>n\<close> free frames exists, \<open>getppages\<close> returns the address of the lowest such run, page aligned and
  inside the managed memory, and records exactly that block; the blocks stay pairwise disjoint. The
  search skips ahead over runs that are too short and still misses none.\<close>

theorem getppages_first_fit:
  assumes "cm_rep s B" "0 < n" "free_run_at s B n j"
  shows "\<exists>i s'. i \<le> j \<and> free_run_at s B n i \<and> (\<forall>m < i. \<not> free_run_at s B n m) \<and>
    getppages s (of_nat n) = Some (frame_addr s i, s') \<and> cm_rep s' (B(i \<mapsto> n)) \<and>
    unat (frame_addr s i) mod PAGE_SIZE = 0 \<and>
    unat (frame_addr s i) + n * PAGE_SIZE \<le> unat (addr_hi s)"
proof -
  define i where "i = (LEAST i. free_run_at s B n i)"
  have i: "free_run_at s B n i" "i \<le> j" unfolding i_def by (rule LeastI, rule assms(3)) (rule Least_le, rule assms(3))
  have first: "\<not> free_run_at s B n m" if "m < i" for m using that unfolding i_def by (rule not_less_Least)
  have b: "i + n \<le> nframes s" using i(1) by (simp add: free_run_at_def)
  then have a: "unat (frame_addr s i) = unat (baseAddr (core_map s)) + i * 4096"
    using frame_addr_unat [OF assms(1), of i] by simp
  have "(i + n) * 4096 \<le> nframes s * 4096" using b by (rule mult_le_mono1)
  then have hi: "unat (frame_addr s i) + n * 4096 \<le> unat (addr_hi s)"
    using cm_repD(8) [OF assms(1)] unfolding a add_mult_distrib by linarith
  have al: "unat (frame_addr s i) mod 4096 = 0" using cm_repD(7) [OF assms(1)] unfolding a by simp
  obtain s' where s': "getppages s (of_nat n) = Some (frame_addr s i, s')" "cm_rep s' (B(i \<mapsto> n))"
    using getppages_found [OF assms(1,2) i(1) first] by blast
  from first have "\<forall>m < i. \<not> free_run_at s B n m" by blast
  then show ?thesis by (intro exI [of _ i] exI [of _ s'] conjI i s' hi al)
qed

definition demo_vm :: vm_state where
  "demo_vm = \<lparr>vm_ram = \<lparr>firstpaddr = 0x2FC0, lastpaddr = 0x9000\<rparr>,
     core_map = \<lparr>baseAddr = 0, inUse = [], containNext = [], cm_size = 0\<rparr>,
     iscmapCreated = False, addr_lo = 0, addr_hi = 0\<rparr>"

lemma demo_vm_rep:
  "cm_rep (vm_bootstrap demo_vm) Map.empty" "nframes (vm_bootstrap demo_vm) = 6"
proof -
  show "cm_rep (vm_bootstrap demo_vm) Map.empty"
    using vm_bootstrap_spec [of demo_vm] by (simp add: demo_vm_def)
  show "nframes (vm_bootstrap demo_vm) = 6"
    by (simp add: demo_vm_def vm_bootstrap_def ram_getsize_def align_page.simps)
qed

theorem getppages_first_fit_witness:
  "\<exists>s'. getppages (vm_bootstrap demo_vm) 2 = Some (frame_addr (vm_bootstrap demo_vm) 0, s') \<and> cm_rep s' [0 \<mapsto> 2]"
proof -
  have "free_run_at (vm_bootstrap demo_vm) Map.empty 2 0"
    by (simp add: free_run_at_def demo_vm_rep(2) frames_def)
  from getppages_first_fit [OF demo_vm_rep(1) _ this] show ?thesis by auto
qed

text \<open>C25: Freeing what was allocated: \<open>free_kpages\<close>, given the kernel address of the first frame of a
  block, frees exactly the frames of that block, found by following \<open>containNext\<close>, and no
  other.\<close>

theorem free_kpages_frees_block:
  assumes "cm_rep s B" "B i = Some l"
  shows "\<exists>s'. free_kpages s (PADDR_TO_KVADDR (frame_addr s i)) = Some s' \<and> cm_rep s' (B(i := None)) \<and>
    frames_used s' = frames_used s - {i..<i + l}"
  using free_kpages_rep [OF assms] frames_used_eq [OF assms(1)] frames_used_eq
    frames_remove [OF cm_repD(10) [OF assms(1)] assms(2)] by metis

theorem free_kpages_frees_block_witness:
  "\<exists>s1 s2. getppages (vm_bootstrap demo_vm) 2 = Some (frame_addr (vm_bootstrap demo_vm) 0, s1) \<and>
     free_kpages s1 (PADDR_TO_KVADDR (frame_addr s1 0)) = Some s2 \<and> cm_rep s2 Map.empty"
proof -
  have run: "free_run_at (vm_bootstrap demo_vm) Map.empty 2 0"
    by (simp add: free_run_at_def demo_vm_rep(2) frames_def)
  obtain s1 where s1: "getppages (vm_bootstrap demo_vm) 2 = Some (frame_addr (vm_bootstrap demo_vm) 0, s1)"
      "cm_rep s1 [0 \<mapsto> 2]"
    using getppages_found [OF demo_vm_rep(1) _ run] by auto
  from free_kpages_frees_block [OF s1(2), of 0 2] s1(1) show ?thesis by auto
qed

text \<open>Running out of memory is not reported. When no run of \<open>n\<close> free frames is left, \<open>getppages\<close>
  returns the error number of ENOMEM as if it were a physical address, so \<open>alloc_kpages\<close>, whose
  callers test for 0, hands out the address \<open>0x80000003\<close> inside the exception vectors; and a
  request for more frames than the machine has fails an assertion instead of failing the call.\<close>

theorem alloc_kpages_out_of_memory:
  assumes "cm_rep s B" "0 < n" "\<not> (\<exists>i. free_run_at s B n i)"
  shows "if n \<le> nframes s then alloc_kpages s (int n) = Some (0x80000003, s)
         else n < 2 ^ 31 \<longrightarrow> alloc_kpages s (int n) = None"
proof (cases "n \<le> nframes s")
  case True
  then have "getppages s (of_nat n) = Some (3, s)" using getppages_full [OF assms(1,2)] assms(3) by blast
  then show ?thesis using True by (simp add: alloc_kpages_def PADDR_TO_KVADDR_def MIPS_KSEG0_def)
next
  case False
  then have "\<not> int n \<le> cm_size (core_map s)" using cm_repD(2) [OF assms(1)] by simp
  then have "getppages s (of_nat n) = None" if "n < 2147483648"
    using cm_repD(1) [OF assms(1)] sint_of_nat_u32 [OF that] by (simp add: getppages_def KASSERT_def Let_def)
  then show ?thesis using False by (simp add: alloc_kpages_def)
qed

theorem alloc_kpages_out_of_memory_witness:
  "\<exists>s1. getppages (vm_bootstrap demo_vm) 6 = Some (frame_addr (vm_bootstrap demo_vm) 0, s1) \<and>
     alloc_kpages s1 1 = Some (0x80000003, s1) \<and> alloc_kpages s1 7 = None"
proof -
  have run: "free_run_at (vm_bootstrap demo_vm) Map.empty 6 0"
    by (simp add: free_run_at_def demo_vm_rep(2) frames_def)
  obtain s1 where s1: "getppages (vm_bootstrap demo_vm) 6 = Some (frame_addr (vm_bootstrap demo_vm) 0, s1)"
      "cm_rep s1 [0 \<mapsto> 6]" "nframes s1 = 6"
    using getppages_found [OF demo_vm_rep(1) _ run] demo_vm_rep(2) by auto
  have "frames [0 \<mapsto> 6] = {..<6}" by (auto simp: frames_def split: if_splits)
  then have none: "\<not> (\<exists>i. free_run_at s1 [0 \<mapsto> 6] n i)" if "0 < n" for n
    using that s1(3) by (auto simp: free_run_at_def disjoint_iff)
  show ?thesis
    using alloc_kpages_out_of_memory [OF s1(2) _ none, of 1] alloc_kpages_out_of_memory [OF s1(2) _ none, of 7] s1 by auto
qed

text \<open>Memory taken before the core map existed cannot be returned: freeing a page below the
  managed region computes a negative frame number and reads and writes in front of the arrays.\<close>

theorem free_kpages_boot_memory:
  assumes "cm_rep s B" "PAGE_SIZE \<le> unat (baseAddr (core_map s)) - unat p" "0 < nframes s"
  shows "free_kpages s (PADDR_TO_KVADDR p) = None"
proof -
  note D = cm_repD [OF assms(1)]
  let ?b = "baseAddr (core_map s)"
  define d where "d = unat ?b - unat p"
  have d: "4096 \<le> d" using assms(2) by (simp only: d_def)
  have "PADDR_TO_KVADDR p - (?b + MIPS_KSEG0) = p - ?b" by (simp add: PADDR_TO_KVADDR_def)
  also have "\<dots> = word_of_int (- int d)"
    using d by (simp add: d_def of_nat_diff)
  finally have off: "sint (PADDR_TO_KVADDR p - (?b + MIPS_KSEG0)) = - int d"
    using D(8,9) by (simp only: signed_of_int) (simp add: signed_take_bit_int_eq_self d_def)
  have pos: "\<not> 0 \<le> - int d" "0 < int d div 4096" using d by (simp_all add: pos_imp_zdiv_pos_iff)
  then have "free_kpages s (PADDR_TO_KVADDR p) =
      free_run (core_map s) (- (int d div 4096)) \<bind> (\<lambda>cm'. Some (s\<lparr>core_map := cm'\<rparr>))"
    using D(1) unfolding free_kpages_def off Let_def by simp
  moreover have "free_run (core_map s) (- (int d div 4096)) = None"
    using pos(2) D(2) by (subst free_run.simps) (simp add: idx_int_def)
  ultimately show ?thesis by simp
qed

theorem free_kpages_boot_memory_witness:
  "free_kpages (vm_bootstrap demo_vm) (PADDR_TO_KVADDR 0x1000) = None"
proof -
  have "baseAddr (core_map (vm_bootstrap demo_vm)) = 0x3000"
    by (simp add: demo_vm_def vm_bootstrap_def ram_getsize_def align_page.simps)
  then show ?thesis using free_kpages_boot_memory [OF demo_vm_rep(1), of "0x1000"] demo_vm_rep(2) by simp
qed

text \<open>Bootstrapping sets up an empty core map: the managed region is page aligned, lies above
  the map itself and its two arrays, holds as many frames as fit below the end of memory, and the
  arrays are long enough for them.\<close>

theorem vm_bootstrap_establishes:
  assumes "vm_ram s = ram_bootstrap ramsize firstfree" "MIPS_KSEG0 < firstfree"
    and "unat (firstfree - MIPS_KSEG0) + 16 + 8 * ((unat (lastpaddr (vm_ram s)) - unat (firstfree - MIPS_KSEG0)) div PAGE_SIZE)
       + 4095 \<le> unat (lastpaddr (vm_ram s))"
  shows "cm_rep (vm_bootstrap s) Map.empty \<and>
    unat (firstfree - MIPS_KSEG0) + 16 + 8 * length (inUse (core_map (vm_bootstrap s))) \<le> unat (baseAddr (core_map (vm_bootstrap s))) \<and>
    nframes (vm_bootstrap s) = (unat (addr_hi (vm_bootstrap s)) - unat (baseAddr (core_map (vm_bootstrap s)))) div PAGE_SIZE"
proof -
  have f: "firstpaddr (vm_ram s) = firstfree - MIPS_KSEG0" using assms(1) by (simp add: ram_bootstrap_def Let_def)
  have "unat (lastpaddr (vm_ram s)) \<le> 532676608"
    using assms(1) by (auto simp: ram_bootstrap_def Let_def word_less_nat_alt)
  moreover have "0 < unat (firstpaddr (vm_ram s))" using assms(2) unfolding f by (simp add: unat_gt_0)
  ultimately show ?thesis using vm_bootstrap_spec [of s] assms(3) unfolding f by blast
qed

theorem vm_bootstrap_establishes_witness:
  "\<exists>s. vm_ram s = ram_bootstrap 0x9000 0x80002FC0 \<and> cm_rep (vm_bootstrap s) Map.empty \<and> nframes (vm_bootstrap s) = 6"
proof -
  have "vm_ram demo_vm = ram_bootstrap 0x9000 0x80002FC0"
    by (simp add: demo_vm_def ram_bootstrap_def MIPS_KSEG0_def)
  moreover have "unat (lastpaddr (vm_ram demo_vm)) = 36864" by (simp add: demo_vm_def)
  ultimately show ?thesis
    using vm_bootstrap_establishes [of demo_vm "0x9000" "0x80002FC0"] demo_vm_rep(2)
    by (intro exI [of _ demo_vm]) (simp add: MIPS_KSEG0_def)
qed

end
