(* ===== verification/AddrSpace.thy ===== *)
theory AddrSpace
  imports CoreMap
begin

text \<open>
  Address spaces and page faults of \<^verbatim>\<open>kern/arch/mips/vm/dumbvm.c\<close>: \<open>vm_fault\<close> and the \<open>as_*\<close>
  functions. An address space has a text region, a data region and a stack of twelve pages, each
  with a page table of physical addresses. The state holds the frame allocator, the contents of
  physical memory and the TLB of the processor. A block from \<open>kmalloc\<close> is an argument of the
  operation that asks for it: \<open>None\<close> for NULL, otherwise its arbitrary initial contents.
\<close>

section \<open>State\<close>

definition TLBLO_DIRTY :: u32 where "TLBLO_DIRTY = 0x00000400"
definition TLBLO_VALID :: u32 where "TLBLO_VALID = 0x00000200"
definition USERSTACK :: u32 where "USERSTACK = MIPS_KSEG0"
definition NUM_TLB :: nat where "NUM_TLB = 64"
definition DUMBVM_STACKPAGES :: nat where "DUMBVM_STACKPAGES = 12"
definition EX_MOD :: nat where "EX_MOD = 1"
definition VM_FAULT_READ :: int where "VM_FAULT_READ = 0"
definition VM_FAULT_WRITE :: int where "VM_FAULT_WRITE = 1"
definition VM_FAULT_READONLY :: int where "VM_FAULT_READONLY = 2"

definition TLBHI_INVALID :: "nat \<Rightarrow> u32" where
  "TLBHI_INVALID entryno = push_bit 12 (0x80000 + of_nat entryno)"

definition TLBLO_INVALID :: u32 where
  "TLBLO_INVALID = 0"

record addrspace =
  as_vbase1 :: vaddr
  as_vbase2 :: vaddr
  as_npages1 :: u32
  as_npages2 :: u32
  loadCode_done :: int
  as_ptable1 :: "paddr list option"
  as_ptable2 :: "paddr list option"
  as_stackptable :: "paddr list option"

record kmem =
  vm :: vm_state
  pmem :: "paddr \<Rightarrow> u8"
  tlb :: "(u32 \<times> u32) list"

section \<open>Page faults\<close>

text \<open>The loop over the TLB: the first entry that is not valid.\<close>

fun tlb_free_slot :: "(u32 \<times> u32) list \<Rightarrow> nat list \<Rightarrow> nat option option" where
  "tlb_free_slot t [] = Some None"
| "tlb_free_slot t (i # is) = do {
     (ehi, elo) \<leftarrow> idx t i;
     if elo AND TLBLO_VALID \<noteq> 0 then tlb_free_slot t is else Some (Some i)
   }"

text \<open>The physical address for a faulting page, by the region it lies in: \<open>Inl\<close> if it lies in
  none. A table access outside the table is \<open>None\<close>.\<close>

definition vm_translate :: "addrspace \<Rightarrow> vaddr \<Rightarrow> (errno + paddr) option" where
  "vm_translate as faultaddress = do {
     let vbase1 = as_vbase1 as;
     let vtop1 = vbase1 + as_npages1 as * 4096;
     let vbase2 = as_vbase2 as;
     let vtop2 = vbase2 + as_npages2 as * 4096;
     let stackbase = USERSTACK - of_nat DUMBVM_STACKPAGES * 4096;
     let stacktop = USERSTACK;
     let entry = (\<lambda>table base. do {
       let offset = sint (faultaddress - base);
       pt \<leftarrow> table;
       f \<leftarrow> idx_int pt (offset div 4096);
       Some (Inr (f + word_of_int (offset mod 4096)))
     });
     if faultaddress \<ge> vbase1 \<and> faultaddress < vtop1 then entry (as_ptable1 as) vbase1
     else if faultaddress \<ge> vbase2 \<and> faultaddress < vtop2 then entry (as_ptable2 as) vbase2
     else if faultaddress \<ge> stackbase \<and> faultaddress < stacktop then entry (as_stackptable as) stackbase
     else Some (Inl EFAULT)
   }"

text \<open>The low half of the TLB entry: the text region is mapped read-only once it is loaded.\<close>

definition tlb_elo :: "addrspace \<Rightarrow> vaddr \<Rightarrow> paddr \<Rightarrow> u32" where
  "tlb_elo as faultaddress paddr =
     (let elo = paddr OR TLBLO_DIRTY OR TLBLO_VALID in
      if faultaddress < as_vbase1 as + as_npages1 as * 4096 \<and> faultaddress \<ge> as_vbase1 as \<and> loadCode_done as = 1
      then elo AND NOT TLBLO_DIRTY else elo)"

text \<open>The result is 0, an error number or an exception code. \<open>proc\<close> is the current process and its
  address space, either of which may be missing; \<open>slot\<close> is the entry that \<open>tlb_random\<close> picks.\<close>

definition vm_fault :: "addrspace option option \<Rightarrow> nat \<Rightarrow> kmem \<Rightarrow> int \<Rightarrow> vaddr \<Rightarrow> (nat \<times> kmem) option" where
  "vm_fault proc slot k faulttype faultaddress =
     (let faultaddress = faultaddress AND PAGE_FRAME in
      if faulttype = VM_FAULT_READONLY then Some (EX_MOD, k)
      else if faulttype \<noteq> VM_FAULT_READ \<and> faulttype \<noteq> VM_FAULT_WRITE then Some (errno_code EINVAL, k)
      else case proc of
        None \<Rightarrow> Some (errno_code EFAULT, k)
      | Some None \<Rightarrow> Some (errno_code EFAULT, k)
      | Some (Some as) \<Rightarrow> do {
          KASSERT (as_vbase1 as \<noteq> 0);
          KASSERT (as_npages1 as \<noteq> 0);
          KASSERT (as_vbase2 as \<noteq> 0);
          KASSERT (as_npages2 as \<noteq> 0);
          KASSERT (as_ptable1 as \<noteq> None);
          KASSERT (as_ptable2 as \<noteq> None);
          KASSERT (as_stackptable as \<noteq> None);
          KASSERT (as_vbase1 as AND PAGE_FRAME = as_vbase1 as);
          KASSERT (as_vbase2 as AND PAGE_FRAME = as_vbase2 as);
          r \<leftarrow> vm_translate as faultaddress;
          case r of
            Inl e \<Rightarrow> Some (errno_code e, k)
          | Inr paddr \<Rightarrow> do {
              KASSERT (paddr AND PAGE_FRAME = paddr);
              free \<leftarrow> tlb_free_slot (tlb k) [0..<NUM_TLB];
              let i = (case free of Some i \<Rightarrow> i | None \<Rightarrow> slot);
              t \<leftarrow> upd (tlb k) i (faultaddress, tlb_elo as faultaddress paddr);
              Some (0, k\<lparr>tlb := t\<rparr>)
            }
        })"

section \<open>Address spaces\<close>

definition as_create :: "bool \<Rightarrow> addrspace option" where
  "as_create ok =
     (if \<not> ok then None
      else Some \<lparr>as_vbase1 = 0, as_vbase2 = 0, as_npages1 = 0, as_npages2 = 0, loadCode_done = 0,
                 as_ptable1 = None, as_ptable2 = None, as_stackptable = None\<rparr>)"

definition as_activate :: "addrspace option \<Rightarrow> kmem \<Rightarrow> kmem" where
  "as_activate as k =
     (case as of
        None \<Rightarrow> k
      | Some _ \<Rightarrow> k\<lparr>tlb := map (\<lambda>i. (TLBHI_INVALID i, TLBLO_INVALID)) [0..<NUM_TLB]\<rparr>)"

definition as_define_region :: "(u32 \<Rightarrow> paddr list option) \<Rightarrow> addrspace \<Rightarrow> vaddr \<Rightarrow> u32 \<Rightarrow> (errno + unit) \<times> addrspace" where
  "as_define_region kmalloc as vaddr sz =
     (let sz = sz + (vaddr AND NOT PAGE_FRAME);
          vaddr = vaddr AND PAGE_FRAME;
          sz = (sz + 4096 - 1) AND PAGE_FRAME;
          npages = sz div 4096
      in if as_vbase1 as = 0 then
           (Inr (), as\<lparr>as_vbase1 := vaddr, as_npages1 := npages, as_ptable1 := kmalloc npages\<rparr>)
         else if as_vbase2 as = 0 then
           (Inr (), as\<lparr>as_vbase2 := vaddr, as_npages2 := npages, as_ptable2 := kmalloc npages\<rparr>)
         else (Inl EUNIMP, as))"

definition as_zero_region :: "(paddr \<Rightarrow> u8) \<Rightarrow> paddr \<Rightarrow> nat \<Rightarrow> paddr \<Rightarrow> u8" where
  "as_zero_region m paddr npages = (\<lambda>a. if unat (a - paddr) < npages * PAGE_SIZE then 0 else m a)"

text \<open>The three loops of \<open>as_prepare_load\<close> are the same: one frame for each entry of a table.\<close>

fun prepare_table :: "kmem \<Rightarrow> paddr list \<Rightarrow> nat list \<Rightarrow> ((errno + unit) \<times> paddr list \<times> kmem) option" where
  "prepare_table k pt [] = Some (Inr (), pt, k)"
| "prepare_table k pt (i # is) = do {
     (pa, vm') \<leftarrow> getppages (vm k) 1;
     pt' \<leftarrow> upd pt i pa;
     if pa = 0 then Some (Inl ENOMEM, pt', k\<lparr>vm := vm'\<rparr>)
     else prepare_table (k\<lparr>vm := vm', pmem := as_zero_region (pmem k) pa 1\<rparr>) pt' is
   }"

definition as_prepare_load :: "paddr list option \<Rightarrow> kmem \<Rightarrow> addrspace \<Rightarrow> ((errno + unit) \<times> addrspace \<times> kmem) option" where
  "as_prepare_load stacktable k as =
     (let as = as\<lparr>as_stackptable := stacktable\<rparr> in
      case (as_ptable1 as, as_ptable2 as, as_stackptable as) of
        (Some pt1, Some pt2, Some spt) \<Rightarrow> do {
          (r, pt1, k) \<leftarrow> prepare_table k pt1 [0..<unat (as_npages1 as)];
          let as = as\<lparr>as_ptable1 := Some pt1\<rparr>;
          if r \<noteq> Inr () then Some (r, as, k)
          else do {
            (r, pt2, k) \<leftarrow> prepare_table k pt2 [0..<unat (as_npages2 as)];
            let as = as\<lparr>as_ptable2 := Some pt2\<rparr>;
            if r \<noteq> Inr () then Some (r, as, k)
            else do {
              (r, spt, k) \<leftarrow> prepare_table k spt [0..<DUMBVM_STACKPAGES];
              Some (r, as\<lparr>as_stackptable := Some spt\<rparr>, k)
            }
          }
        }
      | _ \<Rightarrow> Some (Inl ENOMEM, as, k))"

definition as_complete_load :: "addrspace \<Rightarrow> errno + unit" where
  "as_complete_load as = Inr ()"

definition as_define_stack :: "addrspace \<Rightarrow> errno + vaddr" where
  "as_define_stack as = Inr USERSTACK"

fun free_table :: "vm_state \<Rightarrow> paddr list option \<Rightarrow> nat list \<Rightarrow> vm_state option" where
  "free_table s pt [] = Some s"
| "free_table s pt (i # is) = do {
     fs \<leftarrow> pt;
     f \<leftarrow> idx fs i;
     s' \<leftarrow> free_kpages s (PADDR_TO_KVADDR f);
     free_table s' pt is
   }"

definition as_destroy :: "kmem \<Rightarrow> addrspace \<Rightarrow> kmem option" where
  "as_destroy k as = do {
     s \<leftarrow> free_table (vm k) (as_ptable1 as) [0..<unat (as_npages1 as)];
     s \<leftarrow> free_table s (as_ptable2 as) [0..<unat (as_npages2 as)];
     s \<leftarrow> free_table s (as_stackptable as) [0..<DUMBVM_STACKPAGES];
     Some (k\<lparr>vm := s\<rparr>)
   }"

definition copy_page :: "(paddr \<Rightarrow> u8) \<Rightarrow> paddr \<Rightarrow> paddr \<Rightarrow> paddr \<Rightarrow> u8" where
  "copy_page m dst src = (\<lambda>a. if unat (a - dst) < PAGE_SIZE then m (src + (a - dst)) else m a)"

fun copy_table :: "(paddr \<Rightarrow> u8) \<Rightarrow> paddr list option \<Rightarrow> paddr list option \<Rightarrow> nat list \<Rightarrow> (paddr \<Rightarrow> u8) option" where
  "copy_table m new old [] = Some m"
| "copy_table m new old (i # is) = do {
     ns \<leftarrow> new;
     n \<leftarrow> idx ns i;
     os \<leftarrow> old;
     f \<leftarrow> idx os i;
     copy_table (copy_page m n f) new old is
   }"

text \<open>\<open>ok\<close> and \<open>kmalloc\<close> are the allocations of the structure and of the three tables.\<close>

definition as_copy :: "bool \<Rightarrow> (u32 \<Rightarrow> paddr list option) \<Rightarrow> paddr list option \<Rightarrow> kmem \<Rightarrow> addrspace \<Rightarrow>
    ((errno + addrspace) \<times> kmem) option" where
  "as_copy ok kmalloc stacktable k old =
     (case as_create ok of
        None \<Rightarrow> Some (Inl ENOMEM, k)
      | Some new \<Rightarrow> do {
          let new = new\<lparr>as_vbase1 := as_vbase1 old, as_npages1 := as_npages1 old,
                        as_vbase2 := as_vbase2 old, as_npages2 := as_npages2 old\<rparr>;
          let new = new\<lparr>as_ptable1 := kmalloc (as_npages1 new), as_ptable2 := kmalloc (as_npages2 new)\<rparr>;
          (r, new, k) \<leftarrow> as_prepare_load stacktable k new;
          if r \<noteq> Inr () then do {
            k \<leftarrow> as_destroy k new;
            Some (Inl ENOMEM, k)
          } else do {
            KASSERT (as_ptable1 new \<noteq> None \<and> as_ptable2 new \<noteq> None \<and> as_stackptable new \<noteq> None);
            m \<leftarrow> copy_table (pmem k) (as_ptable1 new) (as_ptable1 old) [0..<unat (as_npages1 old)];
            m \<leftarrow> copy_table m (as_ptable2 new) (as_ptable2 old) [0..<unat (as_npages2 old)];
            m \<leftarrow> copy_table m (as_stackptable new) (as_stackptable old) [0..<DUMBVM_STACKPAGES];
            Some (Inr new, k\<lparr>pmem := m\<rparr>)
          }
        })"

section \<open>Frames and their bytes\<close>

definition in_frame :: "vm_state \<Rightarrow> nat \<Rightarrow> paddr \<Rightarrow> bool" where
  "in_frame s i a \<longleftrightarrow> unat (a - frame_addr s i) < PAGE_SIZE"

lemma page_of_range: "b + i * 4096 \<le> x \<and> x < b + i * 4096 + 4096 \<longleftrightarrow> b \<le> x \<and> (x - b) div 4096 = i"
  for b i x :: nat
proof -
  have "(x - b) div 4096 = i \<longleftrightarrow> i \<le> (x - b) div 4096 \<and> (x - b) div 4096 < Suc i" by linarith
  also have "\<dots> \<longleftrightarrow> i * 4096 \<le> x - b \<and> x - b < Suc i * 4096"
    by (simp only: less_eq_div_iff_mult_less_eq div_less_iff_less_mult zero_less_numeral)
  finally show ?thesis by auto
qed

lemma unat_diff_less:
  fixes a f :: u32
  assumes "unat f + n \<le> 4294967296"
  shows "unat (a - f) < n \<longleftrightarrow> unat f \<le> unat a \<and> unat a < unat f + n"
proof (cases "unat f \<le> unat a")
  case True
  then have "unat (a - f) = unat a - unat f" by (simp add: unat_sub_if_size)
  then show ?thesis using True by (simp add: less_diff_conv2 add.commute)
next
  case False
  then have "unat (a - f) = unat a + 4294967296 - unat f" by (simp add: unat_sub_if_size word_size)
  then show ?thesis using False assms by simp
qed

lemma in_frame_iff:
  assumes "cm_rep s B" "i < nframes s"
  shows "in_frame s i a \<longleftrightarrow>
    unat (baseAddr (core_map s)) \<le> unat a \<and> (unat a - unat (baseAddr (core_map s))) div PAGE_SIZE = i"
proof -
  let ?b = "unat (baseAddr (core_map s))"
  have f: "unat (frame_addr s i) = ?b + i * 4096" using frame_addr_unat [OF assms(1), of i] assms(2) by simp
  have "Suc i * 4096 \<le> nframes s * 4096" using assms(2) by (intro mult_le_mono1) simp
  then have b: "?b + i * 4096 + 4096 \<le> 532676608" using cm_repD(8,9) [OF assms(1)] by simp
  have "in_frame s i a \<longleftrightarrow> ?b + i * 4096 \<le> unat a \<and> unat a < ?b + i * 4096 + 4096"
    using b unat_diff_less [of "frame_addr s i" 4096 a] unfolding in_frame_def f by simp
  also have "\<dots> \<longleftrightarrow> ?b \<le> unat a \<and> (unat a - ?b) div 4096 = i"
    by (rule page_of_range)
  finally show ?thesis .
qed

lemma in_frame_unique:
  "cm_rep s B \<Longrightarrow> i < nframes s \<Longrightarrow> j < nframes s \<Longrightarrow> in_frame s i a \<Longrightarrow> in_frame s j a \<Longrightarrow> i = j"
  using in_frame_iff by metis

lemma in_frame_offset: "off < PAGE_SIZE \<Longrightarrow> in_frame s i (frame_addr s i + of_nat off)"
  by (simp add: in_frame_def unsigned_of_nat take_bit_nat_eq_self)

section \<open>Allocating the pages of a table\<close>

definition add_frames :: "blocks \<Rightarrow> nat list \<Rightarrow> blocks" where
  "add_frames B fs = (\<lambda>i. if i \<in> set fs then Some 1 else B i)"

lemma add_frames_simps [simp]:
  "add_frames B [] = B" "add_frames (add_frames B fs) gs = add_frames B (fs @ gs)"
  "(add_frames B fs)(i \<mapsto> 1) = add_frames B (fs @ [i])"
  by (auto simp: add_frames_def fun_eq_iff)

lemma blocks_wf_None: "blocks_wf n B \<Longrightarrow> i \<notin> frames B \<Longrightarrow> B i = None"
  by (cases "B i") (force simp: frames_def blocks_wf_def)+

lemma frames_add:
  assumes "\<And>i. i \<in> set fs \<Longrightarrow> B i = None"
  shows "frames (add_frames B fs) = frames B \<union> set fs"
  using assms
proof (induction fs rule: rev_induct)
  case (snoc i fs)
  show ?case
  proof (cases "i \<in> set fs")
    case True
    then have "add_frames B (fs @ [i]) = add_frames B fs" by (auto simp: add_frames_def fun_eq_iff)
    then show ?thesis using snoc True by auto
  next
    case False
    then have "add_frames B fs i = None" using snoc.prems by (simp add: add_frames_def)
    then have "frames (add_frames B (fs @ [i])) = frames (add_frames B fs) \<union> {i..<i + 1}"
      using frames_upd [of "add_frames B fs" i 1] by (simp only: add_frames_simps)
    then show ?thesis using snoc by auto
  qed
qed simp

lemma getppages_one:
  assumes rep: "cm_rep s B" and free: "card (frames B) < nframes s"
  shows "\<exists>i s'. getppages s 1 = Some (frame_addr s i, s') \<and> i < nframes s \<and> i \<notin> frames B \<and>
    cm_rep s' (B(i \<mapsto> 1)) \<and> nframes s' = nframes s \<and> frame_addr s' = frame_addr s"
proof -
  have "frames B \<noteq> {..<nframes s}" using free by (metis card_lessThan less_irrefl)
  then have "\<exists>i. free_run_at s B 1 i"
    using frames_used_eq [OF rep] by (auto simp: free_run_at_def frames_used_def)
  then obtain j where j: "free_run_at s B 1 j" ..
  define i where "i = (LEAST i. free_run_at s B 1 i)"
  have i: "free_run_at s B 1 i" unfolding i_def by (rule LeastI, rule j)
  have first: "\<not> free_run_at s B 1 m" if "m < i" for m using that unfolding i_def by (rule not_less_Least)
  obtain s' where "getppages s (of_nat 1) = Some (frame_addr s i, s')" "cm_rep s' (B(i \<mapsto> 1))"
      "nframes s' = nframes s" "frame_addr s' = frame_addr s"
    using getppages_found [OF rep zero_less_one i first] by blast
  moreover have "i < nframes s" "i \<notin> frames B" using i by (auto simp: free_run_at_def)
  ultimately show ?thesis by auto
qed

text \<open>The frames \<open>fs\<close> are freshly allocated and zeroed in going from \<open>k\<close> to \<open>k'\<close>.\<close>

definition fresh_zeroed :: "kmem \<Rightarrow> blocks \<Rightarrow> nat list \<Rightarrow> kmem \<Rightarrow> bool" where
  "fresh_zeroed k B fs k' \<longleftrightarrow>
     distinct fs \<and> set fs \<subseteq> {..<nframes (vm k)} - frames B \<and> cm_rep (vm k') (add_frames B fs) \<and>
     nframes (vm k') = nframes (vm k) \<and> frame_addr (vm k') = frame_addr (vm k) \<and> tlb k' = tlb k \<and>
     (\<forall>a. pmem k' a = (if \<exists>i \<in> set fs. in_frame (vm k) i a then 0 else pmem k a))"

lemma fresh_zeroed_frames:
  "cm_rep (vm k) B \<Longrightarrow> fresh_zeroed k B fs k' \<Longrightarrow> frames (add_frames B fs) = frames B \<union> set fs"
  by (rule frames_add) (auto simp: fresh_zeroed_def intro: blocks_wf_None cm_repD(10))

lemma fresh_zeroed_trans:
  assumes "cm_rep (vm k) B" "fresh_zeroed k B fs k'" "fresh_zeroed k' (add_frames B fs) gs k''"
  shows "fresh_zeroed k B (fs @ gs) k''"
  using assms fresh_zeroed_frames [OF assms(1,2)]
  unfolding fresh_zeroed_def in_frame_def by auto

lemma card_fresh:
  assumes "cm_rep (vm k) B" "fresh_zeroed k B fs k'"
  shows "card (frames (add_frames B fs)) = card (frames B) + length fs"
proof -
  have "finite (frames B)" using frames_used_eq [OF assms(1)] by (metis finite_Collect_conjI finite_Collect_less_nat frames_used_def)
  moreover have "frames B \<inter> set fs = {}" using assms(2) by (auto simp: fresh_zeroed_def)
  ultimately show ?thesis
    using assms(2) by (simp add: fresh_zeroed_frames [OF assms] card_Un_disjoint fresh_zeroed_def distinct_card)
qed

lemma prepare_table_ok:
  assumes "cm_rep (vm k) B" "card (frames B) + length js \<le> nframes (vm k)"
  shows "\<exists>fs k'. prepare_table k (pre @ js) [length pre..<length pre + length js] =
      Some (Inr (), pre @ map (frame_addr (vm k)) fs, k') \<and> length fs = length js \<and> fresh_zeroed k B fs k'"
  using assms
proof (induction js arbitrary: k B pre)
  case Nil
  then show ?case by (auto simp: fresh_zeroed_def)
next
  case (Cons j js)
  obtain i s' where i: "getppages (vm k) 1 = Some (frame_addr (vm k) i, s')" "i < nframes (vm k)" "i \<notin> frames B"
      "cm_rep s' (B(i \<mapsto> 1))" "nframes s' = nframes (vm k)" "frame_addr s' = frame_addr (vm k)"
    using getppages_one [OF Cons.prems(1)] Cons.prems(2) by auto
  define k1 where "k1 = k\<lparr>vm := s', pmem := as_zero_region (pmem k) (frame_addr (vm k) i) 1\<rparr>"
  have v: "vm k1 = s'" "tlb k1 = tlb k" by (simp_all add: k1_def)
  have e: "add_frames B [i] = B(i \<mapsto> 1)" by (auto simp: add_frames_def fun_eq_iff)
  have z: "fresh_zeroed k B [i] k1"
    using i unfolding fresh_zeroed_def v e
    by (simp add: k1_def as_zero_region_def in_frame_def)
  have nz: "frame_addr (vm k) i \<noteq> 0"
    using frame_addr_unat [OF Cons.prems(1), of i] i(2) cm_repD(6) [OF Cons.prems(1)] by auto
  let ?pre = "pre @ [frame_addr (vm k) i]"
  have "cm_rep (vm k1) (add_frames B [i])" using i(4) v e by simp
  moreover have "card (frames (add_frames B [i])) + length js \<le> nframes (vm k1)"
    using card_fresh [OF Cons.prems(1) z] Cons.prems(2) i(5) v by simp
  ultimately obtain fs k' where IH: "prepare_table k1 (?pre @ js) [length ?pre..<length ?pre + length js] =
      Some (Inr (), ?pre @ map (frame_addr (vm k1)) fs, k')" "length fs = length js"
      "fresh_zeroed k1 (add_frames B [i]) fs k'"
    using Cons.IH by blast
  have "prepare_table k (pre @ j # js) [length pre..<length pre + length (j # js)] =
      prepare_table k1 (?pre @ js) [length ?pre..<length ?pre + length js]"
    using i(1) nz by (simp add: upt_rec upd_def k1_def)
  then show ?case
    using IH i(6) v fresh_zeroed_trans [OF Cons.prems(1) z IH(3)]
    by (intro exI [of _ "i # fs"] exI [of _ k']) simp
qed

text \<open>The page tables of an address space refer to the frames \<open>fs1\<close>, \<open>fs2\<close> and \<open>fs3\<close>.\<close>

definition as_owns :: "vm_state \<Rightarrow> addrspace \<Rightarrow> nat list \<Rightarrow> nat list \<Rightarrow> nat list \<Rightarrow> bool" where
  "as_owns s as fs1 fs2 fs3 \<longleftrightarrow>
     as_ptable1 as = Some (map (frame_addr s) fs1) \<and> length fs1 = unat (as_npages1 as) \<and>
     as_ptable2 as = Some (map (frame_addr s) fs2) \<and> length fs2 = unat (as_npages2 as) \<and>
     as_stackptable as = Some (map (frame_addr s) fs3) \<and> length fs3 = DUMBVM_STACKPAGES"

definition same_layout :: "addrspace \<Rightarrow> addrspace \<Rightarrow> bool" where
  "same_layout a b \<longleftrightarrow> as_vbase1 a = as_vbase1 b \<and> as_vbase2 a = as_vbase2 b \<and>
     as_npages1 a = as_npages1 b \<and> as_npages2 a = as_npages2 b"

definition as_tables :: "addrspace \<Rightarrow> bool" where
  "as_tables as \<longleftrightarrow> (\<exists>pt. as_ptable1 as = Some pt \<and> length pt = unat (as_npages1 as)) \<and>
     (\<exists>pt. as_ptable2 as = Some pt \<and> length pt = unat (as_npages2 as))"

abbreviation as_pages :: "addrspace \<Rightarrow> nat" where
  "as_pages as \<equiv> unat (as_npages1 as) + unat (as_npages2 as) + DUMBVM_STACKPAGES"

lemma as_prepare_load_ok:
  assumes rep: "cm_rep (vm k) B" and tabs: "as_tables as" and sl: "length spt = DUMBVM_STACKPAGES"
    and room: "card (frames B) + as_pages as \<le> nframes (vm k)"
  shows "\<exists>as' k' fs1 fs2 fs3. as_prepare_load (Some spt) k as = Some (Inr (), as', k') \<and>
     as_owns (vm k') as' fs1 fs2 fs3 \<and> fresh_zeroed k B (fs1 @ fs2 @ fs3) k' \<and> same_layout as' as \<and>
     loadCode_done as' = loadCode_done as"
proof -
  obtain pt1 pt2 where pt: "as_ptable1 as = Some pt1" "length pt1 = unat (as_npages1 as)"
      "as_ptable2 as = Some pt2" "length pt2 = unat (as_npages2 as)" using tabs by (auto simp: as_tables_def)
  have "card (frames B) + length pt1 \<le> nframes (vm k)" using room pt by simp
  from prepare_table_ok [OF rep this, of "[]"] pt(2)
  obtain fs1 k1 where 1: "prepare_table k pt1 [0..<unat (as_npages1 as)] = Some (Inr (), map (frame_addr (vm k)) fs1, k1)"
      "length fs1 = length pt1" "fresh_zeroed k B fs1 k1" by auto
  let ?B1 = "add_frames B fs1"
  have r1: "cm_rep (vm k1) ?B1" "nframes (vm k1) = nframes (vm k)" "frame_addr (vm k1) = frame_addr (vm k)"
    using 1(3) by (simp_all add: fresh_zeroed_def)
  have "card (frames ?B1) + length pt2 \<le> nframes (vm k1)"
    using card_fresh [OF rep 1(3)] 1(2) pt room r1(2) by simp
  from prepare_table_ok [OF r1(1) this, of "[]"] pt(4)
  obtain fs2 k2 where 2: "prepare_table k1 pt2 [0..<unat (as_npages2 as)] = Some (Inr (), map (frame_addr (vm k)) fs2, k2)"
      "length fs2 = length pt2" "fresh_zeroed k1 ?B1 fs2 k2" by (auto simp: r1(3))
  note z12 = fresh_zeroed_trans [OF rep 1(3) 2(3)]
  let ?B2 = "add_frames B (fs1 @ fs2)"
  have r2: "cm_rep (vm k2) ?B2" "nframes (vm k2) = nframes (vm k)" "frame_addr (vm k2) = frame_addr (vm k)"
    using z12 by (simp_all add: fresh_zeroed_def)
  have "card (frames ?B2) + length spt \<le> nframes (vm k2)"
    using card_fresh [OF rep z12] 1(2) 2(2) pt sl room r2(2) by simp
  from prepare_table_ok [OF r2(1) this, of "[]"] sl
  obtain fs3 k3 where 3: "prepare_table k2 spt [0..<DUMBVM_STACKPAGES] = Some (Inr (), map (frame_addr (vm k)) fs3, k3)"
      "length fs3 = length spt" "fresh_zeroed k2 ?B2 fs3 k3" by (auto simp: r2(3))
  have z: "fresh_zeroed k B (fs1 @ fs2 @ fs3) k3" using fresh_zeroed_trans [OF rep z12 3(3)] by simp
  define as' where "as' = as\<lparr>as_ptable1 := Some (map (frame_addr (vm k)) fs1), as_ptable2 := Some (map (frame_addr (vm k)) fs2),
    as_stackptable := Some (map (frame_addr (vm k)) fs3)\<rparr>"
  have "as_prepare_load (Some spt) k as = Some (Inr (), as', k3)"
    using pt 1(1) 2(1) 3(1) by (simp add: as_prepare_load_def as'_def)
  moreover have "frame_addr (vm k3) = frame_addr (vm k)" using z by (simp add: fresh_zeroed_def)
  then have "as_owns (vm k3) as' fs1 fs2 fs3"
    using 1(2) 2(2) 3(2) pt sl by (simp add: as_owns_def as'_def)
  moreover have "same_layout as' as" "loadCode_done as' = loadCode_done as" by (simp_all add: same_layout_def as'_def)
  ultimately show ?thesis using z by blast
qed

section \<open>Freeing the pages of a table\<close>

definition drop_frames :: "blocks \<Rightarrow> nat list \<Rightarrow> blocks" where
  "drop_frames B fs = (\<lambda>i. if i \<in> set fs then None else B i)"

lemma free_table_ok:
  assumes "cm_rep s B" "distinct fs" "\<And>i. i \<in> set fs \<Longrightarrow> B i = Some 1"
  shows "\<exists>s'. free_table s (Some (pre @ map (frame_addr s) fs)) [length pre..<length pre + length fs] = Some s' \<and>
     cm_rep s' (drop_frames B fs) \<and> nframes s' = nframes s \<and> frame_addr s' = frame_addr s"
  using assms
proof (induction fs arbitrary: s B pre)
  case Nil
  then show ?case by (simp add: drop_frames_def)
next
  case (Cons i fs)
  obtain s1 where s1: "free_kpages s (PADDR_TO_KVADDR (frame_addr s i)) = Some s1" "cm_rep s1 (B(i := None))"
      "nframes s1 = nframes s" "frame_addr s1 = frame_addr s"
    using free_kpages_rep [OF Cons.prems(1), of i 1] Cons.prems(3) by auto
  have d: "distinct fs" and b: "\<And>j. j \<in> set fs \<Longrightarrow> (B(i := None)) j = Some 1" using Cons.prems(2,3) by auto
  obtain s' where s': "free_table s1 (Some ((pre @ [frame_addr s i]) @ map (frame_addr s1) fs))
        [length (pre @ [frame_addr s i])..<length (pre @ [frame_addr s i]) + length fs] = Some s'"
      "cm_rep s' (drop_frames (B(i := None)) fs)" "nframes s' = nframes s1" "frame_addr s' = frame_addr s1"
    using Cons.IH [of s1 "B(i := None)" "pre @ [frame_addr s i]", OF s1(2) d b] by blast
  have "drop_frames (B(i := None)) fs = drop_frames B (i # fs)" by (auto simp: drop_frames_def fun_eq_iff)
  moreover have "free_table s (Some (pre @ map (frame_addr s) (i # fs))) [length pre..<length pre + length (i # fs)] = Some s'"
    using s1(1,4) s'(1) by (simp add: upt_rec idx_def nth_append)
  ultimately show ?case using s' s1 by metis
qed

lemma as_destroy_ok:
  assumes rep: "cm_rep (vm k) B" and own: "as_owns (vm k) as fs1 fs2 fs3" and d: "distinct (fs1 @ fs2 @ fs3)"
    and B: "\<And>i. i \<in> set (fs1 @ fs2 @ fs3) \<Longrightarrow> B i = Some 1"
  shows "\<exists>s'. as_destroy k as = Some (k\<lparr>vm := s'\<rparr>) \<and> cm_rep s' (drop_frames B (fs1 @ fs2 @ fs3)) \<and>
     nframes s' = nframes (vm k) \<and> frame_addr s' = frame_addr (vm k)"
proof -
  note o = own [unfolded as_owns_def]
  obtain s1 where 1: "free_table (vm k) (as_ptable1 as) [0..<unat (as_npages1 as)] = Some s1"
      "cm_rep s1 (drop_frames B fs1)" "nframes s1 = nframes (vm k)" "frame_addr s1 = frame_addr (vm k)"
    using free_table_ok [OF rep, of fs1 "[]"] d B o by auto
  have "drop_frames B fs1 i = Some 1" if "i \<in> set fs2" for i using that d B by (auto simp: drop_frames_def)
  from free_table_ok [OF 1(2) _ this, of fs2 "[]"] d o 1(4)
  obtain s2 where 2: "free_table s1 (as_ptable2 as) [0..<unat (as_npages2 as)] = Some s2"
      "cm_rep s2 (drop_frames (drop_frames B fs1) fs2)" "nframes s2 = nframes s1" "frame_addr s2 = frame_addr s1"
    by auto
  have "drop_frames (drop_frames B fs1) fs2 i = Some 1" if "i \<in> set fs3" for i using that d B by (auto simp: drop_frames_def)
  from free_table_ok [OF 2(2) _ this, of fs3 "[]"] d o 1(4) 2(4)
  obtain s3 where 3: "free_table s2 (as_stackptable as) [0..<DUMBVM_STACKPAGES] = Some s3"
      "cm_rep s3 (drop_frames (drop_frames (drop_frames B fs1) fs2) fs3)" "nframes s3 = nframes s2" "frame_addr s3 = frame_addr s2"
    by auto
  have "drop_frames (drop_frames (drop_frames B fs1) fs2) fs3 = drop_frames B (fs1 @ fs2 @ fs3)"
    by (auto simp: drop_frames_def fun_eq_iff)
  then show ?thesis using 1 2 3 by (auto simp: as_destroy_def)
qed

section \<open>Copying the pages of a table\<close>

lemma copy_page_same: "off < PAGE_SIZE \<Longrightarrow> copy_page m dst src (dst + of_nat off) = m (src + of_nat off)"
  by (simp add: copy_page_def unsigned_of_nat take_bit_nat_eq_self)

lemma copy_page_other: "cm_rep s B \<Longrightarrow> \<not> in_frame s i a \<Longrightarrow> copy_page m (frame_addr s i) src a = m a"
  by (simp add: copy_page_def in_frame_def)

text \<open>\<open>same_pages\<close>: the pages in the frames \<open>fs\<close> of memory \<open>m'\<close> are those in the frames \<open>gs\<close> of
  \<open>m\<close>.\<close>

definition same_pages :: "vm_state \<Rightarrow> (paddr \<Rightarrow> u8) \<Rightarrow> nat list \<Rightarrow> (paddr \<Rightarrow> u8) \<Rightarrow> nat list \<Rightarrow> bool" where
  "same_pages s m' fs m gs \<longleftrightarrow>
     (\<forall>j < length fs. \<forall>off < PAGE_SIZE. m' (frame_addr s (fs ! j) + of_nat off) = m (frame_addr s (gs ! j) + of_nat off))"

lemma copy_table_ok:
  assumes rep: "cm_rep s B" and len: "length fs = length gs" and d: "distinct fs" "set fs \<inter> set gs = {}"
    and r: "set fs \<subseteq> {..<nframes s}" "set gs \<subseteq> {..<nframes s}"
    and lp: "length pre = length pre'"
  shows "\<exists>m'. copy_table m (Some (pre @ map (frame_addr s) fs)) (Some (pre' @ map (frame_addr s) gs))
       [length pre..<length pre + length fs] = Some m' \<and> same_pages s m' fs m gs \<and>
     (\<forall>a. (\<forall>i \<in> set fs. \<not> in_frame s i a) \<longrightarrow> m' a = m a)"
  using len d r lp
proof (induction fs gs arbitrary: m pre pre' rule: list_induct2)
  case Nil
  then show ?case by (simp add: same_pages_def)
next
  case (Cons f fs g gs)
  let ?m = "copy_page m (frame_addr s f) (frame_addr s g)"
  let ?pre = "pre @ [frame_addr s f]" and ?pre' = "pre' @ [frame_addr s g]"
  have "\<exists>m'. copy_table ?m (Some (?pre @ map (frame_addr s) fs)) (Some (?pre' @ map (frame_addr s) gs))
       [length ?pre..<length ?pre + length fs] = Some m' \<and> same_pages s m' fs ?m gs \<and>
     (\<forall>a. (\<forall>i \<in> set fs. \<not> in_frame s i a) \<longrightarrow> m' a = ?m a)"
    by (rule Cons.IH) (use Cons.prems in auto)
  then obtain m' where m': "copy_table ?m (Some (?pre @ map (frame_addr s) fs)) (Some (?pre' @ map (frame_addr s) gs))
       [length ?pre..<length ?pre + length fs] = Some m'" "same_pages s m' fs ?m gs"
     "\<And>a. (\<forall>i \<in> set fs. \<not> in_frame s i a) \<Longrightarrow> m' a = ?m a" by blast
  have "copy_table m (Some (pre @ map (frame_addr s) (f # fs))) (Some (pre' @ map (frame_addr s) (g # gs)))
       [length pre..<length pre + length (f # fs)] = Some m'"
    using m'(1) Cons.prems(5) by (simp add: upt_rec idx_def nth_append)
  moreover have "same_pages s m' (f # fs) m (g # gs)"
    unfolding same_pages_def
  proof (intro allI impI)
    fix j off assume j: "j < length (f # fs)" and off: "off < PAGE_SIZE"
    have other: "\<not> in_frame s i (frame_addr s h + of_nat off)" if "i \<noteq> h" "i < nframes s" "h < nframes s" for i h
      using in_frame_unique [OF rep that(2,3)] in_frame_offset [OF off, of s h] that(1) by blast
    show "m' (frame_addr s ((f # fs) ! j) + of_nat off) = m (frame_addr s ((g # gs) ! j) + of_nat off)"
    proof (cases j)
      case 0
      have "\<forall>i \<in> set fs. \<not> in_frame s i (frame_addr s f + of_nat off)"
      proof
        fix i assume "i \<in> set fs"
        then have "i \<noteq> f" "i < nframes s" "f < nframes s" using Cons.prems(1,3) by auto
        then show "\<not> in_frame s i (frame_addr s f + of_nat off)" by (rule other)
      qed
      then show ?thesis using m'(3) copy_page_same [OF off] 0 by simp
    next
      case (Suc j')
      then have jl: "j' < length fs" using j by simp
      then have "gs ! j' \<in> set gs" using Cons.hyps by simp
      then have "\<not> in_frame s f (frame_addr s (gs ! j') + of_nat off)"
        by (intro other) (use Cons.prems in auto)
      then have "?m (frame_addr s (gs ! j') + of_nat off) = m (frame_addr s (gs ! j') + of_nat off)"
        by (rule copy_page_other [OF rep])
      then show ?thesis using m'(2) jl off Suc unfolding same_pages_def by simp
    qed
  qed
  moreover have "m' a = m a" if "\<forall>i \<in> set (f # fs). \<not> in_frame s i a" for a
    using that m'(3) copy_page_other [OF rep] by simp
  ultimately show ?case by blast
qed

lemma same_pages_trans:
  assumes "same_pages s m' fs m gs" "length fs = length gs"
    and "\<And>a i. i \<in> set fs \<Longrightarrow> in_frame s i a \<Longrightarrow> m'' a = m' a"
    and "\<And>a i. i \<in> set gs \<Longrightarrow> in_frame s i a \<Longrightarrow> m a = m0 a"
  shows "same_pages s m'' fs m0 gs"
  unfolding same_pages_def
proof (intro allI impI)
  fix j off assume j: "j < length fs" and off: "off < PAGE_SIZE"
  then have "m'' (frame_addr s (fs ! j) + of_nat off) = m' (frame_addr s (fs ! j) + of_nat off)"
    by (intro assms(3) [of "fs ! j"] in_frame_offset) simp_all
  also have "\<dots> = m (frame_addr s (gs ! j) + of_nat off)" using assms(1) j off by (simp add: same_pages_def)
  also have "\<dots> = m0 (frame_addr s (gs ! j) + of_nat off)"
    using j off assms(2) by (intro assms(4) [of "gs ! j"] in_frame_offset) simp_all
  finally show "m'' (frame_addr s (fs ! j) + of_nat off) = m0 (frame_addr s (gs ! j) + of_nat off)" .
qed

lemma as_copy_ok:
  assumes rep: "cm_rep (vm k) B" and own: "as_owns (vm k) old g1 g2 g3"
    and live: "set (g1 @ g2 @ g3) \<subseteq> frames B"
    and mem: "\<And>n. \<exists>pt. kmalloc n = Some pt \<and> length pt = unat n" "length spt = DUMBVM_STACKPAGES"
    and room: "card (frames B) + as_pages old \<le> nframes (vm k)"
  shows "\<exists>new k' f1 f2 f3. as_copy True kmalloc (Some spt) k old = Some (Inr new, k') \<and>
     as_owns (vm k') new f1 f2 f3 \<and> cm_rep (vm k') (add_frames B (f1 @ f2 @ f3)) \<and>
     distinct (f1 @ f2 @ f3) \<and> set (f1 @ f2 @ f3) \<subseteq> {..<nframes (vm k)} - frames B \<and>
     same_layout new old \<and> loadCode_done new = 0 \<and>
     same_pages (vm k) (pmem k') f1 (pmem k) g1 \<and> same_pages (vm k) (pmem k') f2 (pmem k) g2 \<and>
     same_pages (vm k) (pmem k') f3 (pmem k) g3 \<and>
     (\<forall>a. (\<forall>i \<in> set (f1 @ f2 @ f3). \<not> in_frame (vm k) i a) \<longrightarrow> pmem k' a = pmem k a) \<and>
     frame_addr (vm k') = frame_addr (vm k) \<and> tlb k' = tlb k"
proof -
  define n0 where "n0 = \<lparr>as_vbase1 = as_vbase1 old, as_vbase2 = as_vbase2 old, as_npages1 = as_npages1 old,
     as_npages2 = as_npages2 old, loadCode_done = 0, as_ptable1 = kmalloc (as_npages1 old),
     as_ptable2 = kmalloc (as_npages2 old), as_stackptable = None\<rparr>"
  have "as_tables n0" using mem(1) by (simp add: as_tables_def n0_def)
  moreover have "card (frames B) + as_pages n0 \<le> nframes (vm k)" using room by (simp add: n0_def)
  ultimately obtain new k1 f1 f2 f3 where p: "as_prepare_load (Some spt) k n0 = Some (Inr (), new, k1)"
      "as_owns (vm k1) new f1 f2 f3" "fresh_zeroed k B (f1 @ f2 @ f3) k1" "same_layout new n0" "loadCode_done new = 0"
    using as_prepare_load_ok [OF rep _ mem(2)] by (fastforce simp: n0_def)
  let ?s = "vm k" and ?F = "f1 @ f2 @ f3" and ?G = "g1 @ g2 @ g3"
  have fr: "distinct ?F" "set ?F \<subseteq> {..<nframes ?s} - frames B" "cm_rep (vm k1) (add_frames B ?F)"
      "frame_addr (vm k1) = frame_addr ?s" "tlb k1 = tlb k"
      "\<And>a. pmem k1 a = (if \<exists>i \<in> set ?F. in_frame ?s i a then 0 else pmem k a)"
    using p(3) by (simp_all add: fresh_zeroed_def)
  have gin: "set ?G \<subseteq> {..<nframes ?s}" using live frames_used_eq [OF rep] by (auto simp: frames_used_def)
  have dis: "set ?F \<inter> set ?G = {}" using fr(2) live by blast
  have len: "length f1 = length g1" "length f2 = length g2" "length f3 = length g3"
    using p(2,4) own by (auto simp: as_owns_def same_layout_def n0_def)
  have fin: "set ?F \<subseteq> {..<nframes ?s}" using fr(2) by blast
  have sep: "\<not> in_frame ?s j a" if "i \<in> set xs" "j \<in> set ys" "in_frame ?s i a" "set xs \<inter> set ys = {}"
      "set xs \<subseteq> {..<nframes ?s}" "set ys \<subseteq> {..<nframes ?s}" for i j a xs ys
    using in_frame_unique [OF rep, of i j a] that by blast
  obtain m1 where m1: "copy_table (pmem k1) (Some (map (frame_addr ?s) f1)) (Some (map (frame_addr ?s) g1)) [0..<length f1] = Some m1"
      "same_pages ?s m1 f1 (pmem k1) g1" "\<And>a. \<forall>i \<in> set f1. \<not> in_frame ?s i a \<Longrightarrow> m1 a = pmem k1 a"
    using copy_table_ok [OF rep len(1), of "[]" "[]" "pmem k1"] fr(1) dis fin gin by auto
  obtain m2 where m2: "copy_table m1 (Some (map (frame_addr ?s) f2)) (Some (map (frame_addr ?s) g2)) [0..<length f2] = Some m2"
      "same_pages ?s m2 f2 m1 g2" "\<And>a. \<forall>i \<in> set f2. \<not> in_frame ?s i a \<Longrightarrow> m2 a = m1 a"
    using copy_table_ok [OF rep len(2), of "[]" "[]" m1] fr(1) dis fin gin by auto
  obtain m3 where m3: "copy_table m2 (Some (map (frame_addr ?s) f3)) (Some (map (frame_addr ?s) g3)) [0..<length f3] = Some m3"
      "same_pages ?s m3 f3 m2 g3" "\<And>a. \<forall>i \<in> set f3. \<not> in_frame ?s i a \<Longrightarrow> m3 a = m2 a"
    using copy_table_ok [OF rep len(3), of "[]" "[]" m2] fr(1) dis fin gin by auto
  let ?k = "k1\<lparr>pmem := m3\<rparr>"
  have unz: "pmem k1 a = pmem k a" if "\<forall>i \<in> set ?F. \<not> in_frame ?s i a" for a using that fr(6) by auto
  have old1: "m1 a = pmem k a" "m2 a = pmem k a" "m3 a = pmem k a" if "\<forall>i \<in> set ?F. \<not> in_frame ?s i a" for a
    using that m1(3) [of a] m2(3) [of a] m3(3) [of a] unz [of a] by auto
  have gF: "\<forall>i \<in> set ?F. \<not> in_frame ?s i a" if "j \<in> set ?G" "in_frame ?s j a" for j a
    using sep [of j ?G _ ?F a] that dis fin gin by blast
  have c: "as_copy True kmalloc (Some spt) k old = Some (Inr new, ?k)"
  proof -
    have eq: "as_npages1 new = as_npages1 old" "as_npages2 new = as_npages2 old" using p(4) by (simp_all add: same_layout_def n0_def)
    have "copy_table (pmem k1) (as_ptable1 new) (as_ptable1 old) [0..<unat (as_npages1 old)] = Some m1"
      "copy_table m1 (as_ptable2 new) (as_ptable2 old) [0..<unat (as_npages2 old)] = Some m2"
      "copy_table m2 (as_stackptable new) (as_stackptable old) [0..<DUMBVM_STACKPAGES] = Some m3"
      using m1(1) m2(1) m3(1) p(2) own fr(4) eq by (simp_all add: as_owns_def)
    moreover have "as_ptable1 new \<noteq> None" "as_ptable2 new \<noteq> None" "as_stackptable new \<noteq> None"
      using p(2) by (auto simp: as_owns_def)
    ultimately show ?thesis using p(1) unfolding as_copy_def as_create_def by (simp add: n0_def Let_def)
  qed
  have f12: "m2 a = m1 a" and f13: "m3 a = m2 a" if "i \<in> set f1" "in_frame ?s i a" for i a
  proof -
    have "set f1 \<inter> set f2 = {}" "set f1 \<inter> set f3 = {}" using fr(1) by auto
    then show "m2 a = m1 a" "m3 a = m2 a"
      using sep [OF that(1) _ that(2), of _ f2] sep [OF that(1) _ that(2), of _ f3] fin m2(3) m3(3) by auto
  qed
  have f23: "m3 a = m2 a" if "i \<in> set f2" "in_frame ?s i a" for i a
  proof -
    have "set f2 \<inter> set f3 = {}" using fr(1) by auto
    then show ?thesis using sep [OF that(1) _ that(2), of _ f3] fin m3(3) by auto
  qed
  have "same_pages ?s m3 f1 (pmem k) g1"
  proof (rule same_pages_trans [OF m1(2) len(1)])
    show "m3 a = m1 a" if "i \<in> set f1" "in_frame ?s i a" for a i using f12 [OF that] f13 [OF that] by simp
    show "pmem k1 a = pmem k a" if "i \<in> set g1" "in_frame ?s i a" for a i using unz [OF gF, of i a] that by simp
  qed
  moreover have "same_pages ?s m3 f2 (pmem k) g2"
  proof (rule same_pages_trans [OF m2(2) len(2)])
    show "m3 a = m2 a" if "i \<in> set f2" "in_frame ?s i a" for a i using f23 [OF that] .
    show "m1 a = pmem k a" if "i \<in> set g2" "in_frame ?s i a" for a i using old1(1) [OF gF, of i a] that by simp
  qed
  moreover have "same_pages ?s m3 f3 (pmem k) g3"
  proof (rule same_pages_trans [OF m3(2) len(3)])
    show "m2 a = pmem k a" if "i \<in> set g3" "in_frame ?s i a" for a i using old1(2) [OF gF, of i a] that by simp
  qed simp
  moreover have "same_layout new old" using p(4) by (simp add: same_layout_def n0_def)
  ultimately show ?thesis
    using c p(2,5) fr(1-5) old1(3)
    by (intro exI [of _ new] exI [of _ ?k] exI [of _ f1] exI [of _ f2] exI [of _ f3]) auto
qed

section \<open>Faults\<close>

text \<open>A loaded address space: both regions are there, page aligned and below the stack.\<close>

definition as_loaded :: "addrspace \<Rightarrow> bool" where
  "as_loaded as \<longleftrightarrow>
     as_vbase1 as \<noteq> 0 \<and> as_npages1 as \<noteq> 0 \<and> as_vbase2 as \<noteq> 0 \<and> as_npages2 as \<noteq> 0 \<and>
     unat (as_vbase1 as) mod PAGE_SIZE = 0 \<and> unat (as_vbase2 as) mod PAGE_SIZE = 0 \<and>
     unat (as_vbase1 as) + unat (as_npages1 as) * PAGE_SIZE \<le> unat USERSTACK \<and>
     unat (as_vbase2 as) + unat (as_npages2 as) * PAGE_SIZE \<le> unat USERSTACK"

text \<open>The frame of a user page, as the layout and the frames of an address space determine it.\<close>

definition frame_of_page :: "addrspace \<Rightarrow> nat list \<Rightarrow> nat list \<Rightarrow> nat list \<Rightarrow> vaddr \<Rightarrow> nat option" where
  "frame_of_page as fs1 fs2 fs3 va =
     (let a = unat va; b1 = unat (as_vbase1 as); b2 = unat (as_vbase2 as);
          sb = unat USERSTACK - DUMBVM_STACKPAGES * PAGE_SIZE in
      if b1 \<le> a \<and> a < b1 + unat (as_npages1 as) * PAGE_SIZE then Some (fs1 ! ((a - b1) div PAGE_SIZE))
      else if b2 \<le> a \<and> a < b2 + unat (as_npages2 as) * PAGE_SIZE then Some (fs2 ! ((a - b2) div PAGE_SIZE))
      else if sb \<le> a \<and> a < unat USERSTACK then Some (fs3 ! ((a - sb) div PAGE_SIZE))
      else None)"

lemma region_top:
  fixes b n :: u32
  assumes "unat b + unat n * 4096 \<le> 2147483648"
  shows "unat (b + n * 4096) = unat b + unat n * 4096"
proof -
  have "unat (n * 4096) = unat n * 4096" using assms by (simp add: unat_word_ariths)
  then show ?thesis using assms by (subst unat_add_lem [THEN iffD1]) simp_all
qed

lemma table_lookup:
  fixes va b :: u32
  assumes "unat va mod 4096 = 0" "unat b mod 4096 = 0" "unat b \<le> unat va" "unat va < unat b + length fs * 4096"
    "unat b + length fs * 4096 \<le> 2147483648"
  shows "idx_int (map f fs) (sint (va - b) div 4096) = Some (f (fs ! ((unat va - unat b) div 4096)))"
    and "sint (va - b) mod 4096 = 0"
proof -
  have "va - b = of_nat (unat va - unat b)" using assms(3) by (simp add: of_nat_diff)
  then have o: "sint (va - b) = int (unat va - unat b)"
    using sint_of_nat_u32 [of "unat va - unat b"] assms(4,5) by simp
  have e: "int (unat va - unat b) div 4096 = int ((unat va - unat b) div 4096)"
    using zdiv_int [of "unat va - unat b" 4096] by simp
  have "(unat va - unat b) div 4096 < length fs" using assms(3,4) by (simp add: less_mult_imp_div_less)
  then show "idx_int (map f fs) (sint (va - b) div 4096) = Some (f (fs ! ((unat va - unat b) div 4096)))"
    unfolding o e by (simp add: idx_int_def idx_def)
  have "(unat va - unat b) mod 4096 = 0" using assms(1,2,3) by (metis dvd_diff_nat mod_0_imp_dvd mod_eq_0_iff_dvd)
  then show "sint (va - b) mod 4096 = 0" using zmod_int [of "unat va - unat b" 4096] unfolding o by simp
qed

lemma vm_translate_spec:
  assumes own: "as_owns s as fs1 fs2 fs3" and ld: "as_loaded as" and al: "unat va mod 4096 = 0"
  shows "vm_translate as va =
    (case frame_of_page as fs1 fs2 fs3 va of None \<Rightarrow> Some (Inl EFAULT) | Some f \<Rightarrow> Some (Inr (frame_addr s f)))"
proof -
  have U: "unat USERSTACK = 2147483648" by (simp add: USERSTACK_def MIPS_KSEG0_def)
  let ?sb = "USERSTACK - of_nat DUMBVM_STACKPAGES * 4096 :: u32"
  have sb: "unat ?sb = 2147434496" by (simp add: USERSTACK_def MIPS_KSEG0_def DUMBVM_STACKPAGES_def)
  have t1: "unat (as_vbase1 as + as_npages1 as * 4096) = unat (as_vbase1 as) + unat (as_npages1 as) * 4096"
    and t2: "unat (as_vbase2 as + as_npages2 as * 4096) = unat (as_vbase2 as) + unat (as_npages2 as) * 4096"
    using ld U by (auto simp: as_loaded_def intro!: region_top)
  note own' = own [unfolded as_owns_def]
  note L1 = table_lookup(1) [of va "as_vbase1 as" fs1 "frame_addr s"] table_lookup(2) [of va "as_vbase1 as" fs1]
  note L2 = table_lookup(1) [of va "as_vbase2 as" fs2 "frame_addr s"] table_lookup(2) [of va "as_vbase2 as" fs2]
  note L3 = table_lookup(1) [of va ?sb fs3 "frame_addr s"] table_lookup(2) [of va ?sb fs3]
  let ?in1 = "unat (as_vbase1 as) \<le> unat va \<and> unat va < unat (as_vbase1 as) + unat (as_npages1 as) * 4096"
  let ?in2 = "unat (as_vbase2 as) \<le> unat va \<and> unat va < unat (as_vbase2 as) + unat (as_npages2 as) * 4096"
  let ?in3 = "2147434496 \<le> unat va \<and> unat va < 2147483648"
  have w: "(as_vbase1 as \<le> va \<and> va < as_vbase1 as + as_npages1 as * 4096) = ?in1"
    "(as_vbase2 as \<le> va \<and> va < as_vbase2 as + as_npages2 as * 4096) = ?in2"
    "(?sb \<le> va \<and> va < USERSTACK) = ?in3"
    using t1 t2 sb U by (simp_all add: word_le_nat_alt word_less_nat_alt)
  have n: "2147483648 - DUMBVM_STACKPAGES * 4096 = 2147434496" by (simp add: DUMBVM_STACKPAGES_def)
  have e1: "as_ptable1 as \<bind> (\<lambda>pt. idx_int pt (sint (va - as_vbase1 as) div 4096) \<bind>
      (\<lambda>f. Some (Inr (f + word_of_int (sint (va - as_vbase1 as) mod 4096))))) =
      Some (Inr (frame_addr s (fs1 ! ((unat va - unat (as_vbase1 as)) div 4096))) :: errno + paddr)" if ?in1
    using that L1 al ld own' U by (simp add: as_loaded_def)
  have e2: "as_ptable2 as \<bind> (\<lambda>pt. idx_int pt (sint (va - as_vbase2 as) div 4096) \<bind>
      (\<lambda>f. Some (Inr (f + word_of_int (sint (va - as_vbase2 as) mod 4096))))) =
      Some (Inr (frame_addr s (fs2 ! ((unat va - unat (as_vbase2 as)) div 4096))) :: errno + paddr)" if ?in2
    using that L2 al ld own' U by (simp add: as_loaded_def)
  have e3: "as_stackptable as \<bind> (\<lambda>pt. idx_int pt (sint (va - ?sb) div 4096) \<bind>
      (\<lambda>f. Some (Inr (f + word_of_int (sint (va - ?sb) mod 4096))))) =
      Some (Inr (frame_addr s (fs3 ! ((unat va - 2147434496) div 4096))) :: errno + paddr)" if ?in3
    using that L3 al own' sb by (simp add: DUMBVM_STACKPAGES_def)
  show ?thesis
    unfolding vm_translate_def frame_of_page_def Let_def w U n using e1 e2 e3
    by (cases ?in1; cases ?in2; cases ?in3) (simp_all only: if_True if_False option.case simp_thms)
qed

lemma tlb_free_slot_spec:
  assumes "length t = n" "a \<le> n"
  shows "(tlb_free_slot t [a..<n] = Some None \<and> (\<forall>i. a \<le> i \<longrightarrow> i < n \<longrightarrow> snd (t ! i) AND TLBLO_VALID \<noteq> 0)) \<or>
    (\<exists>i. a \<le> i \<and> i < n \<and> tlb_free_slot t [a..<n] = Some (Some i) \<and> snd (t ! i) AND TLBLO_VALID = 0)"
  using assms(2)
proof (induction "n - a" arbitrary: a)
  case (Suc m)
  then have a: "a < n" by simp
  have step: "tlb_free_slot t [a..<n] =
      (if snd (t ! a) AND TLBLO_VALID \<noteq> 0 then tlb_free_slot t [Suc a..<n] else Some (Some a))"
    using a assms(1) by (simp add: upt_rec [of a] idx_def split: prod.split)
  have IH: "(tlb_free_slot t [Suc a..<n] = Some None \<and> (\<forall>i. Suc a \<le> i \<longrightarrow> i < n \<longrightarrow> snd (t ! i) AND TLBLO_VALID \<noteq> 0)) \<or>
    (\<exists>i. Suc a \<le> i \<and> i < n \<and> tlb_free_slot t [Suc a..<n] = Some (Some i) \<and> snd (t ! i) AND TLBLO_VALID = 0)"
    using Suc by simp
  show ?case
  proof (cases "snd (t ! a) AND TLBLO_VALID = 0")
    case True
    then show ?thesis using step a by (intro disjI2 exI [of _ a]) simp
  next
    case False
    have split: "a \<le> i \<longleftrightarrow> i = a \<or> Suc a \<le> i" for i by auto
    from IH show ?thesis
    proof (elim disjE conjE exE)
      assume "tlb_free_slot t [Suc a..<n] = Some None"
        "\<forall>i. Suc a \<le> i \<longrightarrow> i < n \<longrightarrow> snd (t ! i) AND TLBLO_VALID \<noteq> 0"
      then show ?thesis using step False unfolding split by (intro disjI1) simp
    next
      fix i assume "Suc a \<le> i" "i < n" "tlb_free_slot t [Suc a..<n] = Some (Some i)" "snd (t ! i) AND TLBLO_VALID = 0"
      then show ?thesis using step False by (intro disjI2 exI [of _ i]) simp
    qed
  qed
qed simp

lemma frame_addr_aligned: "cm_rep s B \<Longrightarrow> i \<le> nframes s \<Longrightarrow> frame_addr s i AND PAGE_FRAME = frame_addr s i"
  unfolding PAGE_FRAME_aligned using frame_addr_unat [of s B i] cm_repD(7) [of s B] by simp

lemma frame_of_page_in:
  assumes "as_owns s as fs1 fs2 fs3" "frame_of_page as fs1 fs2 fs3 va = Some f"
  shows "f \<in> set (fs1 @ fs2 @ fs3)"
proof -
  have lt: "(a - b) div 4096 < n" if "b \<le> a" "a < b + n * 4096" for a b n :: nat
    using that by (simp add: less_mult_imp_div_less)
  have "unat USERSTACK - DUMBVM_STACKPAGES * 4096 + DUMBVM_STACKPAGES * 4096 = unat USERSTACK"
    by (simp add: USERSTACK_def MIPS_KSEG0_def DUMBVM_STACKPAGES_def)
  then show ?thesis
    using assms lt unfolding as_owns_def frame_of_page_def Let_def
    by (auto split: if_splits simp: nth_mem)
qed

lemma vm_fault_success:
  assumes rep: "cm_rep (vm k) B" and own: "as_owns (vm k) as fs1 fs2 fs3" and ld: "as_loaded as"
    and fr: "set (fs1 @ fs2 @ fs3) \<subseteq> {..<nframes (vm k)}"
    and t: "length (tlb k) = NUM_TLB" "slot < NUM_TLB"
    and ft: "faulttype = VM_FAULT_READ \<or> faulttype = VM_FAULT_WRITE"
    and f: "frame_of_page as fs1 fs2 fs3 (va AND PAGE_FRAME) = Some f"
  shows "\<exists>i < NUM_TLB. vm_fault (Some (Some as)) slot k faulttype va =
      Some (0, k\<lparr>tlb := (tlb k)[i := (va AND PAGE_FRAME, tlb_elo as (va AND PAGE_FRAME) (frame_addr (vm k) f))]\<rparr>) \<and>
    (snd (tlb k ! i) AND TLBLO_VALID = 0 \<or>
     i = slot \<and> (\<forall>j < NUM_TLB. snd (tlb k ! j) AND TLBLO_VALID \<noteq> 0))"
proof -
  have al: "unat (va AND PAGE_FRAME) mod 4096 = 0" unfolding unat_PAGE_FRAME by simp
  have tr: "vm_translate as (va AND PAGE_FRAME) = Some (Inr (frame_addr (vm k) f))"
    using vm_translate_spec [OF own ld al] f by simp
  have "f < nframes (vm k)" using frame_of_page_in [OF own f] fr by auto
  then have fa: "frame_addr (vm k) f AND PAGE_FRAME = frame_addr (vm k) f" using frame_addr_aligned [OF rep] by simp
  have tabs: "as_ptable1 as \<noteq> None" "as_ptable2 as \<noteq> None" "as_stackptable as \<noteq> None"
    using own by (auto simp: as_owns_def)
  have ld': "as_vbase1 as \<noteq> 0" "as_npages1 as \<noteq> 0" "as_vbase2 as \<noteq> 0" "as_npages2 as \<noteq> 0"
    "as_vbase1 as AND PAGE_FRAME = as_vbase1 as" "as_vbase2 as AND PAGE_FRAME = as_vbase2 as"
    using ld unfolding as_loaded_def PAGE_FRAME_aligned by simp_all
  have ft': "faulttype \<noteq> VM_FAULT_READONLY"
    using ft by (auto simp: VM_FAULT_READ_def VM_FAULT_WRITE_def VM_FAULT_READONLY_def)
  have run: "vm_fault (Some (Some as)) slot k faulttype va =
      Some (0, k\<lparr>tlb := (tlb k)[i := (va AND PAGE_FRAME, tlb_elo as (va AND PAGE_FRAME) (frame_addr (vm k) f))]\<rparr>)"
    if "tlb_free_slot (tlb k) [0..<NUM_TLB] = Some free" "i = (case free of Some i \<Rightarrow> i | None \<Rightarrow> slot)" "i < NUM_TLB" for free i
    using that ft ft' ld' tabs tr fa t(1) by (auto simp: vm_fault_def Let_def upd_def)
  from tlb_free_slot_spec [OF t(1) le0] show ?thesis
  proof (elim disjE conjE exE)
    assume "tlb_free_slot (tlb k) [0..<NUM_TLB] = Some None"
      "\<forall>i. 0 \<le> i \<longrightarrow> i < NUM_TLB \<longrightarrow> snd (tlb k ! i) AND TLBLO_VALID \<noteq> 0"
    then show ?thesis using run [of None slot] t(2) by (intro exI [of _ slot]) simp
  next
    fix i assume "i < NUM_TLB" "tlb_free_slot (tlb k) [0..<NUM_TLB] = Some (Some i)" "snd (tlb k ! i) AND TLBLO_VALID = 0"
    then show ?thesis using run [of "Some i" i] by (intro exI [of _ i]) simp
  qed
qed

lemma flag_bits:
  "bit TLBLO_DIRTY n \<longleftrightarrow> n = 10" "bit TLBLO_VALID n \<longleftrightarrow> n = 9" "bit PAGE_FRAME n \<longleftrightarrow> 12 \<le> n \<and> n < 32"
proof -
  have e: "TLBLO_DIRTY = 2 ^ 10" "TLBLO_VALID = 2 ^ 9" by (simp_all add: TLBLO_DIRTY_def TLBLO_VALID_def)
  show "bit TLBLO_DIRTY n \<longleftrightarrow> n = 10" "bit TLBLO_VALID n \<longleftrightarrow> n = 9"
    unfolding e bit_exp_iff by auto
  show "bit PAGE_FRAME n \<longleftrightarrow> 12 \<le> n \<and> n < 32" unfolding PAGE_FRAME_mask by (auto simp: bit_simps)
qed

definition in_text :: "addrspace \<Rightarrow> vaddr \<Rightarrow> bool" where
  "in_text as va \<longleftrightarrow> as_vbase1 as \<le> va \<and> va < as_vbase1 as + as_npages1 as * 4096"

lemma tlb_elo_flags:
  assumes "p AND PAGE_FRAME = p"
  shows "tlb_elo as va p AND PAGE_FRAME = p" "tlb_elo as va p AND TLBLO_VALID \<noteq> 0"
    "tlb_elo as va p AND TLBLO_DIRTY = 0 \<longleftrightarrow> in_text as va \<and> loadCode_done as = 1"
proof -
  have p: "bit p n \<Longrightarrow> 12 \<le> n" for n using assms by (metis bit_and_iff flag_bits(3))
  let ?e = "tlb_elo as va p"
  have b: "bit ?e n \<longleftrightarrow> bit p n \<or> n = 9 \<or> n = 10 \<and> \<not> (in_text as va \<and> loadCode_done as = 1)" for n
    unfolding tlb_elo_def in_text_def Let_def using p [of n]
    by (auto simp: bit_or_iff bit_and_iff bit_not_iff flag_bits dest: bit_imp_le_length)
  show "?e AND PAGE_FRAME = p"
    by (rule bit_word_eqI) (use p in \<open>auto simp: bit_and_iff b flag_bits dest: bit_imp_le_length\<close>)
  show "?e AND TLBLO_VALID \<noteq> 0"
    using b [of 9] by (metis bit_and_iff flag_bits(2) bit_0_eq bot_apply bot_bool_def)
  have "?e AND TLBLO_DIRTY = 0 \<longleftrightarrow> \<not> bit ?e 10"
    using and_exp_eq_0 [of ?e 10] by (simp add: TLBLO_DIRTY_def)
  then show "?e AND TLBLO_DIRTY = 0 \<longleftrightarrow> in_text as va \<and> loadCode_done as = 1"
    unfolding b using p [of 10] by auto
qed

section \<open>Properties\<close>

text \<open>A machine with thirty frames and a process image of one text and one data page.\<close>

definition demo_mem :: kmem where
  "demo_mem = \<lparr>vm = vm_bootstrap \<lparr>vm_ram = \<lparr>firstpaddr = 0x2F00, lastpaddr = 0x21000\<rparr>,
       core_map = \<lparr>baseAddr = 0, inUse = [], containNext = [], cm_size = 0\<rparr>,
       iscmapCreated = False, addr_lo = 0, addr_hi = 0\<rparr>,
     pmem = (\<lambda>_. 0xff), tlb = replicate 64 (0, 0)\<rparr>"

definition demo_as :: addrspace where
  "demo_as = \<lparr>as_vbase1 = 0x400000, as_vbase2 = 0x10000000, as_npages1 = 1, as_npages2 = 1, loadCode_done = 1,
     as_ptable1 = Some [0], as_ptable2 = Some [0], as_stackptable = None\<rparr>"

definition demo_kmalloc :: "u32 \<Rightarrow> paddr list option" where
  "demo_kmalloc n = Some (replicate (unat n) 0)"

lemma demo_mem_rep: "cm_rep (vm demo_mem) Map.empty" "nframes (vm demo_mem) = 30" "tlb demo_mem = replicate 64 (0, 0)"
proof -
  let ?s = "\<lparr>vm_ram = \<lparr>firstpaddr = 0x2F00, lastpaddr = 0x21000\<rparr>,
       core_map = \<lparr>baseAddr = 0, inUse = [], containNext = [], cm_size = 0\<rparr>,
       iscmapCreated = False, addr_lo = 0, addr_hi = 0\<rparr>"
  show "cm_rep (vm demo_mem) Map.empty" using vm_bootstrap_spec [of ?s] by (simp add: demo_mem_def)
  show "nframes (vm demo_mem) = 30"
    by (simp add: demo_mem_def vm_bootstrap_def ram_getsize_def align_page.simps)
  show "tlb demo_mem = replicate 64 (0, 0)" by (simp add: demo_mem_def)
qed

lemma demo_as_facts: "as_tables demo_as" "as_loaded demo_as" "as_pages demo_as = 14"
  "loadCode_done demo_as = 1" "DUMBVM_STACKPAGES = 12"
  by (simp_all add: as_tables_def as_loaded_def demo_as_def DUMBVM_STACKPAGES_def USERSTACK_def MIPS_KSEG0_def)

lemma frames_empty [simp]: "frames Map.empty = {}"
  by (simp add: frames_def)

lemma same_layout_loaded: "same_layout a b \<Longrightarrow> as_loaded a = as_loaded b" "same_layout a b \<Longrightarrow> as_pages a = as_pages b"
  by (simp_all add: same_layout_def as_loaded_def)

lemma demo_loaded:
  "\<exists>as k fs1 fs2 fs3. as_prepare_load (Some (replicate 12 0)) demo_mem demo_as = Some (Inr (), as, k) \<and>
     as_owns (vm k) as fs1 fs2 fs3 \<and> as_loaded as \<and> loadCode_done as = 1 \<and> same_layout as demo_as \<and>
     cm_rep (vm k) (add_frames Map.empty (fs1 @ fs2 @ fs3)) \<and> distinct (fs1 @ fs2 @ fs3) \<and>
     set (fs1 @ fs2 @ fs3) \<subseteq> {..<30} \<and> frames (add_frames Map.empty (fs1 @ fs2 @ fs3)) = set (fs1 @ fs2 @ fs3) \<and>
     nframes (vm k) = 30 \<and> tlb k = replicate 64 (0, 0) \<and> length (fs1 @ fs2 @ fs3) = 14"
proof -
  have sl: "length (replicate 12 (0 :: paddr)) = DUMBVM_STACKPAGES" by (simp add: DUMBVM_STACKPAGES_def)
  have room: "card (frames Map.empty) + as_pages demo_as \<le> nframes (vm demo_mem)"
    unfolding demo_mem_rep(2) demo_as_facts(3) by simp
  obtain as k fs1 fs2 fs3 where *: "as_prepare_load (Some (replicate 12 0)) demo_mem demo_as = Some (Inr (), as, k)"
     "as_owns (vm k) as fs1 fs2 fs3" "fresh_zeroed demo_mem Map.empty (fs1 @ fs2 @ fs3) k" "same_layout as demo_as"
     "loadCode_done as = loadCode_done demo_as"
    using as_prepare_load_ok [OF demo_mem_rep(1) demo_as_facts(1) sl room] by blast
  have "length (fs1 @ fs2 @ fs3) = as_pages as" using *(2) by (simp add: as_owns_def)
  then have "length (fs1 @ fs2 @ fs3) = 14" using same_layout_loaded(2) [OF *(4)] demo_as_facts(3) by simp
  moreover have "frames (add_frames Map.empty (fs1 @ fs2 @ fs3)) = set (fs1 @ fs2 @ fs3)"
    using fresh_zeroed_frames [OF demo_mem_rep(1) *(3)] by simp
  ultimately show ?thesis
    using * same_layout_loaded(1) [OF *(4)] demo_as_facts demo_mem_rep unfolding fresh_zeroed_def by auto
qed

text \<open>C4: Address translation. For a read or write fault in a loaded address space, \<open>vm_fault\<close> succeeds
  iff the page lies in the text region, the data region or the stack; it then installs one TLB entry
  for that page, valid, with the frame of the page table, writable unless the page is text of a
  loaded program, in a slot that was invalid if there was one and in the random slot otherwise; no
  other entry changes. For any other address it returns EFAULT and changes nothing.\<close>

theorem vm_fault_maps_page:
  assumes "cm_rep (vm k) B" "as_owns (vm k) as fs1 fs2 fs3" "as_loaded as"
    "set (fs1 @ fs2 @ fs3) \<subseteq> {..<nframes (vm k)}" "length (tlb k) = NUM_TLB" "slot < NUM_TLB"
    "faulttype = VM_FAULT_READ \<or> faulttype = VM_FAULT_WRITE"
  shows "case frame_of_page as fs1 fs2 fs3 (va AND PAGE_FRAME) of
      None \<Rightarrow> vm_fault (Some (Some as)) slot k faulttype va = Some (errno_code EFAULT, k)
    | Some f \<Rightarrow> \<exists>i elo. i < NUM_TLB \<and>
        vm_fault (Some (Some as)) slot k faulttype va = Some (0, k\<lparr>tlb := (tlb k)[i := (va AND PAGE_FRAME, elo)]\<rparr>) \<and>
        elo AND PAGE_FRAME = frame_addr (vm k) f \<and> elo AND TLBLO_VALID \<noteq> 0 \<and>
        (elo AND TLBLO_DIRTY = 0) = (in_text as (va AND PAGE_FRAME) \<and> loadCode_done as = 1) \<and>
        (snd (tlb k ! i) AND TLBLO_VALID = 0 \<or> i = slot \<and> (\<forall>j < NUM_TLB. snd (tlb k ! j) AND TLBLO_VALID \<noteq> 0))"
proof (cases "frame_of_page as fs1 fs2 fs3 (va AND PAGE_FRAME)")
  case None
  have "unat (va AND PAGE_FRAME) mod 4096 = 0" unfolding unat_PAGE_FRAME by simp
  from vm_translate_spec [OF assms(2,3) this] None
  have tr: "vm_translate as (va AND PAGE_FRAME) = Some (Inl EFAULT)" by simp
  have ft: "faulttype \<noteq> VM_FAULT_READONLY" using assms(7) by (auto simp: VM_FAULT_READ_def VM_FAULT_WRITE_def VM_FAULT_READONLY_def)
  have ok: "as_vbase1 as \<noteq> 0" "as_npages1 as \<noteq> 0" "as_vbase2 as \<noteq> 0" "as_npages2 as \<noteq> 0"
    "as_vbase1 as AND PAGE_FRAME = as_vbase1 as" "as_vbase2 as AND PAGE_FRAME = as_vbase2 as"
    using assms(3) unfolding as_loaded_def PAGE_FRAME_aligned by simp_all
  have "as_ptable1 as \<noteq> None" "as_ptable2 as \<noteq> None" "as_stackptable as \<noteq> None" using assms(2) by (auto simp: as_owns_def)
  then show ?thesis using None tr ft ok assms(7) by (auto simp: vm_fault_def Let_def)
next
  case (Some f)
  have "f < nframes (vm k)" using frame_of_page_in [OF assms(2) Some] assms(4) by auto
  then have fa: "frame_addr (vm k) f AND PAGE_FRAME = frame_addr (vm k) f" using frame_addr_aligned [OF assms(1)] by simp
  obtain i where "i < NUM_TLB" "vm_fault (Some (Some as)) slot k faulttype va =
      Some (0, k\<lparr>tlb := (tlb k)[i := (va AND PAGE_FRAME, tlb_elo as (va AND PAGE_FRAME) (frame_addr (vm k) f))]\<rparr>)"
    "snd (tlb k ! i) AND TLBLO_VALID = 0 \<or> i = slot \<and> (\<forall>j < NUM_TLB. snd (tlb k ! j) AND TLBLO_VALID \<noteq> 0)"
    using vm_fault_success [OF assms Some] by blast
  then show ?thesis using Some tlb_elo_flags [OF fa, of as "va AND PAGE_FRAME"]
    by (simp only: option.case) blast
qed

theorem vm_fault_maps_page_witness:
  "\<exists>as k k'. as_prepare_load (Some (replicate 12 0)) demo_mem demo_as = Some (Inr (), as, k) \<and>
     vm_fault (Some (Some as)) 5 k VM_FAULT_READ 0x400123 = Some (0, k') \<and>
     vm_fault (Some (Some as)) 5 k VM_FAULT_READ 0x30000000 = Some (errno_code EFAULT, k)"
proof -
  obtain as k fs1 fs2 fs3 where *: "as_prepare_load (Some (replicate 12 0)) demo_mem demo_as = Some (Inr (), as, k)"
     "as_owns (vm k) as fs1 fs2 fs3" "as_loaded as" "same_layout as demo_as"
     "cm_rep (vm k) (add_frames Map.empty (fs1 @ fs2 @ fs3))" "set (fs1 @ fs2 @ fs3) \<subseteq> {..<nframes (vm k)}"
     "length (tlb k) = NUM_TLB"
    using demo_loaded by (fastforce simp: NUM_TLB_def)
  have "as_vbase1 as = 0x400000" "as_vbase2 as = 0x10000000" "as_npages1 as = 1" "as_npages2 as = 1"
    using *(4) by (simp_all add: same_layout_def demo_as_def)
  then have f: "frame_of_page as fs1 fs2 fs3 (0x400123 AND PAGE_FRAME) = Some (fs1 ! 0)"
    "frame_of_page as fs1 fs2 fs3 (0x30000000 AND PAGE_FRAME) = None"
    by (simp_all add: frame_of_page_def PAGE_FRAME_def USERSTACK_def MIPS_KSEG0_def DUMBVM_STACKPAGES_def)
  have s: "5 < NUM_TLB" by (simp add: NUM_TLB_def)
  from vm_fault_maps_page [OF *(5,2,3,6,7) s, of VM_FAULT_READ "0x400123"]
    vm_fault_maps_page [OF *(5,2,3,6,7) s, of VM_FAULT_READ "0x30000000"] *(1) f
  show ?thesis by auto
qed

text \<open>C5: Copying an address space, as fork does. With memory available, \<open>as_copy\<close> returns an address
  space with the same layout, backed by frames that were free before and so belong to nobody else,
  whose pages hold exactly the bytes of the original's pages; no byte outside the new frames
  changes, and destroying the copy gives back exactly its frames.\<close>

theorem as_copy_isolated:
  assumes "cm_rep (vm k) B" "as_owns (vm k) old g1 g2 g3" "set (g1 @ g2 @ g3) \<subseteq> frames B"
    "\<forall>n. \<exists>pt. kmalloc n = Some pt \<and> length pt = unat n" "length spt = DUMBVM_STACKPAGES"
    "card (frames B) + as_pages old \<le> nframes (vm k)"
  shows "\<exists>new k' f1 f2 f3. as_copy True kmalloc (Some spt) k old = Some (Inr new, k') \<and> same_layout new old \<and>
     as_owns (vm k') new f1 f2 f3 \<and> distinct (f1 @ f2 @ f3) \<and> set (f1 @ f2 @ f3) \<inter> frames B = {} \<and>
     same_pages (vm k) (pmem k') (f1 @ f2 @ f3) (pmem k) (g1 @ g2 @ g3) \<and>
     (\<forall>a. (\<forall>i \<in> set (f1 @ f2 @ f3). \<not> in_frame (vm k) i a) \<longrightarrow> pmem k' a = pmem k a) \<and>
     (\<exists>s'. as_destroy k' new = Some (k'\<lparr>vm := s'\<rparr>) \<and> cm_rep s' B)"
proof -
  have mem: "\<And>n. \<exists>pt. kmalloc n = Some pt \<and> length pt = unat n" using assms(4) by blast
  obtain new k' f1 f2 f3 where *: "as_copy True kmalloc (Some spt) k old = Some (Inr new, k')"
     "as_owns (vm k') new f1 f2 f3" "cm_rep (vm k') (add_frames B (f1 @ f2 @ f3))"
     "distinct (f1 @ f2 @ f3)" "set (f1 @ f2 @ f3) \<subseteq> {..<nframes (vm k)} - frames B" "same_layout new old"
     "same_pages (vm k) (pmem k') f1 (pmem k) g1" "same_pages (vm k) (pmem k') f2 (pmem k) g2"
     "same_pages (vm k) (pmem k') f3 (pmem k) g3"
     "\<forall>a. (\<forall>i \<in> set (f1 @ f2 @ f3). \<not> in_frame (vm k) i a) \<longrightarrow> pmem k' a = pmem k a"
    using as_copy_ok [OF assms(1-3) mem assms(5,6)] by blast
  have len: "length f1 = length g1" "length f2 = length g2"
    using *(2,6) assms(2) by (auto simp: as_owns_def same_layout_def)
  have pages: "same_pages (vm k) (pmem k') (f1 @ f2 @ f3) (pmem k) (g1 @ g2 @ g3)"
    using *(7-9) len unfolding same_pages_def by (auto simp: nth_append less_diff_conv2 not_less)
  have one: "add_frames B (f1 @ f2 @ f3) i = Some 1" if "i \<in> set (f1 @ f2 @ f3)" for i
    using that by (simp only: add_frames_def if_True)
  have none: "B i = None" if "i \<in> set (f1 @ f2 @ f3)" for i
    using blocks_wf_None [OF cm_repD(10) [OF assms(1)], of i] *(5) that by blast
  have "drop_frames (add_frames B (f1 @ f2 @ f3)) (f1 @ f2 @ f3) = B"
    unfolding drop_frames_def add_frames_def using none by fastforce
  then obtain s' where "as_destroy k' new = Some (k'\<lparr>vm := s'\<rparr>)" "cm_rep s' B"
    using as_destroy_ok [OF *(3,2,4) one] by auto
  moreover have "set (f1 @ f2 @ f3) \<inter> frames B = {}" using *(5) by blast
  ultimately show ?thesis using *(1,2,4,6,10) pages by blast
qed

lemma demo_copy_args:
  "\<forall>n. \<exists>pt. demo_kmalloc n = Some pt \<and> length pt = unat n" "length (replicate 12 (0 :: paddr)) = DUMBVM_STACKPAGES"
  by (simp_all add: demo_kmalloc_def DUMBVM_STACKPAGES_def)

theorem as_copy_isolated_witness:
  "\<exists>as k new k'. as_prepare_load (Some (replicate 12 0)) demo_mem demo_as = Some (Inr (), as, k) \<and>
     as_copy True demo_kmalloc (Some (replicate 12 0)) k as = Some (Inr new, k') \<and> same_layout new as"
proof -
  obtain as k fs1 fs2 fs3 where *: "as_prepare_load (Some (replicate 12 0)) demo_mem demo_as = Some (Inr (), as, k)"
     "as_owns (vm k) as fs1 fs2 fs3" "same_layout as demo_as"
     "cm_rep (vm k) (add_frames Map.empty (fs1 @ fs2 @ fs3))" "distinct (fs1 @ fs2 @ fs3)" "nframes (vm k) = 30"
     "frames (add_frames Map.empty (fs1 @ fs2 @ fs3)) = set (fs1 @ fs2 @ fs3)" "length (fs1 @ fs2 @ fs3) = 14"
    using demo_loaded by blast
  have "card (frames (add_frames Map.empty (fs1 @ fs2 @ fs3))) = 14" using *(5,7,8) by (metis distinct_card)
  then have room: "card (frames (add_frames Map.empty (fs1 @ fs2 @ fs3))) + as_pages as \<le> nframes (vm k)"
    using same_layout_loaded(2) [OF *(3)] demo_as_facts(3) *(6) by simp
  have live: "set (fs1 @ fs2 @ fs3) \<subseteq> frames (add_frames Map.empty (fs1 @ fs2 @ fs3))" using *(7) by simp
  from as_copy_isolated [OF *(4,2) live demo_copy_args room] *(1) show ?thesis by blast
qed

text \<open>C39: The copy is not exact: \<open>loadCode_done\<close> is not copied. A page of text that is mapped read-only
  in the parent is mapped writable in the child.\<close>

theorem as_copy_text_writable:
  assumes "cm_rep (vm k) B" "as_owns (vm k) old g1 g2 g3" "set (g1 @ g2 @ g3) \<subseteq> frames B"
    "\<forall>n. \<exists>pt. kmalloc n = Some pt \<and> length pt = unat n" "length spt = DUMBVM_STACKPAGES"
    "card (frames B) + as_pages old \<le> nframes (vm k)" "loadCode_done old = 1" "in_text old va"
  shows "\<exists>new k'. as_copy True kmalloc (Some spt) k old = Some (Inr new, k') \<and> in_text new va \<and>
     (\<forall>p. p AND PAGE_FRAME = p \<longrightarrow> tlb_elo old va p AND TLBLO_DIRTY = 0 \<and> tlb_elo new va p AND TLBLO_DIRTY \<noteq> 0)"
proof -
  have mem: "\<And>n. \<exists>pt. kmalloc n = Some pt \<and> length pt = unat n" using assms(4) by blast
  obtain new k' where c: "as_copy True kmalloc (Some spt) k old = Some (Inr new, k')" "same_layout new old" "loadCode_done new = 0"
    using as_copy_ok [OF assms(1-3) mem assms(5,6)] by blast
  have t: "in_text new va" using assms(8) c(2) by (simp add: in_text_def same_layout_def)
  have "tlb_elo old va p AND TLBLO_DIRTY = 0 \<and> tlb_elo new va p AND TLBLO_DIRTY \<noteq> 0" if "p AND PAGE_FRAME = p" for p
    using tlb_elo_flags(3) [OF that, of old va] tlb_elo_flags(3) [OF that, of new va] assms(7,8) c(3) by simp
  then show ?thesis using c(1) t by blast
qed

theorem as_copy_text_writable_witness:
  "\<exists>as k new k'. as_prepare_load (Some (replicate 12 0)) demo_mem demo_as = Some (Inr (), as, k) \<and>
     as_copy True demo_kmalloc (Some (replicate 12 0)) k as = Some (Inr new, k') \<and>
     tlb_elo as 0x400000 0x3000 AND TLBLO_DIRTY = 0 \<and> tlb_elo new 0x400000 0x3000 AND TLBLO_DIRTY \<noteq> 0"
proof -
  obtain as k fs1 fs2 fs3 where *: "as_prepare_load (Some (replicate 12 0)) demo_mem demo_as = Some (Inr (), as, k)"
     "as_owns (vm k) as fs1 fs2 fs3" "same_layout as demo_as"
     "cm_rep (vm k) (add_frames Map.empty (fs1 @ fs2 @ fs3))" "distinct (fs1 @ fs2 @ fs3)" "nframes (vm k) = 30"
     "frames (add_frames Map.empty (fs1 @ fs2 @ fs3)) = set (fs1 @ fs2 @ fs3)" "length (fs1 @ fs2 @ fs3) = 14"
     "loadCode_done as = 1"
    using demo_loaded by blast
  have "card (frames (add_frames Map.empty (fs1 @ fs2 @ fs3))) = 14" using *(5,7,8) by (metis distinct_card)
  then have room: "card (frames (add_frames Map.empty (fs1 @ fs2 @ fs3))) + as_pages as \<le> nframes (vm k)"
    using same_layout_loaded(2) [OF *(3)] demo_as_facts(3) *(6) by simp
  have live: "set (fs1 @ fs2 @ fs3) \<subseteq> frames (add_frames Map.empty (fs1 @ fs2 @ fs3))" using *(7) by simp
  have t: "in_text as 0x400000" using *(3) by (simp add: in_text_def same_layout_def demo_as_def)
  have p: "(0x3000 :: u32) AND PAGE_FRAME = 0x3000" by (simp add: PAGE_FRAME_def)
  obtain new k' where "as_copy True demo_kmalloc (Some (replicate 12 0)) k as = Some (Inr new, k')"
     "\<forall>p. p AND PAGE_FRAME = p \<longrightarrow> tlb_elo as 0x400000 p AND TLBLO_DIRTY = 0 \<and> tlb_elo new 0x400000 p AND TLBLO_DIRTY \<noteq> 0"
    using as_copy_text_writable [OF *(4,2) live demo_copy_args room *(9) t] by blast
  then show ?thesis using *(1) p by blast
qed

lemma prepare_table_oom:
  assumes "cm_rep (vm k) B" "frames B = {..<nframes (vm k)}" "0 < nframes (vm k)"
  shows "prepare_table k (pre @ js) [length pre..<length pre + length js] =
    Some (Inr (), pre @ map (\<lambda>_. 3) js, if js = [] then k else k\<lparr>pmem := as_zero_region (pmem k) 3 1\<rparr>)"
  using assms
proof (induction js arbitrary: k pre)
  case (Cons j js)
  have none: "\<not> free_run_at (vm k) B 1 i" for i using Cons.prems(2) by (auto simp: free_run_at_def)
  then have g: "getppages (vm k) 1 = Some (3, vm k)"
    using getppages_full [OF Cons.prems(1), of 1] Cons.prems(3) by simp
  let ?k = "k\<lparr>pmem := as_zero_region (pmem k) 3 1\<rparr>"
  have v: "vm ?k = vm k" by simp
  have "prepare_table ?k ((pre @ [3]) @ js) [length (pre @ [3])..<length (pre @ [3]) + length js] =
    Some (Inr (), (pre @ [3]) @ map (\<lambda>_. 3) js, if js = [] then ?k else ?k\<lparr>pmem := as_zero_region (pmem ?k) 3 1\<rparr>)"
    by (rule Cons.IH) (simp_all only: v Cons.prems)
  moreover have "as_zero_region (as_zero_region (pmem k) 3 1) 3 1 = as_zero_region (pmem k) 3 1"
    by (auto simp: as_zero_region_def fun_eq_iff)
  moreover have "k\<lparr>vm := vm k, pmem := m\<rparr> = k\<lparr>pmem := m\<rparr>" for m by simp
  ultimately show ?case using g by (simp add: upt_rec upd_def)
qed simp

text \<open>Running out of frames while loading a program is not noticed: with no frame left, \<open>as_prepare_load\<close>
  reports success, enters the physical address 3 in every page table entry and zeroes the page of
  memory that starts there, which holds the exception handlers.\<close>

theorem as_prepare_load_out_of_memory:
  assumes "cm_rep (vm k) B" "frames B = {..<nframes (vm k)}" "0 < nframes (vm k)" "as_tables as"
    "length spt = DUMBVM_STACKPAGES"
  shows "\<exists>as'. as_prepare_load (Some spt) k as = Some (Inr (), as', k\<lparr>pmem := as_zero_region (pmem k) 3 1\<rparr>) \<and>
     as_stackptable as' = Some (replicate DUMBVM_STACKPAGES 3) \<and>
     (\<forall>a. unat (a - 3) < PAGE_SIZE \<longrightarrow> as_zero_region (pmem k) 3 1 a = 0)"
proof -
  obtain pt1 pt2 where pt: "as_ptable1 as = Some pt1" "length pt1 = unat (as_npages1 as)"
      "as_ptable2 as = Some pt2" "length pt2 = unat (as_npages2 as)" using assms(4) by (auto simp: as_tables_def)
  define z where "z b = (if b then k else k\<lparr>pmem := as_zero_region (pmem k) 3 1\<rparr>)" for b
  have zz: "as_zero_region (as_zero_region (pmem k) 3 1) 3 1 = as_zero_region (pmem k) 3 1"
    by (auto simp: as_zero_region_def fun_eq_iff)
  have p: "prepare_table (z b) js [0..<length js] = Some (Inr (), map (\<lambda>_. 3) js, z (b \<and> js = []))" for b js
    using prepare_table_oom [of "z b" B "[]" js] assms(1-3) zz by (cases b; cases "js = []") (simp_all add: z_def)
  have spt: "spt \<noteq> []" using assms(5) by (auto simp: DUMBVM_STACKPAGES_def)
  have zk: "z True = k" by (simp add: z_def)
  have 1: "prepare_table k pt1 [0..<unat (as_npages1 as)] = Some (Inr (), map (\<lambda>_. 3) pt1, z (pt1 = []))"
    using p [of True pt1] pt(2) zk by simp
  have 2: "prepare_table (z (pt1 = [])) pt2 [0..<unat (as_npages2 as)] =
      Some (Inr (), map (\<lambda>_. 3) pt2, z (pt1 = [] \<and> pt2 = []))" using p [of "pt1 = []" pt2] unfolding pt(4) .
  have 3: "prepare_table (z (pt1 = [] \<and> pt2 = [])) spt [0..<DUMBVM_STACKPAGES] =
      Some (Inr (), map (\<lambda>_. 3) spt, z False)" using p [of "pt1 = [] \<and> pt2 = []" spt] spt unfolding assms(5) by simp
  have "as_prepare_load (Some spt) k as = Some (Inr (),
      as\<lparr>as_stackptable := Some spt, as_ptable1 := Some (map (\<lambda>_. 3) pt1), as_ptable2 := Some (map (\<lambda>_. 3) pt2),
         as_stackptable := Some (map (\<lambda>_. 3) spt)\<rparr>, z False)"
    unfolding as_prepare_load_def using pt 1 2 3 by simp
  then show ?thesis using assms(5) by (simp add: map_replicate_const as_zero_region_def z_def)
qed

theorem as_prepare_load_out_of_memory_witness:
  "\<exists>s k as'. getppages (vm demo_mem) 30 = Some (frame_addr (vm demo_mem) 0, s) \<and> k = demo_mem\<lparr>vm := s\<rparr> \<and>
     as_prepare_load (Some (replicate 12 0)) k demo_as = Some (Inr (), as', k\<lparr>pmem := as_zero_region (pmem k) 3 1\<rparr>)"
proof -
  have run: "free_run_at (vm demo_mem) Map.empty 30 0" by (simp add: free_run_at_def demo_mem_rep(2))
  obtain s where s: "getppages (vm demo_mem) 30 = Some (frame_addr (vm demo_mem) 0, s)"
      "cm_rep s [0 \<mapsto> 30]" "nframes s = 30"
    using getppages_found [OF demo_mem_rep(1) _ run] demo_mem_rep(2) by auto
  have "frames [0 \<mapsto> 30] = {..<30}" by (auto simp: frames_def split: if_splits)
  then show ?thesis
    using as_prepare_load_out_of_memory [of "demo_mem\<lparr>vm := s\<rparr>" "[0 \<mapsto> 30]" demo_as "replicate 12 0"] s
      demo_as_facts(1) demo_copy_args(2) by auto
qed

end
