(* ===== verification/Threads.thy ===== *)
theory Threads
  imports ThreadList
begin

text \<open>
  \<^verbatim>\<open>kern/thread/thread.c\<close>: the scheduler. Every processor has a run queue and a list of zombies,
  every wait channel a list of sleepers; all of them are thread lists in one heap. The functions
  are modelled with the locks they take held throughout, that is, as atomic steps; the fields that
  are only printed (names) and the machine-dependent context are left out. A context switch is
  modelled up to the point where the processor runs another thread, or finds none and idles.
\<close>

section \<open>State\<close>

datatype threadstate = S_RUN | S_READY | S_SLEEP | S_ZOMBIE

text \<open>The lists: the run queue and the zombies of a processor, the sleepers of a wait channel, and
  the list on the stack of a function running on a processor.\<close>

definition RQ :: "nat \<Rightarrow> list_id" where "RQ c = 4 * c"
definition ZQ :: "nat \<Rightarrow> list_id" where "ZQ c = 4 * c + 1"
definition WC :: "nat \<Rightarrow> list_id" where "WC w = 4 * w + 2"
definition LQ :: "nat \<Rightarrow> list_id" where "LQ c = 4 * c + 3"

lemma list_ids [simp]:
  "RQ c = RQ d \<longleftrightarrow> c = d" "ZQ c = ZQ d \<longleftrightarrow> c = d" "WC c = WC d \<longleftrightarrow> c = d" "LQ c = LQ d \<longleftrightarrow> c = d"
  "RQ c \<noteq> ZQ d" "RQ c \<noteq> WC d" "RQ c \<noteq> LQ d" "ZQ c \<noteq> RQ d" "ZQ c \<noteq> WC d" "ZQ c \<noteq> LQ d"
  "WC c \<noteq> RQ d" "WC c \<noteq> ZQ d" "WC c \<noteq> LQ d" "LQ c \<noteq> RQ d" "LQ c \<noteq> ZQ d" "LQ c \<noteq> WC d"
  unfolding RQ_def ZQ_def WC_def LQ_def by presburger+

record sched =
  lists :: tlheap
  t_state :: "thread_id \<Rightarrow> threadstate"
  t_cpu :: "thread_id \<Rightarrow> nat option"
  t_proc :: "thread_id \<Rightarrow> nat option"
  destroyed :: "thread_id set"
  c_curthread :: "nat \<Rightarrow> thread_id"
  c_isidle :: "nat \<Rightarrow> bool"
  c_hardclocks :: "nat \<Rightarrow> u32"
  c_ipi_pending :: "nat \<Rightarrow> u32"
  c_shootdown :: "nat \<Rightarrow> u32 list"
  c_numshootdown :: "nat \<Rightarrow> int"
  ncpus :: nat

definition IPI_PANIC :: nat where "IPI_PANIC = 0"
definition IPI_OFFLINE :: nat where "IPI_OFFLINE = 1"
definition IPI_UNIDLE :: nat where "IPI_UNIDLE = 2"
definition IPI_TLBSHOOTDOWN :: nat where "IPI_TLBSHOOTDOWN = 3"

definition TLBSHOOTDOWN_MAX :: nat where "TLBSHOOTDOWN_MAX = 16"
definition TLBSHOOTDOWN_ALL :: int where "TLBSHOOTDOWN_ALL = - 1"

section \<open>Interprocessor interrupts\<close>

definition ipi_send :: "sched \<Rightarrow> nat \<Rightarrow> nat \<Rightarrow> sched option" where
  "ipi_send s target code = do {
     KASSERT (code < 32);
     Some (s\<lparr>c_ipi_pending := (c_ipi_pending s)(target := c_ipi_pending s target OR push_bit code 1)\<rparr>)
   }"

fun ipi_broadcast_from :: "sched \<Rightarrow> nat \<Rightarrow> nat \<Rightarrow> nat list \<Rightarrow> sched option" where
  "ipi_broadcast_from s me code [] = Some s"
| "ipi_broadcast_from s me code (c # cs) =
     (if c \<noteq> me then do {
        s' \<leftarrow> ipi_send s c code;
        ipi_broadcast_from s' me code cs
      } else ipi_broadcast_from s me code cs)"

definition ipi_broadcast :: "sched \<Rightarrow> nat \<Rightarrow> nat \<Rightarrow> sched option" where
  "ipi_broadcast s me code = ipi_broadcast_from s me code [0..<ncpus s]"

text \<open>The mapping of a shootdown request is its address. A write outside the array
  \<^verbatim>\<open>c_shootdown\<close> is \<open>None\<close>.\<close>

definition ipi_tlbshootdown :: "sched \<Rightarrow> nat \<Rightarrow> u32 \<Rightarrow> sched option" where
  "ipi_tlbshootdown s target mapping = do {
     let n = c_numshootdown s target;
     s \<leftarrow> (if n = int TLBSHOOTDOWN_MAX then
             Some (s\<lparr>c_numshootdown := (c_numshootdown s)(target := TLBSHOOTDOWN_ALL)\<rparr>)
           else do {
             KASSERT (0 \<le> n);
             sd \<leftarrow> upd (c_shootdown s target) (nat n) mapping;
             Some (s\<lparr>c_shootdown := (c_shootdown s)(target := sd),
                     c_numshootdown := (c_numshootdown s)(target := n + 1)\<rparr>)
           });
     Some (s\<lparr>c_ipi_pending := (c_ipi_pending s)(target := c_ipi_pending s target OR push_bit IPI_TLBSHOOTDOWN 1)\<rparr>)
   }"

text \<open>The interrupt handler: it halts the processor, or handles the requests that are pending and
  clears them. The handlers of the shootdowns are those of the memory system and are arguments.\<close>

datatype ipi_outcome = Halted | Handled sched

fun shootdown_each :: "(u32 \<Rightarrow> unit option) \<Rightarrow> u32 list \<Rightarrow> unit option" where
  "shootdown_each vm_tlbshootdown [] = Some ()"
| "shootdown_each vm_tlbshootdown (m # ms) = do {
     vm_tlbshootdown m;
     shootdown_each vm_tlbshootdown ms
   }"

definition interprocessor_interrupt ::
    "unit option \<Rightarrow> (u32 \<Rightarrow> unit option) \<Rightarrow> sched \<Rightarrow> nat \<Rightarrow> ipi_outcome option" where
  "interprocessor_interrupt vm_tlbshootdown_all vm_tlbshootdown s c = do {
     let bits = c_ipi_pending s c;
     if bit bits IPI_PANIC then Some Halted
     else if bit bits IPI_OFFLINE then Some Halted
     else do {
       s \<leftarrow> (if bit bits IPI_TLBSHOOTDOWN then do {
               (if c_numshootdown s c = TLBSHOOTDOWN_ALL then vm_tlbshootdown_all
                else do {
                  ms \<leftarrow> (if nat (c_numshootdown s c) \<le> length (c_shootdown s c)
                         then Some (take (nat (c_numshootdown s c)) (c_shootdown s c)) else None);
                  shootdown_each vm_tlbshootdown ms
                });
               Some (s\<lparr>c_numshootdown := (c_numshootdown s)(c := 0)\<rparr>)
             } else Some s);
       Some (Handled (s\<lparr>c_ipi_pending := (c_ipi_pending s)(c := 0)\<rparr>))
     }
   }"

section \<open>Running and sleeping\<close>

definition thread_make_runnable :: "sched \<Rightarrow> thread_id \<Rightarrow> sched option" where
  "thread_make_runnable s target = do {
     targetcpu \<leftarrow> t_cpu s target;
     let isidle = c_isidle s targetcpu;
     h \<leftarrow> threadlist_addtail (lists s) (RQ targetcpu) target;
     let s = s\<lparr>lists := h\<rparr>;
     if isidle then ipi_send s targetcpu IPI_UNIDLE else Some s
   }"

definition thread_destroy :: "sched \<Rightarrow> nat \<Rightarrow> thread_id \<Rightarrow> sched option" where
  "thread_destroy s c t = do {
     KASSERT (t \<noteq> c_curthread s c);
     KASSERT (t_state s t \<noteq> S_RUN);
     KASSERT (t_proc s t = None);
     threadlistnode_cleanup (lists s) (TNode t);
     Some (s\<lparr>destroyed := insert t (destroyed s)\<rparr>)
   }"

partial_function (option) exorcise :: "sched \<Rightarrow> nat \<Rightarrow> sched option" where
  "exorcise s c = do {
     (z, h) \<leftarrow> threadlist_remhead (lists s) (ZQ c);
     (case z of
        None \<Rightarrow> Some (s\<lparr>lists := h\<rparr>)
      | Some t \<Rightarrow> do {
          let s = s\<lparr>lists := h\<rparr>;
          KASSERT (t \<noteq> c_curthread s c);
          KASSERT (t_state s t = S_ZOMBIE);
          s' \<leftarrow> thread_destroy s c t;
          exorcise s' c
        })
   }"

text \<open>Creating a thread at an address the allocator returned, and forking one from the thread that
  runs on processor \<open>c\<close>. Whether the allocations and the entry into the process's list of threads
  succeed are arguments.\<close>

definition thread_create :: "sched \<Rightarrow> thread_id option \<Rightarrow> bool \<Rightarrow> (thread_id \<times> sched) option" where
  "thread_create s mem name_ok =
     (case mem of
        None \<Rightarrow> None
      | Some t \<Rightarrow>
          if name_ok
          then Some (t, s\<lparr>t_state := (t_state s)(t := S_READY),
                          lists := threadlistnode_init (lists s) (TNode t) t,
                          t_cpu := (t_cpu s)(t := None), t_proc := (t_proc s)(t := None),
                          destroyed := destroyed s - {t}\<rparr>)
          else None)"

definition thread_fork ::
    "sched \<Rightarrow> nat \<Rightarrow> nat option \<Rightarrow> thread_id option \<Rightarrow> bool \<Rightarrow> bool \<Rightarrow> (errno + unit) \<Rightarrow> ((errno + unit) \<times> sched) option" where
  "thread_fork s c proc mem name_ok stack_ok proc_addthread =
     (case thread_create s mem name_ok of
        None \<Rightarrow> Some (Inl ENOMEM, s)
      | Some (newthread, s) \<Rightarrow>
          if \<not> stack_ok then do {
            s \<leftarrow> thread_destroy s c newthread;
            Some (Inl ENOMEM, s)
          } else do {
            let cur = c_curthread s c;
            let s = s\<lparr>t_cpu := (t_cpu s)(newthread := t_cpu s cur)\<rparr>;
            let proc = (case proc of None \<Rightarrow> t_proc s cur | Some p \<Rightarrow> Some p);
            (case proc_addthread of
               Inl result \<Rightarrow> do {
                 s \<leftarrow> thread_destroy s c newthread;
                 Some (Inl result, s)
               }
             | Inr _ \<Rightarrow> do {
                 let s = s\<lparr>t_proc := (t_proc s)(newthread := proc)\<rparr>;
                 s \<leftarrow> thread_make_runnable s newthread;
                 Some (Inr (), s)
               })
          })"

text \<open>Creating a processor, with its first thread; every failure is a panic.\<close>

definition cpu_create :: "sched \<Rightarrow> nat \<Rightarrow> bool \<Rightarrow> bool \<Rightarrow> thread_id option \<Rightarrow> bool \<Rightarrow> bool \<Rightarrow> bool \<Rightarrow> sched option" where
  "cpu_create s kproc cpu_ok array_ok mem name_ok proc_ok stack_ok = do {
     KASSERT cpu_ok;
     let c = ncpus s;
     let h = threadlist_init (lists s) (ZQ c);
     let h = threadlist_init h (RQ c);
     let s = s\<lparr>lists := h, c_hardclocks := (c_hardclocks s)(c := 0), c_isidle := (c_isidle s)(c := False),
               c_ipi_pending := (c_ipi_pending s)(c := 0), c_numshootdown := (c_numshootdown s)(c := 0)\<rparr>;
     KASSERT array_ok;
     let s = s\<lparr>ncpus := c + 1\<rparr>;
     (t, s) \<leftarrow> thread_create s mem name_ok;
     let s = s\<lparr>c_curthread := (c_curthread s)(c := t)\<rparr>;
     KASSERT proc_ok;
     let s = s\<lparr>t_proc := (t_proc s)(t := Some kproc)\<rparr>;
     (if c = 0 then Some () else KASSERT stack_ok);
     Some (s\<lparr>t_cpu := (t_cpu s)(t := Some c)\<rparr>)
   }"

text \<open>How a call of \<open>thread_switch\<close> ends: it returns at once, another thread runs, or the processor
  idles until a thread becomes runnable.\<close>

datatype switched = Returned | Runs thread_id | Idles

text \<open>One round of the loop that looks for a thread to run, and what the thread that is found does
  when it comes out of the switch: it marks itself running and destroys the zombies.\<close>

definition switch_in :: "sched \<Rightarrow> nat \<Rightarrow> (switched \<times> sched) option" where
  "switch_in s c = do {
     (next, h) \<leftarrow> threadlist_remhead (lists s) (RQ c);
     let s = s\<lparr>lists := h\<rparr>;
     (case next of
        None \<Rightarrow> Some (Idles, s)
      | Some t \<Rightarrow> do {
          let s = s\<lparr>c_isidle := (c_isidle s)(c := False), c_curthread := (c_curthread s)(c := t)\<rparr>;
          let s = s\<lparr>t_state := (t_state s)(t := S_RUN)\<rparr>;
          s \<leftarrow> exorcise s c;
          Some (Runs t, s)
        })
   }"

definition switch_out :: "sched \<Rightarrow> nat \<Rightarrow> threadstate \<Rightarrow> nat \<Rightarrow> sched option" where
  "switch_out s c newstate wc = do {
     let cur = c_curthread s c;
     s \<leftarrow> (case newstate of
             S_RUN \<Rightarrow> None
           | S_READY \<Rightarrow> thread_make_runnable s cur
           | S_SLEEP \<Rightarrow> do {
               h \<leftarrow> threadlist_addtail (lists s) (WC wc) cur;
               Some (s\<lparr>lists := h\<rparr>)
             }
           | S_ZOMBIE \<Rightarrow> do {
               h \<leftarrow> threadlist_addtail (lists s) (ZQ c) cur;
               Some (s\<lparr>lists := h\<rparr>)
             });
     let s = s\<lparr>t_state := (t_state s)(cur := newstate)\<rparr>;
     Some (s\<lparr>c_isidle := (c_isidle s)(c := True)\<rparr>)
   }"

definition thread_switch :: "sched \<Rightarrow> nat \<Rightarrow> threadstate \<Rightarrow> nat \<Rightarrow> (switched \<times> sched) option" where
  "thread_switch s c newstate wc =
     (if c_isidle s c then Some (Returned, s)
      else if newstate = S_READY \<and> threadlist_isempty (lists s) (RQ c) then Some (Returned, s)
      else do {
        s \<leftarrow> switch_out s c newstate wc;
        switch_in s c
      })"

definition thread_yield :: "sched \<Rightarrow> nat \<Rightarrow> (switched \<times> sched) option" where
  "thread_yield s c = thread_switch s c S_READY 0"

text \<open>The exit of a thread of a user process, which has left its process before, or of a kernel
  thread, which leaves it here. Returning from the switch is a panic.\<close>

definition thread_exit :: "nat \<Rightarrow> sched \<Rightarrow> nat \<Rightarrow> (switched \<times> sched) option" where
  "thread_exit kproc s c = do {
     let cur = c_curthread s c;
     KASSERT (t_proc s cur = Some kproc \<or> t_proc s cur = None);
     let s = s\<lparr>t_proc := (t_proc s)(cur := None)\<rparr>;
     (r, s) \<leftarrow> thread_switch s c S_ZOMBIE 0;
     if r = Returned then None else Some (r, s)
   }"

section \<open>Wait channels\<close>

definition wchan_create :: "sched \<Rightarrow> nat \<Rightarrow> sched" where
  "wchan_create s wc = s\<lparr>lists := threadlist_init (lists s) (WC wc)\<rparr>"

definition wchan_destroy :: "sched \<Rightarrow> nat \<Rightarrow> unit option" where
  "wchan_destroy s wc = threadlist_cleanup (lists s) (WC wc)"

definition wchan_sleep :: "sched \<Rightarrow> nat \<Rightarrow> bool \<Rightarrow> nat \<Rightarrow> (switched \<times> sched) option" where
  "wchan_sleep s c in_interrupt wc = do {
     KASSERT (\<not> in_interrupt);
     thread_switch s c S_SLEEP wc
   }"

definition wchan_wakeone :: "sched \<Rightarrow> nat \<Rightarrow> sched option" where
  "wchan_wakeone s wc = do {
     (target, h) \<leftarrow> threadlist_remhead (lists s) (WC wc);
     let s = s\<lparr>lists := h\<rparr>;
     (case target of
        None \<Rightarrow> Some s
      | Some t \<Rightarrow> thread_make_runnable s t)
   }"

text \<open>The two loops of \<open>wchan_wakeall\<close>: moving the sleepers to a private list, and making the
  threads of that list runnable.\<close>

partial_function (option) move_all :: "tlheap \<Rightarrow> list_id \<Rightarrow> list_id \<Rightarrow> tlheap option" where
  "move_all h from to = do {
     (target, h) \<leftarrow> threadlist_remhead h from;
     (case target of
        None \<Rightarrow> Some h
      | Some t \<Rightarrow> do {
          h \<leftarrow> threadlist_addtail h to t;
          move_all h from to
        })
   }"

partial_function (option) run_all :: "sched \<Rightarrow> list_id \<Rightarrow> sched option" where
  "run_all s from = do {
     (target, h) \<leftarrow> threadlist_remhead (lists s) from;
     let s = s\<lparr>lists := h\<rparr>;
     (case target of
        None \<Rightarrow> Some s
      | Some t \<Rightarrow> do {
          s \<leftarrow> thread_make_runnable s t;
          run_all s from
        })
   }"

definition wchan_wakeall :: "sched \<Rightarrow> nat \<Rightarrow> nat \<Rightarrow> sched option" where
  "wchan_wakeall s c wc = do {
     let h = threadlist_init (lists s) (LQ c);
     h \<leftarrow> move_all h (WC wc) (LQ c);
     s \<leftarrow> run_all (s\<lparr>lists := h\<rparr>) (LQ c);
     threadlist_cleanup (lists s) (LQ c);
     Some s
   }"

definition wchan_isempty :: "sched \<Rightarrow> nat \<Rightarrow> bool" where
  "wchan_isempty s wc = threadlist_isempty (lists s) (WC wc)"

section \<open>Migration\<close>

text \<open>Taking \<open>n\<close> threads off the tail of the processor's own queue; adding a NULL is a wild
  access.\<close>

fun take_victims :: "tlheap \<Rightarrow> nat \<Rightarrow> nat \<Rightarrow> tlheap option" where
  "take_victims h c 0 = Some h"
| "take_victims h c (Suc n) = do {
     (r, h) \<leftarrow> threadlist_remtail h (RQ c);
     t \<leftarrow> r;
     h \<leftarrow> threadlist_addhead h (LQ c) t;
     take_victims h c n
   }"

text \<open>The loop that fills the queue of processor \<open>d\<close> up to its share; the last argument is
  \<open>to_send\<close>.\<close>

fun deal :: "sched \<Rightarrow> nat \<Rightarrow> nat \<Rightarrow> nat \<Rightarrow> nat \<Rightarrow> (nat \<times> sched) option" where
  "deal s c d one_share 0 = Some (0, s)"
| "deal s c d one_share (Suc n) =
     (if unat (tl_count (lists s) (RQ d)) < one_share then do {
        (r, h) \<leftarrow> threadlist_remhead (lists s) (LQ c);
        t \<leftarrow> r;
        if t = c_curthread s c then do {
          h \<leftarrow> threadlist_addtail h (LQ c) t;
          deal (s\<lparr>lists := h\<rparr>) c d one_share n
        } else do {
          h \<leftarrow> threadlist_addtail h (RQ d) t;
          let s = s\<lparr>lists := h, t_cpu := (t_cpu s)(t := Some d)\<rparr>;
          s \<leftarrow> (if c_isidle s d then ipi_send s d IPI_UNIDLE else Some s);
          deal s c d one_share n
        }
      } else Some (Suc n, s))"

fun deal_cpus :: "sched \<Rightarrow> nat \<Rightarrow> nat list \<Rightarrow> nat \<Rightarrow> nat \<Rightarrow> sched option" where
  "deal_cpus s c [] one_share to_send = Some s"
| "deal_cpus s c (d # ds) one_share to_send =
     (if to_send > 0 then
        (if d = c then deal_cpus s c ds one_share to_send
         else do {
           (to_send, s) \<leftarrow> deal s c d one_share to_send;
           deal_cpus s c ds one_share to_send
         })
      else Some s)"

definition thread_consider_migration :: "sched \<Rightarrow> nat \<Rightarrow> sched option" where
  "thread_consider_migration s c = do {
     let total_count = unat (sum_list (map (\<lambda>d. tl_count (lists s) (RQ d)) [0..<ncpus s]));
     let my_count = unat (tl_count (lists s) (RQ c));
     let one_share = DIVROUNDUP total_count (ncpus s);
     if my_count < one_share then Some s
     else do {
       let to_send = my_count - one_share;
       let h = threadlist_init (lists s) (LQ c);
       h \<leftarrow> take_victims h c to_send;
       s \<leftarrow> deal_cpus (s\<lparr>lists := h\<rparr>) c [0..<ncpus s] one_share to_send;
       h \<leftarrow> (if \<not> threadlist_isempty (lists s) (LQ c) then move_all (lists s) (LQ c) (RQ c) else Some (lists s));
       KASSERT (threadlist_isempty h (LQ c));
       threadlist_cleanup h (LQ c);
       Some (s\<lparr>lists := h\<rparr>)
     }
   }"

section \<open>The clock\<close>

text \<open>\<^verbatim>\<open>kern/thread/clock.c\<close>. The hook \<^verbatim>\<open>schedule\<close> does nothing, so that the
  threads run round robin.\<close>

definition SCHEDULE_HARDCLOCKS :: u32 where "SCHEDULE_HARDCLOCKS = 4"
definition MIGRATE_HARDCLOCKS :: u32 where "MIGRATE_HARDCLOCKS = 16"

definition schedule :: "sched \<Rightarrow> sched" where
  "schedule s = s"

definition hardclock :: "sched \<Rightarrow> nat \<Rightarrow> (switched \<times> sched) option" where
  "hardclock s c = do {
     let s = s\<lparr>c_hardclocks := (c_hardclocks s)(c := c_hardclocks s c + 1)\<rparr>;
     let s = (if c_hardclocks s c mod SCHEDULE_HARDCLOCKS = 0 then schedule s else s);
     s \<leftarrow> (if c_hardclocks s c mod MIGRATE_HARDCLOCKS = 0 then thread_consider_migration s c else Some s);
     thread_yield s c
   }"

text \<open>The ticks of the timer: everything on \<open>minibolt\<close> is woken at each, everything on \<open>lbolt\<close> once a
  second. The counter is a C int.\<close>

definition LT_GRANULARITY :: int where "LT_GRANULARITY = 10000"
definition MINI_PER_SECOND :: int where "MINI_PER_SECOND = 1000000 div LT_GRANULARITY"

definition timerclock :: "nat \<Rightarrow> nat \<Rightarrow> sched \<Rightarrow> nat \<Rightarrow> int \<Rightarrow> (int \<times> sched) option" where
  "timerclock lbolt minibolt s c minicount = do {
     s \<leftarrow> wchan_wakeall s c minibolt;
     let minicount = s32 (minicount - 1);
     if minicount \<le> 0 then do {
       s \<leftarrow> wchan_wakeall s c lbolt;
       Some (MINI_PER_SECOND, s)
     } else Some (minicount, s)
   }"

section \<open>Shutting down\<close>

definition thread_panic :: "sched \<Rightarrow> nat \<Rightarrow> sched option" where
  "thread_panic s c = do {
     s \<leftarrow> ipi_broadcast s c IPI_PANIC;
     let h = set_count (lists s) (RQ c) 0;
     let h = set_next h (TlHead (RQ c)) None;
     let h = set_prev h (TlTail (RQ c)) None;
     Some (s\<lparr>lists := h\<rparr>)
   }"

definition thread_shutdown :: "sched \<Rightarrow> nat \<Rightarrow> sched option" where
  "thread_shutdown s c = ipi_broadcast s c IPI_OFFLINE"

section \<open>The lists of the scheduler\<close>

definition heap_rep :: "tlheap \<Rightarrow> (list_id \<Rightarrow> thread_id list option) \<Rightarrow> bool" where
  "heap_rep h L \<longleftrightarrow> tls_rep h L \<and> (\<forall>t. self_of h (TNode t) = Some t)"




lemma push_tail:
  assumes "heap_rep h L" "L l = Some ts" "off_lists L t"
  shows "\<exists>h'. threadlist_addtail h l t = Some h' \<and> heap_rep h' (L(l \<mapsto> ts @ [t]))"
  using addtail_refines [of h L l ts t] addtail_self assms by (fastforce simp: heap_rep_def)


lemma pop_head_Nil: "heap_rep h L \<Longrightarrow> L l = Some [] \<Longrightarrow> threadlist_remhead h l = Some (None, h)"
  using remhead_refines [of h L l "[]"] by (simp add: heap_rep_def)

lemma heap_rep_distinct: "heap_rep h L \<Longrightarrow> L l = Some ts \<Longrightarrow> distinct ts"
  by (auto simp: heap_rep_def tls_rep_def tl_rep_def)

lemma heap_rep_disjoint:
  "heap_rep h L \<Longrightarrow> L l = Some ts \<Longrightarrow> L l' = Some ts' \<Longrightarrow> t \<in> set ts \<Longrightarrow> t \<in> set ts' \<Longrightarrow> l = l'"
  unfolding heap_rep_def tls_rep_def by blast

lemma off_lists_popped:
  assumes "heap_rep h L" "L l = Some (us @ t # vs)" shows "off_lists (L(l \<mapsto> us @ vs)) t"
  unfolding off_lists_def
proof (intro allI impI)
  fix l' ts
  assume l': "(L(l \<mapsto> us @ vs)) l' = Some ts"
  show "t \<notin> set ts"
  proof (cases "l' = l")
    case True
    have "distinct (us @ t # vs)" by (rule heap_rep_distinct [OF assms])
    then show ?thesis using True l' by auto
  next
    case False
    then show ?thesis using heap_rep_disjoint [OF assms, of l' ts t] l' by auto
  qed
qed

lemma pop_head_Cons:
  assumes "heap_rep h L" "L l = Some (t # ts)"
  shows "\<exists>h'. threadlist_remhead h l = Some (Some t, h') \<and> heap_rep h' (L(l \<mapsto> ts)) \<and> loose h' t \<and>
           off_lists (L(l \<mapsto> ts)) t"
  using remhead_refines [of h L l "t # ts"] remhead_self off_lists_popped [of h L l "[]" t ts] assms
  by (fastforce simp: heap_rep_def)


lemma heap_rep_init: "heap_rep h L \<Longrightarrow> heap_rep (threadlist_init h l) (L(l \<mapsto> []))"
  using init_refines [of h L l] by (simp add: heap_rep_def)

lemma heap_rep_forget: "heap_rep h L \<Longrightarrow> heap_rep h (L(l := None))"
  unfolding heap_rep_def tls_rep_def by (auto split: if_splits)

lemma heap_rep_count: "heap_rep h L \<Longrightarrow> L l = Some ts \<Longrightarrow> tl_count h l = of_nat (length ts)"
  by (auto simp: heap_rep_def tls_rep_def tl_rep_def)

lemma boot_heap_rep_empty: "heap_rep boot_heap Map.empty"
  using boot_heap_rep by (simp add: heap_rep_def)

text \<open>The threads on the lists.\<close>

definition listed :: "(list_id \<Rightarrow> thread_id list option) \<Rightarrow> thread_id set" where
  "listed L = \<Union> (set ` ran L)"

lemma listed_iff: "t \<in> listed L \<longleftrightarrow> (\<exists>l ts. L l = Some ts \<and> t \<in> set ts)"
  by (auto simp: listed_def ran_def)

lemma off_lists_listed: "off_lists L t \<longleftrightarrow> t \<notin> listed L"
  by (auto simp: off_lists_def listed_iff)

lemma listed_upd:
  "listed (L(l \<mapsto> ts)) = set ts \<union> listed (L(l := None))"
  "L l = Some ts \<Longrightarrow> listed L = set ts \<union> listed (L(l := None))"
  "L l = None \<Longrightarrow> L(l := None) = L"
proof -
  show upd: "listed (M(l \<mapsto> us)) = set us \<union> listed (M(l := None))" for M us
    using ran_map_upd [of "M(l := None)" l us] by (simp add: listed_def)
  show "L l = Some ts \<Longrightarrow> listed L = set ts \<union> listed (L(l := None))"
    using upd [of L ts] by (simp add: fun_upd_idem)
  show "L l = None \<Longrightarrow> L(l := None) = L" by (rule fun_upd_idem)
qed


lemma listed_push: "L l = Some ts \<Longrightarrow> set ts' = insert t (set ts) \<Longrightarrow> listed (L(l \<mapsto> ts')) = insert t (listed L)"
  by (simp add: listed_upd)

lemma listed_pop:
  assumes "heap_rep h L" "L l = Some ts" "set ts' = set ts - {t}" "t \<in> set ts"
  shows "listed (L(l \<mapsto> ts')) = listed L - {t}"
proof -
  have "t \<notin> listed (L(l := None))"
    using heap_rep_disjoint [OF assms(1) _ assms(2) _ assms(4)] by (auto simp: listed_iff split: if_splits)
  then show ?thesis using assms(2,3) by (auto simp: listed_upd)
qed

lemma listed_new: "L l = None \<Longrightarrow> listed (L(l \<mapsto> [])) = listed L"
  by (simp add: listed_upd)

lemma listed_forget: "L l = Some [] \<Longrightarrow> listed (L(l := None)) = listed L"
  by (simp add: listed_upd)

section \<open>What the operations do to the lists\<close>

lemma ipi_send_ok:
  "code < 32 \<Longrightarrow> \<exists>p. ipi_send s d code = Some (s\<lparr>c_ipi_pending := p\<rparr>) \<and> bit (p d) code"
  by (rule exI [of _ "(c_ipi_pending s)(d := c_ipi_pending s d OR 2 ^ code)"])
    (simp add: ipi_send_def bit_or_iff bit_exp_iff)

lemma make_runnable_ok:
  assumes "heap_rep (lists s) L" "t_cpu s t = Some d" "L (RQ d) = Some ts" "off_lists L t"
  shows "\<exists>h p. thread_make_runnable s t = Some (s\<lparr>lists := h, c_ipi_pending := p\<rparr>) \<and>
           heap_rep h (L(RQ d \<mapsto> ts @ [t])) \<and> (c_isidle s d \<longrightarrow> bit (p d) IPI_UNIDLE)"
proof -
  obtain h where h: "threadlist_addtail (lists s) (RQ d) t = Some h" "heap_rep h (L(RQ d \<mapsto> ts @ [t]))"
    using push_tail assms by blast
  show ?thesis
  proof (cases "c_isidle s d")
    case True
    obtain p where p: "ipi_send (s\<lparr>lists := h\<rparr>) d IPI_UNIDLE = Some (s\<lparr>lists := h, c_ipi_pending := p\<rparr>)"
      "bit (p d) IPI_UNIDLE"
      using ipi_send_ok [of IPI_UNIDLE "s\<lparr>lists := h\<rparr>" d] by (auto simp: IPI_UNIDLE_def)
    then show ?thesis using h True assms(2) by (auto simp: thread_make_runnable_def Let_def)
  next
    case False
    then have "thread_make_runnable s t = Some (s\<lparr>lists := h, c_ipi_pending := c_ipi_pending s\<rparr>)"
      using h assms(2) by (simp add: thread_make_runnable_def Let_def)
    then show ?thesis using False h by blast
  qed
qed

lemma exorcise_ok:
  assumes "heap_rep (lists s) L" "L (ZQ c) = Some zs"
    "\<And>z. z \<in> set zs \<Longrightarrow> z \<noteq> c_curthread s c \<and> t_state s z = S_ZOMBIE \<and> t_proc s z = None"
  shows "\<exists>h. exorcise s c = Some (s\<lparr>lists := h, destroyed := destroyed s \<union> set zs\<rparr>) \<and>
           heap_rep h (L(ZQ c \<mapsto> []))"
  using assms
proof (induction zs arbitrary: s L)
  case Nil
  then show ?case
    by (intro exI [of _ "lists s"], subst exorcise.simps) (simp add: pop_head_Nil fun_upd_idem)
next
  case (Cons z zs)
  obtain h where h: "threadlist_remhead (lists s) (ZQ c) = Some (Some z, h)" "heap_rep h (L(ZQ c \<mapsto> zs))" "loose h z"
    using pop_head_Cons [OF Cons.prems(1,2)] by auto
  define s' where "s' = s\<lparr>lists := h, destroyed := insert z (destroyed s)\<rparr>"
  have "exorcise s c = exorcise s' c"
    using h Cons.prems(3) [of z]
    by (subst exorcise.simps) (simp add: Let_def thread_destroy_def loose_def s'_def)
  moreover have rep: "heap_rep (lists s') (L(ZQ c \<mapsto> zs))" using h by (simp add: s'_def)
  have "\<exists>h'. exorcise s' c = Some (s'\<lparr>lists := h', destroyed := destroyed s' \<union> set zs\<rparr>) \<and>
      heap_rep h' (L(ZQ c \<mapsto> zs, ZQ c \<mapsto> []))"
    by (rule Cons.IH [OF rep]) (use Cons.prems(3) in \<open>simp_all add: s'_def\<close>)
  ultimately have "\<exists>h. exorcise s c = Some (s\<lparr>lists := h, destroyed := destroyed s \<union> set (z # zs)\<rparr>) \<and>
      heap_rep h (L(ZQ c \<mapsto> []))" by (simp add: s'_def)
  then show ?case .
qed

lemma move_all_ok:
  assumes "heap_rep h L" "L l = Some ts" "L k = Some us" "l \<noteq> k"
  shows "\<exists>h'. move_all h l k = Some h' \<and> heap_rep h' (L(l \<mapsto> [], k \<mapsto> us @ ts))"
  using assms
proof (induction ts arbitrary: h L us)
  case Nil
  then show ?case
    by (subst move_all.simps) (simp add: pop_head_Nil fun_upd_idem)
next
  case (Cons t ts)
  obtain h1 where h1: "threadlist_remhead h l = Some (Some t, h1)" "heap_rep h1 (L(l \<mapsto> ts))" "off_lists (L(l \<mapsto> ts)) t"
    using pop_head_Cons [OF Cons.prems(1,2)] by auto
  obtain h2 where h2: "threadlist_addtail h1 k t = Some h2" "heap_rep h2 (L(l \<mapsto> ts, k \<mapsto> us @ [t]))"
    using push_tail [OF h1(2) _ h1(3), of k us] Cons.prems(3,4) by auto
  have "\<exists>h'. move_all h2 l k = Some h' \<and> heap_rep h' (L(l \<mapsto> ts, k \<mapsto> us @ [t], l \<mapsto> [], k \<mapsto> (us @ [t]) @ ts))"
    by (rule Cons.IH [OF h2(2)]) (use Cons.prems(4) in auto)
  moreover have "move_all h l k = move_all h2 l k" using h1 h2 by (subst move_all.simps) simp
  moreover have "L(l \<mapsto> ts, k \<mapsto> us @ [t], l \<mapsto> [], k \<mapsto> (us @ [t]) @ ts) = L(l \<mapsto> [], k \<mapsto> us @ t # ts)"
    using Cons.prems(4) by (simp add: fun_eq_iff)
  ultimately show ?case by (simp only:)
qed

text \<open>The lists after the threads \<open>ts\<close> have been put on the queues of their processors, in order.\<close>

fun delivered :: "(thread_id \<Rightarrow> nat option) \<Rightarrow> (list_id \<Rightarrow> thread_id list option) \<Rightarrow> thread_id list \<Rightarrow> (list_id \<Rightarrow> thread_id list option)" where
  "delivered cpu L [] = L"
| "delivered cpu L (t # ts) = delivered cpu (L(RQ (the (cpu t)) \<mapsto> the (L (RQ (the (cpu t)))) @ [t])) ts"

lemma delivered_other: "(\<And>c. l \<noteq> RQ c) \<Longrightarrow> delivered cpu L ts l = L l"
  by (induction ts arbitrary: L) auto

lemma delivered_RQ:
  "L (RQ d) = Some us \<Longrightarrow> (\<And>t. t \<in> set ts \<Longrightarrow> cpu t \<noteq> None \<and> L (RQ (the (cpu t))) \<noteq> None) \<Longrightarrow>
   delivered cpu L ts (RQ d) = Some (us @ filter (\<lambda>t. cpu t = Some d) ts)"
proof (induction ts arbitrary: L us)
  case (Cons t ts)
  obtain e vs where e: "cpu t = Some e" "L (RQ e) = Some vs" using Cons.prems(2) [of t] by auto
  show ?case
  proof (cases "e = d")
    case True
    have "delivered cpu (L(RQ d \<mapsto> us @ [t])) ts (RQ d) = Some ((us @ [t]) @ filter (\<lambda>t. cpu t = Some d) ts)"
      by (rule Cons.IH) (use Cons.prems(2) in auto)
    then show ?thesis using True e Cons.prems(1) by simp
  next
    case False
    have "delivered cpu (L(RQ e \<mapsto> vs @ [t])) ts (RQ d) = Some (us @ filter (\<lambda>t. cpu t = Some d) ts)"
      by (rule Cons.IH) (use Cons.prems False in auto)
    then show ?thesis using False e by simp
  qed
qed simp

lemma run_all_ok:
  assumes "heap_rep (lists s) L" "L l = Some ts" "\<And>c. l \<noteq> RQ c"
    "\<And>t. t \<in> set ts \<Longrightarrow> t_cpu s t \<noteq> None \<and> L (RQ (the (t_cpu s t))) \<noteq> None"
  shows "\<exists>h p. run_all s l = Some (s\<lparr>lists := h, c_ipi_pending := p\<rparr>) \<and>
           heap_rep h (delivered (t_cpu s) (L(l \<mapsto> [])) ts)"
  using assms
proof (induction ts arbitrary: s L)
  case Nil
  then show ?case
    by (intro exI [of _ "lists s"] exI [of _ "c_ipi_pending s"], subst run_all.simps)
      (simp add: pop_head_Nil fun_upd_idem)
next
  case (Cons t ts)
  obtain h1 where h1: "threadlist_remhead (lists s) l = Some (Some t, h1)" "heap_rep h1 (L(l \<mapsto> ts))"
      "off_lists (L(l \<mapsto> ts)) t"
    using pop_head_Cons [OF Cons.prems(1,2)] by auto
  obtain d us where d: "t_cpu s t = Some d" "L (RQ d) = Some us" using Cons.prems(4) [of t] by auto
  have "(L(l \<mapsto> ts)) (RQ d) = Some us" using d Cons.prems(3) [of d] by simp
  then obtain h p where mr: "thread_make_runnable (s\<lparr>lists := h1\<rparr>) t = Some (s\<lparr>lists := h, c_ipi_pending := p\<rparr>)"
      "heap_rep h (L(l \<mapsto> ts, RQ d \<mapsto> us @ [t]))"
    using make_runnable_ok [of "s\<lparr>lists := h1\<rparr>" "L(l \<mapsto> ts)" t d us] h1 d by auto
  define s' where "s' = s\<lparr>lists := h, c_ipi_pending := p\<rparr>"
  have rep: "heap_rep (lists s') (L(l \<mapsto> ts, RQ d \<mapsto> us @ [t]))" using mr by (simp add: s'_def)
  have "\<exists>h p. run_all s' l = Some (s'\<lparr>lists := h, c_ipi_pending := p\<rparr>) \<and>
      heap_rep h (delivered (t_cpu s') (L(l \<mapsto> ts, RQ d \<mapsto> us @ [t], l \<mapsto> [])) ts)"
    by (rule Cons.IH [OF rep]) (use Cons.prems(3,4) in \<open>auto simp: s'_def\<close>)
  moreover have "run_all s l = run_all s' l" using h1 mr by (subst run_all.simps) (simp add: Let_def s'_def)
  moreover have "L(l \<mapsto> ts, RQ d \<mapsto> us @ [t], l \<mapsto> []) = L(l \<mapsto> [], RQ d \<mapsto> us @ [t])"
    using Cons.prems(3) [of d] by (auto simp: fun_eq_iff)
  moreover have "delivered (t_cpu s) (L(l \<mapsto> [])) (t # ts) = delivered (t_cpu s) (L(l \<mapsto> [], RQ d \<mapsto> us @ [t])) ts"
    using d Cons.prems(3) [of d] by simp
  ultimately have "\<exists>h p. run_all s l = Some (s\<lparr>lists := h, c_ipi_pending := p\<rparr>) \<and>
      heap_rep h (delivered (t_cpu s) (L(l \<mapsto> [])) (t # ts))"
    by (simp only: s'_def) auto
  then show ?case .
qed

section \<open>The invariant of the scheduler\<close>

text \<open>A thread on a list: it has not been destroyed, its state fits the list, and the thread on a run
  queue belongs to that processor. A thread that has been woken still has the state \<^verbatim>\<open>S_SLEEP\<close> until
  it runs. A thread is the address of its structure, so that fewer than \<open>2 ^ 32\<close> of them exist.\<close>

definition place_ok :: "sched \<Rightarrow> list_id \<Rightarrow> thread_id \<Rightarrow> bool" where
  "place_ok s l t \<longleftrightarrow> t < 4294967295 \<and> t \<notin> destroyed s \<and>
     ((\<exists>c < ncpus s. l = RQ c \<and> t_cpu s t = Some c \<and> t_state s t \<in> {S_READY, S_SLEEP}) \<or>
      (\<exists>w. l = WC w \<and> t_state s t = S_SLEEP \<and> (\<exists>c < ncpus s. t_cpu s t = Some c)) \<or>
      (\<exists>c < ncpus s. l = ZQ c \<and> t_state s t = S_ZOMBIE \<and> t_proc s t = None))"

text \<open>The thread that runs on a processor that does not idle is on no list.\<close>

definition cur_ok :: "sched \<Rightarrow> (list_id \<Rightarrow> thread_id list option) \<Rightarrow> nat \<Rightarrow> bool" where
  "cur_ok s L c \<longleftrightarrow> off_lists L (c_curthread s c) \<and> c_curthread s c < 4294967295 \<and>
     c_curthread s c \<notin> destroyed s \<and> t_cpu s (c_curthread s c) = Some c \<and>
     t_state s (c_curthread s c) \<in> {S_RUN, S_READY}"

definition sched_inv :: "sched \<Rightarrow> (list_id \<Rightarrow> thread_id list option) \<Rightarrow> bool" where
  "sched_inv s L \<longleftrightarrow> heap_rep (lists s) L \<and>
     (\<forall>c < ncpus s. L (RQ c) \<noteq> None \<and> L (ZQ c) \<noteq> None) \<and> (\<forall>c. L (LQ c) = None) \<and>
     (\<forall>l ts t. L l = Some ts \<longrightarrow> t \<in> set ts \<longrightarrow> place_ok s l t) \<and>
     (\<forall>c < ncpus s. \<not> c_isidle s c \<longrightarrow> cur_ok s L c)"

definition running :: "sched \<Rightarrow> thread_id set" where
  "running s = {c_curthread s c |c. c < ncpus s \<and> \<not> c_isidle s c}"

lemma place_ok_simps [simp]:
  "place_ok s (RQ c) t \<longleftrightarrow> t < 4294967295 \<and> t \<notin> destroyed s \<and> c < ncpus s \<and> t_cpu s t = Some c \<and>
     t_state s t \<in> {S_READY, S_SLEEP}"
  "place_ok s (WC w) t \<longleftrightarrow> t < 4294967295 \<and> t \<notin> destroyed s \<and> t_state s t = S_SLEEP \<and>
     (\<exists>c < ncpus s. t_cpu s t = Some c)"
  "place_ok s (ZQ c) t \<longleftrightarrow> t < 4294967295 \<and> t \<notin> destroyed s \<and> c < ncpus s \<and> t_state s t = S_ZOMBIE \<and>
     t_proc s t = None"
  by (auto simp: place_ok_def)

lemma sched_invD:
  assumes "sched_inv s L"
  shows "heap_rep (lists s) L" "c < ncpus s \<Longrightarrow> \<exists>ts. L (RQ c) = Some ts" "c < ncpus s \<Longrightarrow> \<exists>zs. L (ZQ c) = Some zs"
    "L (LQ d) = None" "L l = Some ts \<Longrightarrow> t \<in> set ts \<Longrightarrow> place_ok s l t"
    "c < ncpus s \<Longrightarrow> \<not> c_isidle s c \<Longrightarrow> cur_ok s L c"
  using assms by (auto simp: sched_inv_def)

lemma sched_inv_length:
  assumes "sched_inv s L" "L l = Some ts" shows "length ts < 4294967296"
proof -
  have "set ts \<subseteq> {..<4294967295}"
    using sched_invD(5) [OF assms(1,2)] by (auto simp: place_ok_def)
  then have "card (set ts) \<le> 4294967295" using card_mono [of "{..<4294967295}" "set ts"] by simp
  moreover have "distinct ts" using heap_rep_distinct sched_invD(1) assms by blast
  ultimately show ?thesis using distinct_card [of ts] by simp
qed

lemma sched_inv_isempty:
  assumes "sched_inv s L" "L l = Some ts"
  shows "threadlist_isempty (lists s) l \<longleftrightarrow> ts = []"
proof -
  have "(of_nat (length ts) :: u32) = 0 \<longleftrightarrow> length ts = 0"
    using sched_inv_length [OF assms] by (simp add: word_unat_eq_iff unsigned_of_nat take_bit_nat_eq_self)
  then show ?thesis
    using heap_rep_count [OF sched_invD(1) [OF assms(1)] assms(2)] by (simp add: threadlist_isempty_def)
qed

text \<open>A step that puts a thread on a list keeps the invariant, if the thread does not run any more.\<close>

lemma sched_inv_push:
  assumes inv: "sched_inv s L" and L: "L l = Some ts" and rep: "heap_rep h (L(l \<mapsto> ts'))"
    and ts': "set ts' = insert t (set ts)" and l: "\<And>c. l \<noteq> LQ c"
    and same: "t_cpu s' = t_cpu s" "ncpus s' = ncpus s" "c_curthread s' = c_curthread s" "t_proc s' = t_proc s"
      "destroyed s' = destroyed s" "lists s' = h" "\<And>u. u \<noteq> t \<Longrightarrow> t_state s' u = t_state s u"
    and off: "off_lists L t" and idle: "\<And>c. c < ncpus s \<Longrightarrow> \<not> c_isidle s' c \<Longrightarrow> \<not> c_isidle s c \<and> c_curthread s c \<noteq> t"
    and t: "place_ok s' l t"
  shows "sched_inv s' (L(l \<mapsto> ts'))"
  unfolding sched_inv_def
proof (intro conjI allI impI)
  show "heap_rep (lists s') (L(l \<mapsto> ts'))" using rep same by simp
next
  fix c assume "c < ncpus s'"
  then show "(L(l \<mapsto> ts')) (RQ c) \<noteq> None" "(L(l \<mapsto> ts')) (ZQ c) \<noteq> None"
    using sched_invD(2,3) [OF inv, of c] same by auto
next
  show "(L(l \<mapsto> ts')) (LQ c) = None" for c using sched_invD(4) [OF inv, of c] l [of c] by simp
next
  fix k us u
  assume k: "(L(l \<mapsto> ts')) k = Some us" "u \<in> set us"
  show "place_ok s' k u"
  proof (cases "u = t")
    case True
    then have "k = l" using k off by (auto simp: off_lists_def split: if_splits)
    then show ?thesis using t True by simp
  next
    case False
    then have "\<exists>vs. L k = Some vs \<and> u \<in> set vs" using k L ts' by (auto split: if_splits)
    then have "place_ok s k u" using sched_invD(5) [OF inv] by blast
    then show ?thesis using same False by (simp add: place_ok_def)
  qed
next
  fix c assume c: "c < ncpus s'" "\<not> c_isidle s' c"
  then have i: "\<not> c_isidle s c" "c_curthread s c \<noteq> t" using idle same by auto
  then have "cur_ok s L c" using sched_invD(6) [OF inv] c same by simp
  then show "cur_ok s' (L(l \<mapsto> ts')) c"
    using i same L ts' by (auto simp: cur_ok_def off_lists_def)
qed

text \<open>The list a thread goes to when it leaves the processor.\<close>

fun switch_list :: "nat \<Rightarrow> threadstate \<Rightarrow> nat \<Rightarrow> list_id" where
  "switch_list c S_ZOMBIE wc = ZQ c"
| "switch_list c S_SLEEP wc = WC wc"
| "switch_list c _ wc = RQ c"

definition may_switch :: "sched \<Rightarrow> (list_id \<Rightarrow> thread_id list option) \<Rightarrow> nat \<Rightarrow> threadstate \<Rightarrow> nat \<Rightarrow> bool" where
  "may_switch s L c newstate wc \<longleftrightarrow> c < ncpus s \<and> newstate \<noteq> S_RUN \<and>
     (newstate = S_SLEEP \<longrightarrow> L (WC wc) \<noteq> None) \<and>
     (newstate = S_ZOMBIE \<longrightarrow> t_proc s (c_curthread s c) = None)"

lemma switch_out_lists:
  assumes inv: "sched_inv s L" and m: "may_switch s L c newstate wc" and run: "\<not> c_isidle s c"
  shows "\<exists>h p ts. L (switch_list c newstate wc) = Some ts \<and>
     switch_out s c newstate wc = Some (s\<lparr>lists := h, c_ipi_pending := p,
       t_state := (t_state s)(c_curthread s c := newstate), c_isidle := (c_isidle s)(c := True)\<rparr>) \<and>
     heap_rep h (L(switch_list c newstate wc \<mapsto> ts @ [c_curthread s c]))"
proof -
  have c: "c < ncpus s" "newstate \<noteq> S_RUN" using m by (auto simp: may_switch_def)
  have cur: "off_lists L (c_curthread s c)" "t_cpu s (c_curthread s c) = Some c"
    using sched_invD(6) [OF inv c(1) run] by (auto simp: cur_ok_def)
  obtain ts where ts: "L (switch_list c newstate wc) = Some ts"
    using sched_invD(2,3) [OF inv c(1)] m c by (cases newstate) (auto simp: may_switch_def)
  obtain h where h: "threadlist_addtail (lists s) (switch_list c newstate wc) (c_curthread s c) = Some h"
      "heap_rep h (L(switch_list c newstate wc \<mapsto> ts @ [c_curthread s c]))"
    using push_tail [OF sched_invD(1) [OF inv] ts cur(1)] by blast
  show ?thesis
  proof (cases "newstate = S_READY")
    case True
    then obtain h p where "thread_make_runnable s (c_curthread s c) = Some (s\<lparr>lists := h, c_ipi_pending := p\<rparr>)"
        "heap_rep h (L(RQ c \<mapsto> ts @ [c_curthread s c]))"
      using make_runnable_ok [OF sched_invD(1) [OF inv] cur(2) _ cur(1)] ts by auto
    then show ?thesis using ts True
      by (intro exI [of _ h] exI [of _ p] exI [of _ ts]) (simp add: switch_out_def Let_def)
  next
    case False
    then show ?thesis using ts h c(2)
      by (intro exI [of _ h] exI [of _ "c_ipi_pending s"] exI [of _ ts], cases newstate)
        (simp_all add: switch_out_def Let_def)
  qed
qed

lemma cur_inj:
  assumes "sched_inv s L" "c < ncpus s" "d < ncpus s" "\<not> c_isidle s c" "\<not> c_isidle s d"
    "c_curthread s d = c_curthread s c"
  shows "d = c"
  using sched_invD(6) [OF assms(1,2,4)] sched_invD(6) [OF assms(1,3,5)] assms(6) by (simp add: cur_ok_def)

lemma switch_out_ok:
  assumes inv: "sched_inv s L" and m: "may_switch s L c newstate wc" and run: "\<not> c_isidle s c"
  shows "\<exists>s' ts. switch_out s c newstate wc = Some s' \<and> L (switch_list c newstate wc) = Some ts \<and>
     sched_inv s' (L(switch_list c newstate wc \<mapsto> ts @ [c_curthread s c])) \<and>
     c_isidle s' = (c_isidle s)(c := True) \<and> c_curthread s' = c_curthread s \<and> ncpus s' = ncpus s \<and>
     destroyed s' = destroyed s \<and> t_cpu s' = t_cpu s \<and> t_proc s' = t_proc s"
proof -
  obtain h p ts where o: "L (switch_list c newstate wc) = Some ts"
      "switch_out s c newstate wc = Some (s\<lparr>lists := h, c_ipi_pending := p,
         t_state := (t_state s)(c_curthread s c := newstate), c_isidle := (c_isidle s)(c := True)\<rparr>)"
      "heap_rep h (L(switch_list c newstate wc \<mapsto> ts @ [c_curthread s c]))"
    using switch_out_lists [OF assms] by blast
  define s' where "s' = s\<lparr>lists := h, c_ipi_pending := p,
         t_state := (t_state s)(c_curthread s c := newstate), c_isidle := (c_isidle s)(c := True)\<rparr>"
  have c: "c < ncpus s" "newstate \<noteq> S_RUN" using m by (auto simp: may_switch_def)
  have cur: "cur_ok s L c" by (rule sched_invD(6) [OF inv c(1) run])
  have "sched_inv s' (L(switch_list c newstate wc \<mapsto> ts @ [c_curthread s c]))"
  proof (rule sched_inv_push [OF inv o(1,3), of "c_curthread s c"])
    show "place_ok s' (switch_list c newstate wc) (c_curthread s c)"
      using m c cur by (cases newstate) (auto simp: s'_def cur_ok_def may_switch_def)
    show "\<not> c_isidle s d \<and> c_curthread s d \<noteq> c_curthread s c" if "d < ncpus s" "\<not> c_isidle s' d" for d
      using that run cur_inj [OF inv c(1) that(1) run] by (auto simp: s'_def split: if_splits)
    show "switch_list c newstate wc \<noteq> LQ d" for d by (cases newstate) simp_all
  qed (use cur in \<open>auto simp: s'_def cur_ok_def\<close>)
  then show ?thesis using o by (intro exI [of _ s'] exI [of _ ts]) (simp add: s'_def)
qed

lemma switch_in_idles:
  assumes "sched_inv s L" "L (RQ c) = Some []"
  shows "switch_in s c = Some (Idles, s)"
  using pop_head_Nil [OF sched_invD(1) [OF assms(1)] assms(2)] by (simp add: switch_in_def Let_def)

lemma switch_in_runs:
  assumes inv: "sched_inv s L" and c: "c < ncpus s" and idle: "c_isidle s c"
    and q: "L (RQ c) = Some (t # ts)" and z: "L (ZQ c) = Some zs"
  shows "\<exists>s'. switch_in s c = Some (Runs t, s') \<and> sched_inv s' (L(RQ c \<mapsto> ts, ZQ c \<mapsto> [])) \<and>
     c_isidle s' = (c_isidle s)(c := False) \<and> c_curthread s' = (c_curthread s)(c := t) \<and> ncpus s' = ncpus s \<and>
     destroyed s' = destroyed s \<union> set zs \<and> t_cpu s' = t_cpu s \<and> t_proc s' = t_proc s"
proof -
  obtain h where h: "threadlist_remhead (lists s) (RQ c) = Some (Some t, h)" "heap_rep h (L(RQ c \<mapsto> ts))"
      "off_lists (L(RQ c \<mapsto> ts)) t"
    using pop_head_Cons [OF sched_invD(1) [OF inv] q] by blast
  define s1 where "s1 = s\<lparr>lists := h, c_isidle := (c_isidle s)(c := False),
     c_curthread := (c_curthread s)(c := t), t_state := (t_state s)(t := S_RUN)\<rparr>"
  have tz: "t \<notin> set zs" using h(3) [unfolded off_lists_def, rule_format, of "ZQ c" zs] z by simp
  have pz: "place_ok s (ZQ c) u" if "u \<in> set zs" for u using sched_invD(5) [OF inv z that] .
  have "\<exists>h'. exorcise s1 c = Some (s1\<lparr>lists := h', destroyed := destroyed s1 \<union> set zs\<rparr>) \<and>
      heap_rep h' (L(RQ c \<mapsto> ts, ZQ c \<mapsto> []))"
    by (rule exorcise_ok) (use h(2) z tz pz in \<open>auto simp: s1_def\<close>)
  then obtain h' where h': "exorcise s1 c = Some (s1\<lparr>lists := h', destroyed := destroyed s \<union> set zs\<rparr>)"
      "heap_rep h' (L(RQ c \<mapsto> ts, ZQ c \<mapsto> []))" by (auto simp: s1_def)
  define s' where "s' = s1\<lparr>lists := h', destroyed := destroyed s \<union> set zs\<rparr>"
  have sel: "lists s' = h'" "c_isidle s' = (c_isidle s)(c := False)" "c_curthread s' = (c_curthread s)(c := t)"
    "ncpus s' = ncpus s" "destroyed s' = destroyed s \<union> set zs" "t_cpu s' = t_cpu s" "t_proc s' = t_proc s"
    "t_state s' = (t_state s)(t := S_RUN)"
    by (simp_all add: s'_def s1_def)
  have pt: "place_ok s (RQ c) t" using sched_invD(5) [OF inv q, of t] by simp
  have sub: "\<exists>us. L l = Some us \<and> u \<in> set us \<and> u \<noteq> t \<and> u \<notin> set zs"
    if "(L(RQ c \<mapsto> ts, ZQ c \<mapsto> [])) l = Some vs" "u \<in> set vs" for l u vs
  proof -
    have "\<exists>us. L l = Some us \<and> u \<in> set us \<and> l \<noteq> ZQ c" using that q by (auto split: if_splits)
    moreover have "u \<noteq> t" using that h(3) by (auto simp: off_lists_def split: if_splits)
    ultimately show ?thesis using heap_rep_disjoint [OF sched_invD(1) [OF inv] _ z] by blast
  qed
  have "sched_inv s' (L(RQ c \<mapsto> ts, ZQ c \<mapsto> []))" unfolding sched_inv_def
  proof (intro conjI allI impI)
    show "heap_rep (lists s') (L(RQ c \<mapsto> ts, ZQ c \<mapsto> []))" using h' sel by simp
  next
    fix d assume "d < ncpus s'"
    then show "(L(RQ c \<mapsto> ts, ZQ c \<mapsto> [])) (RQ d) \<noteq> None" "(L(RQ c \<mapsto> ts, ZQ c \<mapsto> [])) (ZQ d) \<noteq> None"
      using sched_invD(2,3) [OF inv, of d] sel by auto
  next
    show "(L(RQ c \<mapsto> ts, ZQ c \<mapsto> [])) (LQ d) = None" for d using sched_invD(4) [OF inv] by simp
  next
    fix l us u
    assume "(L(RQ c \<mapsto> ts, ZQ c \<mapsto> [])) l = Some us" "u \<in> set us"
    from sub [OF this] show "place_ok s' l u"
      using sched_invD(5) [OF inv, of l _ u] sel by (auto simp: place_ok_def)
  next
    fix d assume d: "d < ncpus s'" "\<not> c_isidle s' d"
    show "cur_ok s' (L(RQ c \<mapsto> ts, ZQ c \<mapsto> [])) d"
    proof (cases "d = c")
      case True
      then show ?thesis using pt sel tz h(3) by (auto simp: cur_ok_def off_lists_def)
    next
      case False
      then have "cur_ok s L d" using sched_invD(6) [OF inv, of d] d sel by simp
      then show ?thesis using False sel q z pt by (fastforce simp: cur_ok_def off_lists_def)
    qed
  qed
  moreover have "switch_in s c = Some (Runs t, s')"
  proof -
    have "s\<lparr>lists := h, c_isidle := (c_isidle s)(c := False), c_curthread := (c_curthread s)(c := t),
        t_state := (t_state s)(t := S_RUN)\<rparr> = s1" by (simp add: s1_def)
    then show ?thesis using h h' by (simp add: switch_in_def Let_def s'_def)
  qed
  ultimately show ?thesis using sel by auto
qed

lemma running_off:
  assumes "sched_inv s L" "c < ncpus s" "\<not> c_isidle s c"
    "c_isidle s' = (c_isidle s)(c := True)" "c_curthread s' = c_curthread s" "ncpus s' = ncpus s"
  shows "running s' = running s - {c_curthread s c}" "c_curthread s c \<in> running s"
  using cur_inj [OF assms(1,2) _ assms(3)] assms(2-) unfolding running_def by (auto split: if_splits) metis

lemma running_on:
  assumes "c < ncpus s" "c_isidle s c"
    "c_isidle s' = (c_isidle s)(c := False)" "c_curthread s' = (c_curthread s)(c := t)" "ncpus s' = ncpus s"
  shows "running s' = insert t (running s)"
  using assms unfolding running_def by (auto split: if_splits)

text \<open>The threads that exist: those on the lists and those that run.\<close>

definition alive :: "sched \<Rightarrow> (list_id \<Rightarrow> thread_id list option) \<Rightarrow> thread_id set" where
  "alive s L = listed L \<union> running s"

lemma alive_switch_out:
  assumes "sched_inv s L" "c < ncpus s" "\<not> c_isidle s c" "L l = Some ts"
    "c_isidle s' = (c_isidle s)(c := True)" "c_curthread s' = c_curthread s" "ncpus s' = ncpus s"
  shows "alive s' (L(l \<mapsto> ts @ [c_curthread s c])) = alive s L"
  using running_off [OF assms(1-3) assms(5-7)] listed_push [of L l ts "ts @ [c_curthread s c]" "c_curthread s c"] assms(4)
  by (auto simp: alive_def)

lemma alive_switch_in:
  assumes inv: "sched_inv s L" and c: "c < ncpus s" "c_isidle s c" and q: "L (RQ c) = Some (t # ts)" "L (ZQ c) = Some zs"
    and s': "c_isidle s' = (c_isidle s)(c := False)" "c_curthread s' = (c_curthread s)(c := t)" "ncpus s' = ncpus s"
  shows "alive s' (L(RQ c \<mapsto> ts, ZQ c \<mapsto> [])) \<union> set zs = alive s L"
proof -
  have "listed L = set zs \<union> listed (L(ZQ c := None))" by (rule listed_upd(2)) (rule q(2))
  also have "listed (L(ZQ c := None)) = insert t (set ts) \<union> listed (L(ZQ c := None, RQ c := None))"
    using listed_upd(2) [of "L(ZQ c := None)" "RQ c" "t # ts"] q by simp
  finally have "listed L = set zs \<union> insert t (set ts) \<union> listed (L(ZQ c := None, RQ c := None))"
    by (simp only: Un_assoc)
  moreover have "listed (L(RQ c \<mapsto> ts, ZQ c \<mapsto> [])) = listed (L(ZQ c := None, RQ c \<mapsto> ts))"
    by (simp add: listed_upd(1) [of _ "ZQ c"] fun_upd_twist [of "ZQ c" "RQ c"])
  ultimately show ?thesis using running_on [OF c s'] by (auto simp: alive_def listed_upd(1))
qed

subsection \<open>New processors and threads\<close>

lemma node_init_rep:
  assumes "heap_rep h L" "off_lists L t"
  shows "heap_rep (threadlistnode_init h (TNode t) t) L" "loose (threadlistnode_init h (TNode t) t) t"
proof -
  have "tl_rep (threadlistnode_init h (TNode t) t) l ts" if "L l = Some ts" for l ts
  proof (rule tl_rep_frame)
    show "tl_rep h l ts" using assms(1) that by (auto simp: heap_rep_def tls_rep_def)
    have "t \<notin> set ts" using assms(2) that by (simp add: off_lists_def)
    then show "next_of (threadlistnode_init h (TNode t) t) x = next_of h x \<and>
        prev_of (threadlistnode_init h (TNode t) t) x = prev_of h x \<and>
        self_of (threadlistnode_init h (TNode t) t) x = self_of h x" if "x \<in> set (chain l ts)" for x
      using that by (auto simp: threadlistnode_init_def set_chain)
  qed (simp add: threadlistnode_init_def)
  then show "heap_rep (threadlistnode_init h (TNode t) t) L"
    using assms(1) by (auto simp: heap_rep_def tls_rep_def threadlistnode_init_def)
  show "loose (threadlistnode_init h (TNode t) t) t"
    by (simp add: loose_def threadlistnode_cleanup_def threadlistnode_init_def)
qed

text \<open>A thread structure the allocator may return: it is in use nowhere.\<close>

definition fresh_thread :: "sched \<Rightarrow> (list_id \<Rightarrow> thread_id list option) \<Rightarrow> thread_id \<Rightarrow> bool" where
  "fresh_thread s L t \<longleftrightarrow> t < 4294967295 \<and> off_lists L t \<and> (\<forall>c < ncpus s. c_curthread s c \<noteq> t)"

lemma thread_create_ok:
  assumes inv: "sched_inv s L" and t: "fresh_thread s L t"
  shows "\<exists>s'. thread_create s (Some t) True = Some (t, s') \<and> sched_inv s' L \<and> loose (lists s') t \<and>
     t_state s' t = S_READY \<and> t_proc s' = (t_proc s)(t := None) \<and> t_cpu s' = (t_cpu s)(t := None) \<and>
     destroyed s' = destroyed s - {t} \<and>
     c_curthread s' = c_curthread s \<and> c_isidle s' = c_isidle s \<and> ncpus s' = ncpus s"
proof -
  have off: "off_lists L t" using t by (simp add: fresh_thread_def)
  define s' where "s' = s\<lparr>t_state := (t_state s)(t := S_READY), lists := threadlistnode_init (lists s) (TNode t) t,
     t_cpu := (t_cpu s)(t := None), t_proc := (t_proc s)(t := None), destroyed := destroyed s - {t}\<rparr>"
  have sel: "t_state s' = (t_state s)(t := S_READY)" "lists s' = threadlistnode_init (lists s) (TNode t) t"
    "t_cpu s' = (t_cpu s)(t := None)" "t_proc s' = (t_proc s)(t := None)" "destroyed s' = destroyed s - {t}"
    "c_curthread s' = c_curthread s" "c_isidle s' = c_isidle s" "ncpus s' = ncpus s"
    by (simp_all add: s'_def)
  have "sched_inv s' L" unfolding sched_inv_def
  proof (intro conjI allI impI)
    show "heap_rep (lists s') L" using node_init_rep(1) [OF sched_invD(1) [OF inv] off] sel by simp
    show "L (RQ c) \<noteq> None" "L (ZQ c) \<noteq> None" if "c < ncpus s'" for c using inv that sel by (auto simp: sched_inv_def)
    show "L (LQ c) = None" for c using sched_invD(4) [OF inv] .
    show "place_ok s' l u" if "L l = Some us" "u \<in> set us" for l us u
      using sched_invD(5) [OF inv that] off that sel by (auto simp: place_ok_def off_lists_def)
    show "cur_ok s' L c" if "c < ncpus s'" "\<not> c_isidle s' c" for c
      using sched_invD(6) [OF inv, of c] t that sel by (auto simp: cur_ok_def fresh_thread_def)
  qed
  then show ?thesis using node_init_rep(2) [OF sched_invD(1) [OF inv] off] sel
    by (intro exI [of _ s']) (simp add: thread_create_def s'_def)
qed

lemma cpu_create_ok:
  assumes inv: "sched_inv s L" and t: "fresh_thread s L t"
    and new: "L (RQ (ncpus s)) = None" "L (ZQ (ncpus s)) = None"
  shows "\<exists>s'. cpu_create s kproc True True (Some t) True True True = Some s' \<and>
     sched_inv s' (L(ZQ (ncpus s) \<mapsto> [], RQ (ncpus s) \<mapsto> [])) \<and> ncpus s' = Suc (ncpus s) \<and>
     \<not> c_isidle s' (ncpus s) \<and> c_curthread s' = (c_curthread s)(ncpus s := t) \<and> t_proc s' t = Some kproc"
proof -
  define n where "n = ncpus s"
  define L1 where "L1 = L(ZQ n \<mapsto> [], RQ n \<mapsto> [])"
  define s0 where "s0 = s\<lparr>lists := threadlist_init (threadlist_init (lists s) (ZQ n)) (RQ n),
     c_hardclocks := (c_hardclocks s)(n := 0), c_isidle := (c_isidle s)(n := False),
     c_ipi_pending := (c_ipi_pending s)(n := 0), c_numshootdown := (c_numshootdown s)(n := 0)\<rparr>"
  have off: "off_lists L1 u = off_lists L u" for u
    using new by (simp add: L1_def off_lists_listed n_def listed_new)
  have inv0: "sched_inv s0 L1" unfolding sched_inv_def
  proof (intro conjI allI impI)
    show "heap_rep (lists s0) L1" unfolding s0_def L1_def
      using heap_rep_init [OF heap_rep_init [OF sched_invD(1) [OF inv]]] by simp
    show "L1 (RQ c) \<noteq> None" "L1 (ZQ c) \<noteq> None" if "c < ncpus s0" for c
      using sched_invD(2,3) [OF inv, of c] that by (auto simp: L1_def s0_def)
    show "L1 (LQ c) = None" for c using sched_invD(4) [OF inv] by (simp add: L1_def)
    show "place_ok s0 l u" if "L1 l = Some us" "u \<in> set us" for l us u
      using sched_invD(5) [OF inv, of l us u] that by (auto simp: place_ok_def L1_def s0_def split: if_splits)
    show "cur_ok s0 L1 c" if "c < ncpus s0" "\<not> c_isidle s0 c" for c
      using sched_invD(6) [OF inv, of c] that off by (auto simp: cur_ok_def s0_def n_def split: if_splits)
  qed
  have f: "fresh_thread s0 L1 t" using t off by (simp add: fresh_thread_def s0_def)
  define s1 where "s1 = s0\<lparr>ncpus := n + 1\<rparr>"
  define s2 where "s2 = s1\<lparr>t_state := (t_state s1)(t := S_READY), lists := threadlistnode_init (lists s1) (TNode t) t,
     t_cpu := (t_cpu s1)(t := None), t_proc := (t_proc s1)(t := None), destroyed := destroyed s1 - {t}\<rparr>"
  define s' where "s' = s2\<lparr>c_curthread := (c_curthread s2)(n := t), t_proc := (t_proc s2)(t := Some kproc),
     t_cpu := (t_cpu s2)(t := Some n)\<rparr>"
  have cr: "thread_create s1 (Some t) True = Some (t, s2)" by (simp add: thread_create_def s2_def)
  have run: "cpu_create s kproc True True (Some t) True True True = Some s'"
    using cr by (simp add: cpu_create_def Let_def s0_def s1_def s'_def n_def)
  have sel: "t_state s' = (t_state s)(t := S_READY)" "lists s' = threadlistnode_init (lists s0) (TNode t) t"
    "t_cpu s' = (t_cpu s)(t := Some n)" "t_proc s' = (t_proc s)(t := Some kproc)" "destroyed s' = destroyed s - {t}"
    "c_curthread s' = (c_curthread s)(n := t)" "c_isidle s' = (c_isidle s)(n := False)" "ncpus s' = Suc n"
    by (simp_all add: s'_def s2_def s1_def s0_def)
  have tL1: "off_lists L1 t" using f by (simp add: fresh_thread_def)
  have "sched_inv s' L1" unfolding sched_inv_def
  proof (intro conjI allI impI)
    show "heap_rep (lists s') L1" using node_init_rep(1) [OF sched_invD(1) [OF inv0] tL1] sel by simp
    show "L1 (RQ c) \<noteq> None" "L1 (ZQ c) \<noteq> None" if "c < ncpus s'" for c
      using sched_invD(2,3) [OF inv, of c] that sel by (auto simp: L1_def n_def less_Suc_eq)
    show "L1 (LQ c) = None" for c using sched_invD(4) [OF inv0] .
    show "place_ok s' l u" if "L1 l = Some us" "u \<in> set us" for l us u
      using sched_invD(5) [OF inv0 that] tL1 that sel
      by (auto simp: place_ok_def off_lists_def s0_def n_def intro: less_SucI)
    show "cur_ok s' L1 c" if "c < ncpus s'" "\<not> c_isidle s' c" for c
      using sched_invD(6) [OF inv0, of c] t tL1 that sel
      by (auto simp: cur_ok_def fresh_thread_def s0_def n_def less_Suc_eq)
  qed
  then show ?thesis using run sel by (intro exI [of _ s']) (simp add: L1_def n_def)
qed

lemma thread_fork_ok:
  assumes inv: "sched_inv s L" and t: "fresh_thread s L t" and c: "c < ncpus s" "\<not> c_isidle s c" "L (RQ c) = Some ts"
  shows "\<exists>s'. thread_fork s c (Some p) (Some t) True True (Inr ()) = Some (Inr (), s') \<and>
     sched_inv s' (L(RQ c \<mapsto> ts @ [t])) \<and> ncpus s' = ncpus s \<and> c_isidle s' = c_isidle s \<and>
     c_curthread s' = c_curthread s \<and> t_proc s' = (t_proc s)(t := Some p)"
proof -
  obtain s1 where s1: "thread_create s (Some t) True = Some (t, s1)" "sched_inv s1 L" "t_state s1 t = S_READY"
      "t_proc s1 = (t_proc s)(t := None)" "t_cpu s1 = (t_cpu s)(t := None)" "destroyed s1 = destroyed s - {t}"
      "c_curthread s1 = c_curthread s" "c_isidle s1 = c_isidle s" "ncpus s1 = ncpus s"
    using thread_create_ok [OF inv t] by blast
  have cur: "t_cpu s (c_curthread s c) = Some c" "c_curthread s c \<noteq> t" "off_lists L t"
    using sched_invD(6) [OF inv c(1,2)] t c(1) by (auto simp: cur_ok_def fresh_thread_def)
  define s2 where "s2 = s1\<lparr>t_cpu := (t_cpu s1)(t := Some c), t_proc := (t_proc s1)(t := Some p)\<rparr>"
  have "\<exists>h q. thread_make_runnable s2 t = Some (s2\<lparr>lists := h, c_ipi_pending := q\<rparr>) \<and>
      heap_rep h (L(RQ c \<mapsto> ts @ [t])) \<and> (c_isidle s2 c \<longrightarrow> bit (q c) IPI_UNIDLE)"
    by (rule make_runnable_ok) (use sched_invD(1) [OF s1(2)] c cur in \<open>auto simp: s2_def\<close>)
  then obtain h q where r: "thread_make_runnable s2 t = Some (s2\<lparr>lists := h, c_ipi_pending := q\<rparr>)"
      "heap_rep h (L(RQ c \<mapsto> ts @ [t]))" by blast
  define s' where "s' = s2\<lparr>lists := h, c_ipi_pending := q\<rparr>"
  have inv2: "sched_inv s2 L" unfolding sched_inv_def
  proof (intro conjI allI impI)
    show "heap_rep (lists s2) L" using sched_invD(1) [OF s1(2)] by (simp add: s2_def)
    show "L (RQ d) \<noteq> None" "L (ZQ d) \<noteq> None" if "d < ncpus s2" for d
      using sched_invD(2,3) [OF s1(2), of d] that by (auto simp: s2_def)
    show "L (LQ d) = None" for d by (rule sched_invD(4) [OF inv])
    show "place_ok s2 l u" if "L l = Some us" "u \<in> set us" for l us u
      using sched_invD(5) [OF s1(2) that] that cur(3) by (auto simp: place_ok_def s2_def off_lists_def)
    show "cur_ok s2 L d" if "d < ncpus s2" "\<not> c_isidle s2 d" for d
      using sched_invD(6) [OF s1(2), of d] that t s1 by (auto simp: cur_ok_def s2_def fresh_thread_def)
  qed
  have "sched_inv s' (L(RQ c \<mapsto> ts @ [t]))"
    by (rule sched_inv_push [OF inv2 c(3) r(2), of t])
      (use s1 c cur t in \<open>auto simp: s'_def s2_def fresh_thread_def\<close>)
  moreover have "thread_fork s c (Some p) (Some t) True True (Inr ()) = Some (Inr (), s')"
    using s1 cur r by (simp add: thread_fork_def Let_def s'_def s2_def)
  ultimately show ?thesis using s1 by (intro exI [of _ s']) (simp add: s'_def s2_def)
qed

text \<open>The state before the first processor is created, and a machine with one processor, the thread
  1 running on it and two more threads that wait for it.\<close>

definition boot_sched :: sched where
  "boot_sched = \<lparr>lists = boot_heap, t_state = (\<lambda>_. S_ZOMBIE), t_cpu = (\<lambda>_. None), t_proc = (\<lambda>_. None),
     destroyed = {}, c_curthread = (\<lambda>_. 0), c_isidle = (\<lambda>_. False), c_hardclocks = (\<lambda>_. 0),
     c_ipi_pending = (\<lambda>_. 0), c_shootdown = (\<lambda>_. replicate 16 0), c_numshootdown = (\<lambda>_. 0), ncpus = 0\<rparr>"

lemma boot_sched_inv: "sched_inv boot_sched Map.empty"
  using boot_heap_rep_empty by (simp add: sched_inv_def boot_sched_def)

lemma demo_sched:
  obtains s where "sched_inv s [ZQ 0 \<mapsto> [], RQ 0 \<mapsto> [2, 3]]" "ncpus s = 1" "c_curthread s 0 = 1"
    "\<not> c_isidle s 0" "t_proc s 1 = Some 9"
proof -
  obtain s1 where s1: "sched_inv s1 [ZQ 0 \<mapsto> [], RQ 0 \<mapsto> []]" "ncpus s1 = 1" "\<not> c_isidle s1 0"
      "c_curthread s1 0 = 1" "t_proc s1 1 = Some 9"
    using cpu_create_ok [OF boot_sched_inv, of 1 9] by (auto simp: boot_sched_def fresh_thread_def off_lists_def)
  have "fresh_thread s1 [ZQ 0 \<mapsto> [], RQ 0 \<mapsto> []] 2"
    using s1 by (auto simp: fresh_thread_def off_lists_def split: if_splits)
  from thread_fork_ok [OF s1(1) this, of 0 "[]" 9] s1
  obtain s2 where s2: "sched_inv s2 [ZQ 0 \<mapsto> [], RQ 0 \<mapsto> [2]]" "ncpus s2 = 1" "\<not> c_isidle s2 0"
      "c_curthread s2 0 = 1" "t_proc s2 1 = Some 9" by auto
  have "fresh_thread s2 [ZQ 0 \<mapsto> [], RQ 0 \<mapsto> [2]] 3"
    using s2 by (auto simp: fresh_thread_def off_lists_def split: if_splits)
  from thread_fork_ok [OF s2(1) this, of 0 "[2]" 9] s2
  obtain s3 where "sched_inv s3 [ZQ 0 \<mapsto> [], RQ 0 \<mapsto> [2, 3]]" "ncpus s3 = 1" "\<not> c_isidle s3 0"
      "c_curthread s3 0 = 1" "t_proc s3 1 = Some 9" by auto
  then show ?thesis using that by blast
qed

text \<open>C9: a context switch never fails and keeps the invariant of the scheduler. It loses no thread and
  makes up none: every thread there was either is still there or was a zombie of this processor and
  has been destroyed. Where another thread runs, it is the head of the run queue, it is on no list
  any more, and no destroyed thread ever runs; where none is found the processor idles with an empty
  queue.\<close>

theorem thread_switch_conserves_threads:
  assumes "sched_inv s L" "may_switch s L c newstate wc"
  shows "\<exists>r s' L'. thread_switch s c newstate wc = Some (r, s') \<and> sched_inv s' L' \<and>
    alive s' L' \<union> (destroyed s' - destroyed s) = alive s L \<and> alive s' L' \<inter> destroyed s' = {} \<and>
    (case r of
       Returned \<Rightarrow> s' = s \<and> (c_isidle s c \<or> newstate = S_READY \<and> L (RQ c) = Some [])
     | Idles \<Rightarrow> c_isidle s' c \<and> L' (RQ c) = Some [] \<and> destroyed s' = destroyed s
     | Runs t \<Rightarrow> \<not> c_isidle s' c \<and> c_curthread s' c = t \<and> t \<notin> listed L' \<and> L' (ZQ c) = Some [] \<and>
         (\<exists>ts. L (RQ c) = Some ts \<and> t = hd (ts @ [c_curthread s c])))"
proof -
  have c: "c < ncpus s" using assms(2) by (simp add: may_switch_def)
  have safe: "alive s L \<inter> destroyed s = {}" if "sched_inv s L" for s L
    using sched_invD(5) [OF that] sched_invD(6) [OF that]
    by (auto simp: alive_def listed_iff running_def place_ok_def cur_ok_def)
  obtain ts where ts: "L (RQ c) = Some ts" using sched_invD(2) [OF assms(1) c] by blast
  show ?thesis
  proof (cases "c_isidle s c \<or> newstate = S_READY \<and> ts = []")
    case True
    then have "thread_switch s c newstate wc = Some (Returned, s)"
      using sched_inv_isempty [OF assms(1) ts] by (auto simp: thread_switch_def)
    then show ?thesis using True assms(1) safe ts by (intro exI [of _ Returned] exI [of _ s] exI [of _ L]) auto
  next
    case False
    then have run: "\<not> c_isidle s c" by simp
    define l where "l = switch_list c newstate wc"
    obtain s1 qs where s1: "switch_out s c newstate wc = Some s1" "L l = Some qs"
        "sched_inv s1 (L(l \<mapsto> qs @ [c_curthread s c]))" "c_isidle s1 = (c_isidle s)(c := True)"
        "c_curthread s1 = c_curthread s" "ncpus s1 = ncpus s" "destroyed s1 = destroyed s"
      using switch_out_ok [OF assms run] unfolding l_def by blast
    define L1 where "L1 = L(l \<mapsto> qs @ [c_curthread s c])"
    have sw: "thread_switch s c newstate wc = switch_in s1 c"
      using False s1(1) sched_inv_isempty [OF assms(1) ts] by (auto simp: thread_switch_def)
    have al: "alive s1 L1 = alive s L" unfolding L1_def by (rule alive_switch_out [OF assms(1) c run s1(2,4,5,6)])
    have inv1: "sched_inv s1 L1" using s1(3) by (simp add: L1_def)
    have c1: "c < ncpus s1" "c_isidle s1 c" using c s1 by auto
    obtain us zs where q: "L1 (RQ c) = Some us" "L1 (ZQ c) = Some zs"
      using sched_invD(2,3) [OF inv1 c1(1)] by blast
    show ?thesis
    proof (cases us)
      case Nil
      then have "switch_in s1 c = Some (Idles, s1)" using switch_in_idles [OF inv1] q by simp
      then show ?thesis using sw inv1 al safe [OF inv1] s1 c1 q Nil
        by (intro exI [of _ Idles] exI [of _ s1] exI [of _ L1]) auto
    next
      case (Cons t us')
      then have t: "t = hd (ts @ [c_curthread s c])"
        using q(1) s1(2) ts by (cases ts) (auto simp: L1_def split: if_splits)
      obtain s2 where s2: "switch_in s1 c = Some (Runs t, s2)" "sched_inv s2 (L1(RQ c \<mapsto> us', ZQ c \<mapsto> []))"
          "c_isidle s2 = (c_isidle s1)(c := False)" "c_curthread s2 = (c_curthread s1)(c := t)"
          "ncpus s2 = ncpus s1" "destroyed s2 = destroyed s1 \<union> set zs"
        using switch_in_runs [OF inv1 c1 _ q(2), of t us'] q(1) Cons by blast
      define L2 where "L2 = L1(RQ c \<mapsto> us', ZQ c \<mapsto> [])"
      have al2: "alive s2 L2 \<union> set zs = alive s1 L1" unfolding L2_def
        using alive_switch_in [OF inv1 c1 _ q(2) s2(3,4,5)] q(1) Cons by blast
      have "set zs \<inter> destroyed s1 = {}" using al2 safe [OF inv1] by auto
      then have "destroyed s2 - destroyed s = set zs" using s1(7) s2(6) by auto
      moreover have "cur_ok s2 L2 c" using sched_invD(6) [of s2 L2 c] s2 c1 by (simp add: L2_def)
      ultimately show ?thesis using sw s2 al al2 safe [of s2 L2] t ts
        by (intro exI [of _ "Runs t"] exI [of _ s2] exI [of _ L2]) (simp add: L2_def cur_ok_def off_lists_listed)
    qed
  qed
qed

theorem thread_switch_conserves_threads_witness:
  "\<exists>s r s'. sched_inv s [ZQ 0 \<mapsto> [], RQ 0 \<mapsto> [2, 3]] \<and> thread_switch s 0 S_READY 0 = Some (r, s')"
proof -
  obtain s where s: "sched_inv s [ZQ 0 \<mapsto> [], RQ 0 \<mapsto> [2, 3]]" "ncpus s = 1" by (rule demo_sched)
  then show ?thesis using thread_switch_conserves_threads [OF s(1), of 0 S_READY 0]
    by (auto simp: may_switch_def)
qed

section \<open>Round robin\<close>

lemma thread_yield_rotates:
  assumes inv: "sched_inv s L" and c: "c < ncpus s" "\<not> c_isidle s c" and q: "L (RQ c) = Some (t # ts)" "L (ZQ c) = Some []"
  shows "\<exists>s'. thread_yield s c = Some (Runs t, s') \<and> sched_inv s' (L(RQ c \<mapsto> ts @ [c_curthread s c])) \<and>
     ncpus s' = ncpus s \<and> \<not> c_isidle s' c \<and> c_curthread s' c = t"
proof -
  have m: "may_switch s L c S_READY 0" using c by (simp add: may_switch_def)
  obtain s1 where s1: "switch_out s c S_READY 0 = Some s1" "sched_inv s1 (L(RQ c \<mapsto> (t # ts) @ [c_curthread s c]))"
      "c_isidle s1 = (c_isidle s)(c := True)" "c_curthread s1 = c_curthread s" "ncpus s1 = ncpus s"
    using switch_out_ok [OF inv m c(2)] q by auto
  have "\<exists>s'. switch_in s1 c = Some (Runs t, s') \<and>
      sched_inv s' (L(RQ c \<mapsto> (t # ts) @ [c_curthread s c], RQ c \<mapsto> ts @ [c_curthread s c], ZQ c \<mapsto> [])) \<and>
      c_isidle s' = (c_isidle s1)(c := False) \<and> c_curthread s' = (c_curthread s1)(c := t) \<and> ncpus s' = ncpus s1 \<and>
      destroyed s' = destroyed s1 \<union> set [] \<and> t_cpu s' = t_cpu s1 \<and> t_proc s' = t_proc s1"
    by (rule switch_in_runs [OF s1(2)]) (use s1 c q in auto)
  moreover have "(L(RQ c \<mapsto> ts @ [c_curthread s c]))(ZQ c \<mapsto> []) = L(RQ c \<mapsto> ts @ [c_curthread s c])"
    using q(2) by (simp add: fun_upd_idem)
  moreover have "thread_yield s c = switch_in s1 c"
    using c s1(1) sched_inv_isempty [OF inv q(1)] by (simp add: thread_yield_def thread_switch_def)
  ultimately show ?thesis using s1 by auto
qed

text \<open>The processor yields \<open>n\<close> times in a row, whichever thread runs.\<close>

fun yields :: "nat \<Rightarrow> sched \<Rightarrow> nat \<Rightarrow> sched option" where
  "yields 0 s c = Some s"
| "yields (Suc n) s c = do {
     (r, s) \<leftarrow> thread_yield s c;
     yields n s c
   }"

lemma yields_rotate:
  assumes "sched_inv s L" "c < ncpus s" "\<not> c_isidle s c" "L (RQ c) = Some ts" "L (ZQ c) = Some []" "n \<le> length ts"
  shows "\<exists>s'. yields n s c = Some s' \<and> sched_inv s' (L(RQ c \<mapsto> tl (rotate n (c_curthread s c # ts)))) \<and>
     ncpus s' = ncpus s \<and> \<not> c_isidle s' c \<and> c_curthread s' c = hd (rotate n (c_curthread s c # ts))"
  using assms
proof (induction n arbitrary: s L ts)
  case 0
  then show ?case by (simp add: fun_upd_idem)
next
  case (Suc n)
  obtain t us where t: "ts = t # us" using Suc.prems(6) by (cases ts) auto
  obtain s1 where s1: "thread_yield s c = Some (Runs t, s1)" "sched_inv s1 (L(RQ c \<mapsto> us @ [c_curthread s c]))"
      "ncpus s1 = ncpus s" "\<not> c_isidle s1 c" "c_curthread s1 c = t"
    using thread_yield_rotates [OF Suc.prems(1-3) _ Suc.prems(5)] Suc.prems(4) t by blast
  have "\<exists>s'. yields n s1 c = Some s' \<and>
      sched_inv s' (L(RQ c \<mapsto> us @ [c_curthread s c], RQ c \<mapsto> tl (rotate n (c_curthread s1 c # us @ [c_curthread s c])))) \<and>
      ncpus s' = ncpus s1 \<and> \<not> c_isidle s' c \<and> c_curthread s' c = hd (rotate n (c_curthread s1 c # us @ [c_curthread s c]))"
    by (rule Suc.IH [OF s1(2)]) (use s1 Suc.prems t in simp_all)
  moreover have "rotate n (t # us @ [c_curthread s c]) = rotate (Suc n) (c_curthread s c # ts)"
    by (simp add: rotate1_rotate_swap t)
  ultimately have "\<exists>s'. yields (Suc n) s c = Some s' \<and>
      sched_inv s' (L(RQ c \<mapsto> tl (rotate (Suc n) (c_curthread s c # ts)))) \<and>
      ncpus s' = ncpus s \<and> \<not> c_isidle s' c \<and> c_curthread s' c = hd (rotate (Suc n) (c_curthread s c # ts))"
    using s1 by simp
  then show ?case .
qed

text \<open>C28: no thread on a run queue starves. The scheduler is round robin: the thread at place \<open>k\<close> of the
  queue runs after \<open>k + 1\<close> yields of the processor, and after a full round the thread that gave up the
  processor first is back, with the queue in its old order.\<close>

theorem round_robin:
  assumes "sched_inv s L" "c < ncpus s" "\<not> c_isidle s c" "L (RQ c) = Some ts" "L (ZQ c) = Some []"
  shows "(\<forall>k < length ts. \<exists>s'. yields (Suc k) s c = Some s' \<and> c_curthread s' c = ts ! k \<and> \<not> c_isidle s' c) \<and>
    (\<exists>s'. yields (Suc (length ts)) s c = Some s' \<and> c_curthread s' c = c_curthread s c \<and> sched_inv s' L)"
proof (intro conjI allI impI)
  fix k assume k: "k < length ts"
  have "hd (rotate (Suc k) (c_curthread s c # ts)) = ts ! k" using k by (simp add: hd_rotate_conv_nth del: rotate_Suc)
  then show "\<exists>s'. yields (Suc k) s c = Some s' \<and> c_curthread s' c = ts ! k \<and> \<not> c_isidle s' c"
    using yields_rotate [OF assms, of "Suc k"] k by auto
next
  show "\<exists>s'. yields (Suc (length ts)) s c = Some s' \<and> c_curthread s' c = c_curthread s c \<and> sched_inv s' L"
  proof (cases ts)
    case Nil
    then have "thread_yield s c = Some (Returned, s)"
      using assms sched_inv_isempty [OF assms(1,4)] by (simp add: thread_yield_def thread_switch_def)
    then show ?thesis using Nil assms by simp
  next
    case (Cons t us)
    obtain s1 where s1: "thread_yield s c = Some (Runs t, s1)" "sched_inv s1 (L(RQ c \<mapsto> us @ [c_curthread s c]))"
        "ncpus s1 = ncpus s" "\<not> c_isidle s1 c" "c_curthread s1 c = t"
      using thread_yield_rotates [OF assms(1-3) _ assms(5)] assms(4) Cons by blast
    have "\<exists>s'. yields (length ts) s1 c = Some s' \<and>
        sched_inv s' (L(RQ c \<mapsto> us @ [c_curthread s c], RQ c \<mapsto> tl (rotate (length ts) (c_curthread s1 c # us @ [c_curthread s c])))) \<and>
        ncpus s' = ncpus s1 \<and> \<not> c_isidle s' c \<and>
        c_curthread s' c = hd (rotate (length ts) (c_curthread s1 c # us @ [c_curthread s c]))"
      by (rule yields_rotate [OF s1(2)]) (use s1 assms Cons in simp_all)
    moreover have "rotate (length ts) (t # us @ [c_curthread s c]) = c_curthread s c # ts"
      using rotate_append [of "t # us" "[c_curthread s c]"] Cons by simp
    ultimately show ?thesis using s1 assms(4) Cons by (auto simp: fun_upd_idem)
  qed
qed

theorem round_robin_witness:
  "\<exists>s s'. sched_inv s [ZQ 0 \<mapsto> [], RQ 0 \<mapsto> [2, 3]] \<and> yields 2 s 0 = Some s' \<and> c_curthread s' 0 = 3"
proof -
  obtain s where s: "sched_inv s [ZQ 0 \<mapsto> [], RQ 0 \<mapsto> [2, 3]]" "ncpus s = 1" "\<not> c_isidle s 0" by (rule demo_sched)
  have "\<forall>k < length [2, 3 :: nat]. \<exists>s'. yields (Suc k) s 0 = Some s' \<and> c_curthread s' 0 = [2, 3] ! k \<and> \<not> c_isidle s' 0"
    using round_robin [OF s(1), of 0 "[2, 3]"] s by simp
  from this [rule_format, of 1] s show ?thesis by (auto simp: numeral_2_eq_2)
qed

section \<open>Waking every sleeper\<close>

lemma delivered_None:
  "L (RQ d) = None \<Longrightarrow> (\<And>t. t \<in> set ts \<Longrightarrow> cpu t \<noteq> None \<and> L (RQ (the (cpu t))) \<noteq> None) \<Longrightarrow>
   delivered cpu L ts (RQ d) = None"
proof (induction ts arbitrary: L)
  case (Cons t ts)
  obtain e vs where e: "cpu t = Some e" "L (RQ e) = Some vs" using Cons.prems(2) [of t] by auto
  then have "e \<noteq> d" using Cons.prems(1) by auto
  then have "delivered cpu (L(RQ e \<mapsto> vs @ [t])) ts (RQ d) = None"
    by (intro Cons.IH) (use Cons.prems in auto)
  then show ?case using e by simp
qed simp

lemma delivered_mem:
  assumes "delivered cpu L ts l = Some us" "u \<in> set us"
    "\<And>t. t \<in> set ts \<Longrightarrow> cpu t \<noteq> None \<and> L (RQ (the (cpu t))) \<noteq> None"
  shows "(\<exists>vs. L l = Some vs \<and> u \<in> set vs) \<or> (\<exists>d. l = RQ d \<and> u \<in> set ts \<and> cpu u = Some d)"
proof (cases "\<exists>d. l = RQ d")
  case True
  then obtain d where d: "l = RQ d" by blast
  show ?thesis
  proof (cases "L l")
    case None
    then have "delivered cpu L ts l = None" using delivered_None [of L d ts cpu] assms(3) d by simp
    then show ?thesis using assms(1) by simp
  next
    case (Some vs)
    then show ?thesis using delivered_RQ [of L d vs ts cpu] assms d by auto
  qed
next
  case False
  then have "L l = Some us" using delivered_other [of l cpu L ts] assms(1) by simp
  then show ?thesis using assms(2) by blast
qed

text \<open>C29: \<open>wchan_wakeall\<close> wakes exactly the threads that sleep on the channel: the channel is empty
  afterwards, every sleeper is at the tail of the run queue of its own processor, in the order in
  which they went to sleep, and every other list is as before.\<close>

theorem wchan_wakeall_wakes_sleepers:
  assumes inv: "sched_inv s L" and w: "L (WC wc) = Some ts"
  shows "\<exists>s' L'. wchan_wakeall s c wc = Some s' \<and> sched_inv s' L' \<and> wchan_isempty s' wc \<and> L' (WC wc) = Some [] \<and>
    (\<forall>d us. L (RQ d) = Some us \<longrightarrow> L' (RQ d) = Some (us @ filter (\<lambda>t. t_cpu s t = Some d) ts)) \<and>
    (\<forall>l. l \<noteq> WC wc \<longrightarrow> (\<forall>d. l \<noteq> RQ d) \<longrightarrow> L' l = L l)"
proof -
  have lq: "L (LQ d) = None" for d by (rule sched_invD(4) [OF inv])
  have cpu: "\<exists>d < ncpus s. t_cpu s t = Some d" if "t \<in> set ts" for t
    using sched_invD(5) [OF inv w that] by simp
  then have cpu': "t_cpu s t \<noteq> None \<and> L (RQ (the (t_cpu s t))) \<noteq> None" if "t \<in> set ts" for t
    using that sched_invD(2) [OF inv] by fastforce
  define L0 where "L0 = L(WC wc \<mapsto> [], LQ c \<mapsto> ts)"
  define L1 where "L1 = L(WC wc \<mapsto> [], LQ c \<mapsto> [])"
  define L2 where "L2 = delivered (t_cpu s) L1 ts"
  obtain h where h: "move_all (threadlist_init (lists s) (LQ c)) (WC wc) (LQ c) = Some h" "heap_rep h L0"
    using move_all_ok [OF heap_rep_init [OF sched_invD(1) [OF inv], of "LQ c"], of "WC wc" ts "LQ c" "[]"] w
    by (auto simp: L0_def fun_upd_twist [of "LQ c" "WC wc"])
  have "\<exists>h' p. run_all (s\<lparr>lists := h\<rparr>) (LQ c) = Some (s\<lparr>lists := h\<rparr>\<lparr>lists := h', c_ipi_pending := p\<rparr>) \<and>
      heap_rep h' (delivered (t_cpu (s\<lparr>lists := h\<rparr>)) (L0(LQ c \<mapsto> [])) ts)"
    by (rule run_all_ok) (use h cpu' in \<open>auto simp: L0_def\<close>)
  then obtain h' p where r: "run_all (s\<lparr>lists := h\<rparr>) (LQ c) = Some (s\<lparr>lists := h', c_ipi_pending := p\<rparr>)"
      "heap_rep h' L2" by (auto simp: L0_def L1_def L2_def)
  define s' where "s' = s\<lparr>lists := h', c_ipi_pending := p\<rparr>"
  have L2: "L2 l = L1 l" if "\<And>d. l \<noteq> RQ d" for l unfolding L2_def by (rule delivered_other [OF that])
  have L2q: "L2 (RQ d) = Some (us @ filter (\<lambda>t. t_cpu s t = Some d) ts)" if "L (RQ d) = Some us" for d us
    unfolding L2_def by (rule delivered_RQ) (use that cpu' in \<open>auto simp: L1_def\<close>)
  have empty: "tl_count h' (LQ c) = 0" "tl_count h' (WC wc) = 0"
    using heap_rep_count [OF r(2), of "LQ c" "[]"] heap_rep_count [OF r(2), of "WC wc" "[]"] L2 by (simp_all add: L1_def)
  have mem: "(\<exists>vs. L l = Some vs \<and> u \<in> set vs) \<and> l \<noteq> WC wc \<or> (\<exists>d. l = RQ d \<and> u \<in> set ts \<and> t_cpu s u = Some d)"
    if "(L2(LQ c := None)) l = Some us" "u \<in> set us" for l us u
    using delivered_mem [of "t_cpu s" L1 ts l us u] that cpu' by (auto simp: L2_def L1_def split: if_splits)
  have off: "off_lists (L2(LQ c := None)) u" if "off_lists L u" for u
    unfolding off_lists_def
  proof (intro allI impI notI)
    fix l us assume "(L2(LQ c := None)) l = Some us" "u \<in> set us"
    from mem [OF this] show False using that w by (auto simp: off_lists_def)
  qed
  have "sched_inv s' (L2(LQ c := None))" unfolding sched_inv_def
  proof (intro conjI allI impI)
    show "heap_rep (lists s') (L2(LQ c := None))" using heap_rep_forget [OF r(2)] by (simp add: s'_def)
    show "(L2(LQ c := None)) (RQ d) \<noteq> None" "(L2(LQ c := None)) (ZQ d) \<noteq> None" if "d < ncpus s'" for d
      using sched_invD(2,3) [OF inv, of d] that L2q [of d] L2 [of "ZQ d"] by (auto simp: s'_def L1_def)
    show "(L2(LQ c := None)) (LQ d) = None" for d using L2 [of "LQ d"] lq by (simp add: L1_def)
    show "place_ok s' l u" if "(L2(LQ c := None)) l = Some us" "u \<in> set us" for l us u
      using mem [OF that] sched_invD(5) [OF inv, of _ _ u] sched_invD(5) [OF inv w, of u]
      by (auto simp: s'_def place_ok_def)
    show "cur_ok s' (L2(LQ c := None)) d" if "d < ncpus s'" "\<not> c_isidle s' d" for d
      using sched_invD(6) [OF inv, of d] that off by (simp add: cur_ok_def s'_def)
  qed
  moreover have "wchan_wakeall s c wc = Some s'"
    using h r empty by (simp add: wchan_wakeall_def Let_def threadlist_cleanup_def threadlist_isempty_def s'_def)
  moreover have "wchan_isempty s' wc" using empty by (simp add: wchan_isempty_def threadlist_isempty_def s'_def)
  moreover have "(L2(LQ c := None)) l = L l" if "l \<noteq> WC wc" "\<forall>d. l \<noteq> RQ d" for l
    using L2 [of l] that lq by (auto simp: L1_def)
  ultimately show ?thesis using L2q L2 [of "WC wc"]
    by (intro exI [of _ s'] exI [of _ "L2(LQ c := None)"]) (simp add: L1_def)
qed

lemma wchan_create_ok:
  assumes inv: "sched_inv s L" and w: "L (WC wc) = None"
  shows "sched_inv (wchan_create s wc) (L(WC wc \<mapsto> []))"
  unfolding sched_inv_def
proof (intro conjI allI impI)
  show "heap_rep (lists (wchan_create s wc)) (L(WC wc \<mapsto> []))"
    using heap_rep_init [OF sched_invD(1) [OF inv]] by (simp add: wchan_create_def)
  show "(L(WC wc \<mapsto> [])) (RQ c) \<noteq> None" "(L(WC wc \<mapsto> [])) (ZQ c) \<noteq> None" if "c < ncpus (wchan_create s wc)" for c
    using sched_invD(2,3) [OF inv, of c] that by (auto simp: wchan_create_def)
  show "(L(WC wc \<mapsto> [])) (LQ c) = None" for c using sched_invD(4) [OF inv] by simp
  show "place_ok (wchan_create s wc) l t" if "(L(WC wc \<mapsto> [])) l = Some ts" "t \<in> set ts" for l ts t
    using sched_invD(5) [OF inv, of l ts t] that by (auto simp: place_ok_def wchan_create_def split: if_splits)
  show "cur_ok (wchan_create s wc) (L(WC wc \<mapsto> [])) c"
    if "c < ncpus (wchan_create s wc)" "\<not> c_isidle (wchan_create s wc) c" for c
    using sched_invD(6) [OF inv, of c] that w by (auto simp: cur_ok_def wchan_create_def off_lists_listed listed_new)
qed

lemma demo_sleeper:
  obtains s where "sched_inv s [ZQ 0 \<mapsto> [], RQ 0 \<mapsto> [2, 3], WC 5 \<mapsto> [1]]" "ncpus s = 1" "t_cpu s 1 = Some 0"
proof -
  obtain s where s: "sched_inv s [ZQ 0 \<mapsto> [], RQ 0 \<mapsto> [2, 3]]" "ncpus s = 1" "c_curthread s 0 = 1" "\<not> c_isidle s 0"
    by (rule demo_sched)
  define s1 where "s1 = wchan_create s 5"
  have inv1: "sched_inv s1 [ZQ 0 \<mapsto> [], RQ 0 \<mapsto> [2, 3], WC 5 \<mapsto> []]"
    using wchan_create_ok [OF s(1), of 5] by (simp add: s1_def)
  have s1: "ncpus s1 = 1" "c_curthread s1 0 = 1" "\<not> c_isidle s1 0" using s by (simp_all add: s1_def wchan_create_def)
  have cur: "t_cpu s1 1 = Some 0" using sched_invD(6) [OF inv1, of 0] s1 by (simp add: cur_ok_def)
  have "may_switch s1 [ZQ 0 \<mapsto> [], RQ 0 \<mapsto> [2, 3], WC 5 \<mapsto> []] 0 S_SLEEP 5" using s1 by (simp add: may_switch_def)
  from switch_out_ok [OF inv1 this s1(3)] obtain s2 where
    "sched_inv s2 [ZQ 0 \<mapsto> [], RQ 0 \<mapsto> [2, 3], WC 5 \<mapsto> [1]]" "ncpus s2 = 1" "t_cpu s2 1 = Some 0"
    using s1 cur by auto
  then show ?thesis using that by blast
qed

theorem wchan_wakeall_wakes_sleepers_witness:
  "\<exists>s s' L'. sched_inv s [ZQ 0 \<mapsto> [], RQ 0 \<mapsto> [2, 3], WC 5 \<mapsto> [1]] \<and> wchan_wakeall s 0 5 = Some s' \<and>
     sched_inv s' L' \<and> L' (RQ 0) = Some [2, 3, 1]"
proof -
  obtain s where s: "sched_inv s [ZQ 0 \<mapsto> [], RQ 0 \<mapsto> [2, 3], WC 5 \<mapsto> [1]]" "t_cpu s 1 = Some 0" by (rule demo_sleeper)
  obtain s' L' where "wchan_wakeall s 0 5 = Some s'" "sched_inv s' L'"
      "\<forall>d us. [ZQ 0 \<mapsto> [], RQ 0 \<mapsto> [2, 3], WC 5 \<mapsto> [1]] (RQ d) = Some us \<longrightarrow>
         L' (RQ d) = Some (us @ filter (\<lambda>t. t_cpu s t = Some d) [1])"
    using wchan_wakeall_wakes_sleepers [OF s(1), of 5 "[1]" 0] by auto
  then show ?thesis using s by (intro exI [of _ s] exI [of _ s'] exI [of _ L']) simp
qed

section \<open>Migration\<close>




























section \<open>Shootdown requests\<close>

text \<open>Requests that reach a processor before it takes the interrupt.\<close>

fun shootdowns :: "sched \<Rightarrow> nat \<Rightarrow> u32 list \<Rightarrow> sched option" where
  "shootdowns s d [] = Some s"
| "shootdowns s d (m # ms) = do {
     s \<leftarrow> ipi_tlbshootdown s d m;
     shootdowns s d ms
   }"

lemma shootdowns_append: "shootdowns s d (ms @ ns) = shootdowns s d ms \<bind> (\<lambda>s. shootdowns s d ns)"
  by (induction ms arbitrary: s) (auto simp: bind_assoc)

lemma shootdowns_fit:
  assumes "c_numshootdown s d = int k" "length (c_shootdown s d) = 16" "k + length ms \<le> 16"
  shows "\<exists>s'. shootdowns s d ms = Some s' \<and> c_numshootdown s' d = int (k + length ms) \<and>
     length (c_shootdown s' d) = 16 \<and> take (k + length ms) (c_shootdown s' d) = take k (c_shootdown s d) @ ms \<and>
     (ms \<noteq> [] \<longrightarrow> bit (c_ipi_pending s' d) IPI_TLBSHOOTDOWN)"
  using assms
proof (induction ms arbitrary: s k)
  case Nil
  then show ?case by simp
next
  case (Cons m ms)
  define s1 where "s1 = s\<lparr>c_shootdown := (c_shootdown s)(d := (c_shootdown s d)[k := m]),
     c_numshootdown := (c_numshootdown s)(d := int k + 1),
     c_ipi_pending := (c_ipi_pending s)(d := c_ipi_pending s d OR push_bit IPI_TLBSHOOTDOWN 1)\<rparr>"
  have step: "ipi_tlbshootdown s d m = Some s1"
    using Cons.prems by (simp add: ipi_tlbshootdown_def Let_def TLBSHOOTDOWN_MAX_def upd_def s1_def)
  have s1: "c_numshootdown s1 d = int (Suc k)" "length (c_shootdown s1 d) = 16" "Suc k + length ms \<le> 16"
      "take (Suc k) (c_shootdown s1 d) = take k (c_shootdown s d) @ [m]" "bit (c_ipi_pending s1 d) IPI_TLBSHOOTDOWN"
    using Cons.prems by (simp_all add: s1_def take_Suc_conv_app_nth bit_or_iff bit_exp_iff IPI_TLBSHOOTDOWN_def)
  obtain s' where s': "shootdowns s1 d ms = Some s'" "c_numshootdown s' d = int (Suc k + length ms)"
      "length (c_shootdown s' d) = 16" "take (Suc k + length ms) (c_shootdown s' d) = take (Suc k) (c_shootdown s1 d) @ ms"
      "ms \<noteq> [] \<longrightarrow> bit (c_ipi_pending s' d) IPI_TLBSHOOTDOWN"
    using Cons.IH [OF s1(1-3)] by blast
  then show ?case using step s1(4,5) by (cases ms) auto
qed

text \<open>sixteen pending shootdown requests for a processor are recorded in order and the
  seventeenth turns them into a request to drop every mapping, but the eighteenth stores its mapping
  before the array: the count is then \<open>- 1\<close>, which the code takes for an index.\<close>

theorem ipi_tlbshootdown_eighteenth:
  assumes "c_numshootdown s d = 0" "length (c_shootdown s d) = TLBSHOOTDOWN_MAX"
  shows "(length ms \<le> 16 \<longrightarrow> (\<exists>s'. shootdowns s d ms = Some s' \<and> c_numshootdown s' d = int (length ms) \<and>
            take (length ms) (c_shootdown s' d) = ms)) \<and>
    (length ms = 17 \<longrightarrow> (\<exists>s'. shootdowns s d ms = Some s' \<and> c_numshootdown s' d = TLBSHOOTDOWN_ALL)) \<and>
    (17 < length ms \<longrightarrow> shootdowns s d ms = None)"
proof (intro conjI impI)
  assume "length ms \<le> 16"
  then show "\<exists>s'. shootdowns s d ms = Some s' \<and> c_numshootdown s' d = int (length ms) \<and>
      take (length ms) (c_shootdown s' d) = ms"
    using shootdowns_fit [of s d 0 ms] assms by (auto simp: TLBSHOOTDOWN_MAX_def)
next
  have seventeen: "\<exists>s'. shootdowns s d (ns @ [m]) = Some s' \<and> c_numshootdown s' d = TLBSHOOTDOWN_ALL"
    if "length ns = 16" for ns m
    using shootdowns_fit [of s d 0 ns] that assms
    by (auto simp: TLBSHOOTDOWN_MAX_def shootdowns_append ipi_tlbshootdown_def)
  {
    assume len: "length ms = 17"
    then show "\<exists>s'. shootdowns s d ms = Some s' \<and> c_numshootdown s' d = TLBSHOOTDOWN_ALL"
      using seventeen [of "butlast ms" "last ms"] by (cases "ms = []") auto
  }
  assume len: "17 < length ms"
  define ns m p ps where "ns = take 16 ms" and "m = ms ! 16" and "p = ms ! 17" and "ps = drop 18 ms"
  have ms: "ms = (ns @ [m]) @ p # ps"
    using len id_take_nth_drop [of 16 ms] Cons_nth_drop_Suc [of 17 ms] by (simp add: ns_def m_def p_def ps_def)
  have "length ns = 16" using len by (simp add: ns_def)
  then obtain s' where s': "shootdowns s d (ns @ [m]) = Some s'" "c_numshootdown s' d = TLBSHOOTDOWN_ALL"
    using seventeen by blast
  then have "ipi_tlbshootdown s' d p = None"
    by (simp add: ipi_tlbshootdown_def TLBSHOOTDOWN_ALL_def TLBSHOOTDOWN_MAX_def KASSERT_def)
  then show "shootdowns s d ms = None" unfolding ms shootdowns_append [of s d "ns @ [m]"] s'(1) by simp
qed

theorem ipi_tlbshootdown_eighteenth_witness: "shootdowns boot_sched 0 (replicate 18 4096) = None"
  using ipi_tlbshootdown_eighteenth [of boot_sched 0 "replicate 18 4096"]
  by (simp add: boot_sched_def TLBSHOOTDOWN_MAX_def)

end
