(* ===== verification/Spinlock.thy ===== *)
theory Spinlock
  imports Prelude
begin

text \<open>
  \<^verbatim>\<open>kern/thread/spl.c\<close> and \<^verbatim>\<open>kern/thread/spinlock.c\<close>: turning interrupts off and on, and the
  spinlocks that use it. The interrupt state is that of one thread on its processor; the spinlock is
  a shared word that several processors test and set, one access at a time.
\<close>

section \<open>Interrupt priority\<close>


















section \<open>Spinlocks\<close>

record spinlock =
  lk_lock :: u32
  lk_holder :: "nat option"

definition spinlock_init :: spinlock where
  "spinlock_init = \<lparr>lk_lock = 0, lk_holder = None\<rparr>"

definition spinlock_cleanup :: "spinlock \<Rightarrow> unit option" where
  "spinlock_cleanup lk = do {
     KASSERT (lk_holder lk = None);
     KASSERT (lk_lock lk = 0)
   }"

definition spinlock_do_i_hold :: "nat \<Rightarrow> spinlock \<Rightarrow> bool" where
  "spinlock_do_i_hold c lk \<longleftrightarrow> lk_holder lk = Some c"

text \<open>The word the test-and-set returns and the word it leaves; a store-conditional that fails leaves
  the word alone and pretends that the lock was held.\<close>

definition spinlock_data_testandset :: "bool \<Rightarrow> u32 \<Rightarrow> u32 \<times> u32" where
  "spinlock_data_testandset sc_ok x = (if sc_ok then (x, 1) else (1, x))"

text \<open>Where a processor is: outside, in \<open>spinlock_acquire\<close> before the check for a deadlock, before the
  read of the word, before the test-and-set and before the store of the holder, holding the lock, and
  in \<open>spinlock_release\<close> before the word is cleared.\<close>

datatype spin_pc = Outside | Checking | Testing | Setting | Claiming | Holding | Clearing

record spin_sys =
  lk :: spinlock
  at :: "nat \<Rightarrow> spin_pc"
  halted :: bool

definition goto :: "spin_sys \<Rightarrow> nat \<Rightarrow> spin_pc \<Rightarrow> spin_sys" where
  "goto m c q = m\<lparr>at := (at m)(c := q)\<rparr>"

text \<open>One access of processor \<open>c\<close> to the lock. A processor that holds the lock may also call
  \<open>spinlock_acquire\<close> again, which panics, as does a failed assertion of \<open>spinlock_release\<close>.\<close>

inductive spin_step :: "spin_sys \<Rightarrow> spin_sys \<Rightarrow> bool" where
  call: "at m c = Outside \<Longrightarrow> spin_step m (goto m c Checking)"
| recall: "at m c = Holding \<Longrightarrow> lk_holder (lk m) = Some c \<Longrightarrow> spin_step m (m\<lparr>halted := True\<rparr>)"
| deadlock: "at m c = Checking \<Longrightarrow> lk_holder (lk m) = Some c \<Longrightarrow> spin_step m (m\<lparr>halted := True\<rparr>)"
| check: "at m c = Checking \<Longrightarrow> lk_holder (lk m) \<noteq> Some c \<Longrightarrow> spin_step m (goto m c Testing)"
| spin: "at m c = Testing \<Longrightarrow> lk_lock (lk m) \<noteq> 0 \<Longrightarrow> spin_step m (goto m c Testing)"
| test: "at m c = Testing \<Longrightarrow> lk_lock (lk m) = 0 \<Longrightarrow> spin_step m (goto m c Setting)"
| testandset: "at m c = Setting \<Longrightarrow> spinlock_data_testandset sc_ok (lk_lock (lk m)) = (r, w) \<Longrightarrow>
     spin_step m (goto (m\<lparr>lk := (lk m)\<lparr>lk_lock := w\<rparr>\<rparr>) c (if r \<noteq> 0 then Testing else Claiming))"
| claim: "at m c = Claiming \<Longrightarrow> spin_step m (goto (m\<lparr>lk := (lk m)\<lparr>lk_holder := Some c\<rparr>\<rparr>) c Holding)"
| release: "at m c = Holding \<Longrightarrow> lk_holder (lk m) = Some c \<Longrightarrow>
     spin_step m (goto (m\<lparr>lk := (lk m)\<lparr>lk_holder := None\<rparr>\<rparr>) c Clearing)"
| release_fails: "at m c = Holding \<Longrightarrow> lk_holder (lk m) \<noteq> Some c \<Longrightarrow> spin_step m (m\<lparr>halted := True\<rparr>)"
| clear: "at m c = Clearing \<Longrightarrow> spin_step m (goto (m\<lparr>lk := (lk m)\<lparr>lk_lock := 0\<rparr>\<rparr>) c Outside)"

inductive spin_reach :: "spin_sys \<Rightarrow> bool" where
  init: "spin_reach \<lparr>lk = spinlock_init, at = (\<lambda>_. Outside), halted = False\<rparr>"
| step: "spin_reach m \<Longrightarrow> \<not> halted m \<Longrightarrow> spin_step m m' \<Longrightarrow> spin_reach m'"

definition owns :: "spin_pc \<Rightarrow> bool" where
  "owns q \<longleftrightarrow> q \<in> {Claiming, Holding, Clearing}"

text \<open>The invariant, for the processor \<open>w\<close> that has won the test-and-set, if any.\<close>

definition spin_inv :: "nat option \<Rightarrow> spin_sys \<Rightarrow> bool" where
  "spin_inv w m \<longleftrightarrow> (\<forall>c. owns (at m c) \<longleftrightarrow> w = Some c) \<and> lk_lock (lk m) = (if w = None then 0 else 1) \<and>
     (\<forall>c. lk_holder (lk m) = Some c \<longleftrightarrow> at m c = Holding)"

lemma spin_invD:
  assumes "spin_inv w m"
  shows "owns (at m c) \<longleftrightarrow> w = Some c" "lk_lock (lk m) = (if w = None then 0 else 1)"
    "lk_holder (lk m) = Some c \<longleftrightarrow> at m c = Holding"
  using assms by (simp_all add: spin_inv_def)

lemma owns_simps [simp]:
  "owns Claiming" "owns Holding" "owns Clearing" "\<not> owns Outside" "\<not> owns Checking" "\<not> owns Testing" "\<not> owns Setting"
  by (simp_all add: owns_def)

lemma spin_inv_goto:
  assumes "spin_inv w m" "at m c \<noteq> Holding" "q \<noteq> Holding" "owns (at m c) = owns q"
  shows "spin_inv w (goto m c q)"
  using assms by (auto simp: spin_inv_def goto_def)

lemma spin_inv_step:
  assumes "spin_step m m'" "spin_inv w m"
  shows "\<exists>w'. spin_inv w' m'"
  using assms
proof cases
  case (testandset c sc_ok r x)
  have c: "w \<noteq> Some c" using spin_invD(1) [OF assms(2), of c] testandset by simp
  show ?thesis
  proof (cases "sc_ok \<and> w = None")
    case True
    then have "r = 0" "x = 1" using testandset spin_invD(2) [OF assms(2)] by (simp_all add: spinlock_data_testandset_def)
    moreover have "\<not> owns (at m d)" "lk_holder (lk m) \<noteq> Some d" for d
      using True spin_invD(1,3) [OF assms(2), of d] by (auto simp: owns_def)
    ultimately have "spin_inv (Some c) m'" using testandset(1) spin_invD(3) [OF assms(2)]
      by (simp add: spin_inv_def goto_def)
    then show ?thesis by blast
  next
    case False
    then have "r = 1" "x = lk_lock (lk m)"
      using testandset spin_invD(2) [OF assms(2)] by (auto simp: spinlock_data_testandset_def split: if_splits)
    then have "m' = goto m c Testing" using testandset(1) by simp
    then show ?thesis using spin_inv_goto [OF assms(2), of c Testing] testandset by auto
  qed
next
  case (clear c)
  then have "w = Some c" using spin_invD(1) [OF assms(2), of c] by simp
  then have "spin_inv None m'" using clear spin_invD(1,3) [OF assms(2)] by (simp add: spin_inv_def goto_def)
  then show ?thesis by blast
next
  case (claim c)
  then have w: "w = Some c" using spin_invD(1) [OF assms(2), of c] by simp
  then have "at m d \<noteq> Holding" if "d \<noteq> c" for d using spin_invD(1) [OF assms(2), of d] that by auto
  then have "spin_inv w m'" using claim w spin_invD(1,2) [OF assms(2)] by (auto simp: spin_inv_def goto_def)
  then show ?thesis by blast
next
  case (release c)
  then have w: "w = Some c" using spin_invD(1) [OF assms(2), of c] by simp
  then have "at m d \<noteq> Holding" if "d \<noteq> c" for d using spin_invD(1) [OF assms(2), of d] that by auto
  then have "spin_inv w m'" using release w spin_invD(1,2) [OF assms(2)] by (auto simp: spin_inv_def goto_def)
  then show ?thesis by blast
next
  case (call c)
  then show ?thesis using spin_inv_goto [OF assms(2), of c Checking] by auto
next
  case (check c)
  then show ?thesis using spin_inv_goto [OF assms(2), of c Testing] by auto
next
  case (spin c)
  then show ?thesis using spin_inv_goto [OF assms(2), of c Testing] by auto
next
  case (test c)
  then show ?thesis using spin_inv_goto [OF assms(2), of c Setting] by auto
qed (use assms(2) in \<open>auto simp: spin_inv_def\<close>)

lemma spin_reach_inv: "spin_reach m \<Longrightarrow> \<exists>w. spin_inv w m"
proof (induction rule: spin_reach.induct)
  case init
  show ?case by (rule exI [of _ None]) (simp add: spinlock_init_def spin_inv_def)
next
  case step
  then show ?case using spin_inv_step by blast
qed

text \<open>C24: a spinlock is held by at most one processor, whatever the interleaving of the accesses and
  whichever store-conditionals fail. The recorded holder is the processor that holds the lock, so
  that the deadlock check of \<open>spinlock_acquire\<close> and the assertion of \<open>spinlock_release\<close> are exact: they
  never fire for a processor outside, and a lock nobody is using may be cleaned up.\<close>

theorem spinlock_mutual_exclusion:
  assumes "spin_reach m"
  shows "(at m c = Holding \<and> at m d = Holding \<longrightarrow> c = d) \<and>
    (spinlock_do_i_hold c (lk m) \<longleftrightarrow> at m c = Holding) \<and>
    (at m c = Checking \<longrightarrow> lk_holder (lk m) \<noteq> Some c) \<and>
    ((\<forall>c. \<not> owns (at m c)) \<longrightarrow> spinlock_cleanup (lk m) = Some ())"
proof -
  obtain w where w: "spin_inv w m" using spin_reach_inv [OF assms] by blast
  have one: "w = Some d" if "at m d = Holding" for d using spin_invD(1) [OF w, of d] that by simp
  have "spinlock_cleanup (lk m) = Some ()" if free: "\<forall>c. \<not> owns (at m c)"
  proof -
    have "w = None" using free spin_invD(1) [OF w] by (cases w) auto
    moreover have "lk_holder (lk m) = None" 
    proof (rule ccontr)
      assume "lk_holder (lk m) \<noteq> None"
      then obtain d where "at m d = Holding" using spin_invD(3) [OF w] by blast
      then show False using free [rule_format, of d] by simp
    qed
    ultimately show ?thesis using spin_invD(2) [OF w] by (simp add: spinlock_cleanup_def)
  qed
  moreover have "c = d" if "at m c = Holding" "at m d = Holding" using one [OF that(1)] one [OF that(2)] by simp
  ultimately show ?thesis using spin_invD(3) [OF w, of c] by (simp add: spinlock_do_i_hold_def)
qed

theorem spinlock_mutual_exclusion_witness:
  "\<exists>m. spin_reach m \<and> at m 0 = Holding \<and> spinlock_do_i_hold 0 (lk m) \<and> \<not> spinlock_do_i_hold 1 (lk m)"
proof -
  define m0 where "m0 = \<lparr>lk = spinlock_init, at = (\<lambda>_. Outside), halted = False\<rparr>"
  define m1 where "m1 = goto m0 0 Checking"
  define m2 where "m2 = goto m1 0 Testing"
  define m3 where "m3 = goto m2 0 Setting"
  define m4 where "m4 = goto (m3\<lparr>lk := (lk m3)\<lparr>lk_lock := 1\<rparr>\<rparr>) 0 Claiming"
  define m5 where "m5 = goto (m4\<lparr>lk := (lk m4)\<lparr>lk_holder := Some 0\<rparr>\<rparr>) 0 Holding"
  note d = m0_def m1_def m2_def m3_def m4_def m5_def goto_def spinlock_init_def
  have 0: "spin_reach m0" unfolding m0_def by (rule spin_reach.init)
  have 1: "spin_reach m1" using 0 spin_step.call [of m0 0] by (auto intro: spin_reach.step simp: d)
  have 2: "spin_reach m2" using 1 spin_step.check [of m1 0] by (auto intro: spin_reach.step simp: d)
  have 3: "spin_reach m3" using 2 spin_step.test [of m2 0] by (auto intro: spin_reach.step simp: d)
  have "spin_step m3 m4" using spin_step.testandset [of m3 0 True 0 1] by (simp add: d spinlock_data_testandset_def)
  then have 4: "spin_reach m4" using 3 by (rule spin_reach.step [rotated -1]) (simp add: d)
  have 5: "spin_reach m5" using 4 spin_step.claim [of m4 0] by (auto intro: spin_reach.step simp: d)
  have "at m5 0 = Holding" "at m5 1 \<noteq> Holding" by (simp_all add: d)
  then show ?thesis using spinlock_mutual_exclusion [OF 5, of 0 1] spinlock_mutual_exclusion [OF 5, of 1 0] 5 by auto
qed

end
