(* ===== verification/Synch.thy ===== *)
theory Synch
  imports Prelude
begin

text \<open>
  \<^verbatim>\<open>kern/thread/synch.c\<close>: semaphores and locks, under every interleaving of the threads that use
  them. Both are a value protected by a spinlock, with a wait channel for the threads that must wait;
  the threads advance one access at a time, from one acquisition or release of the spinlock or of the
  channel's lock to the next. The channel is the queue of its sleepers, as \<^verbatim>\<open>wchan_sleep\<close> and
  \<^verbatim>\<open>wchan_wakeone\<close> keep it. What differs between the two is in the records \<open>sem_obj\<close> and \<open>lock_obj\<close>.
\<close>

section \<open>The protected values\<close>

record semaphore =
  sem_count :: int

record klock =
  hold :: bool
  owner :: "nat option"

text \<open>Creating them. The arguments say which allocations succeed. A lock or condition variable is
  made even if its wait channel could not be.\<close>

definition sem_create :: "int \<Rightarrow> bool \<Rightarrow> bool \<Rightarrow> bool \<Rightarrow> semaphore option option" where
  "sem_create initial_count mem_ok name_ok wchan_ok = do {
     KASSERT (0 \<le> initial_count);
     Some (if mem_ok \<and> name_ok \<and> wchan_ok then Some \<lparr>sem_count = initial_count\<rparr> else None)
   }"

definition lock_create :: "bool \<Rightarrow> bool \<Rightarrow> nat option \<Rightarrow> (klock \<times> nat option) option" where
  "lock_create mem_ok name_ok wchan =
     (if mem_ok \<and> name_ok then Some (\<lparr>hold = False, owner = None\<rparr>, wchan) else None)"

definition cv_create :: "bool \<Rightarrow> bool \<Rightarrow> nat option \<Rightarrow> nat option option" where
  "cv_create mem_ok name_ok wchan = (if mem_ok \<and> name_ok then Some wchan else None)"

definition lock_do_i_hold :: "nat \<Rightarrow> klock \<Rightarrow> bool" where
  "lock_do_i_hold curthread lock \<longleftrightarrow> hold lock \<and> owner lock = Some curthread"

text \<open>What distinguishes one kind of object from another: when a thread must wait, what it does to the
  value when it goes through and when it gives it back, and what must hold when it makes the calls.\<close>

record 'v obj =
  must_wait :: "'v \<Rightarrow> bool"
  take_it :: "nat \<Rightarrow> 'v \<Rightarrow> 'v option"
  give_it :: "nat \<Rightarrow> 'v \<Rightarrow> 'v option"
  may_down :: "nat \<Rightarrow> 'v \<Rightarrow> bool"
  may_up :: "nat \<Rightarrow> 'v \<Rightarrow> bool"

definition P_take :: "nat \<Rightarrow> semaphore \<Rightarrow> semaphore option" where
  "P_take curthread sem = do {
     KASSERT (0 < sem_count sem);
     Some (sem\<lparr>sem_count := sem_count sem - 1\<rparr>)
   }"

definition V_give :: "nat \<Rightarrow> semaphore \<Rightarrow> semaphore option" where
  "V_give curthread sem = do {
     let sem = sem\<lparr>sem_count := s32 (sem_count sem + 1)\<rparr>;
     KASSERT (0 < sem_count sem);
     Some sem
   }"

definition sem_obj :: "semaphore obj" where
  "sem_obj = \<lparr>must_wait = (\<lambda>sem. sem_count sem = 0), take_it = P_take, give_it = V_give,
     may_down = (\<lambda>_ _. True), may_up = (\<lambda>_ _. True)\<rparr>"

definition lock_take :: "nat \<Rightarrow> klock \<Rightarrow> klock option" where
  "lock_take curthread lock = Some (lock\<lparr>hold := True, owner := Some curthread\<rparr>)"

definition lock_give :: "nat \<Rightarrow> klock \<Rightarrow> klock option" where
  "lock_give curthread lock = Some (lock\<lparr>hold := False, owner := None\<rparr>)"

definition lock_obj :: "klock obj" where
  "lock_obj = \<lparr>must_wait = hold, take_it = lock_take, give_it = lock_give,
     may_down = (\<lambda>t lock. \<not> lock_do_i_hold t lock), may_up = lock_do_i_hold\<rparr>"

section \<open>The interleaving of the threads\<close>

text \<open>Where a thread is. In \<^verbatim>\<open>P\<close> or \<^verbatim>\<open>lock_acquire\<close>: before taking the spinlock, at the test of the loop,
  before locking the channel, before releasing the spinlock, before sleeping, asleep, and before
  releasing the spinlock for good. In \<^verbatim>\<open>V\<close> or \<^verbatim>\<open>lock_release\<close>: before taking the spinlock, before
  changing the value, before the wakeup and before releasing the spinlock.\<close>

datatype pc = Out | PSpin | PLoop | PBridge | PUnlock | PSleep | PAsleep | PDone | VSpin | VGive | VWake | VDone

datatype event = Took nat | Gave nat

record 'v mon =
  val :: 'v
  mspin :: "nat option"
  mwlock :: "nat option"
  sleepers :: "nat list"
  mat :: "nat \<Rightarrow> pc"
  log :: "event list"
  panicked :: bool

definition mgoto :: "nat \<Rightarrow> pc \<Rightarrow> 'v mon \<Rightarrow> 'v mon" where
  "mgoto t q m = m\<lparr>mat := (mat m)(t := q)\<rparr>"

text \<open>\<^verbatim>\<open>wchan_sleep\<close> and \<^verbatim>\<open>wchan_wakeone\<close> on the channel: a sleeper unlocks the channel, a thread that is
  woken goes for the spinlock again.\<close>

definition mon_sleep :: "nat \<Rightarrow> 'v mon \<Rightarrow> 'v mon" where
  "mon_sleep t m = mgoto t PAsleep (m\<lparr>sleepers := sleepers m @ [t], mwlock := None\<rparr>)"

definition mon_wakeone :: "'v mon \<Rightarrow> 'v mon" where
  "mon_wakeone m = (case sleepers m of [] \<Rightarrow> m | u # us \<Rightarrow> mgoto u PSpin (m\<lparr>sleepers := us\<rparr>))"

inductive mon_step :: "'v obj \<Rightarrow> nat \<Rightarrow> 'v mon \<Rightarrow> 'v mon \<Rightarrow> bool" for ob t m where
  down_call: "mat m t = Out \<Longrightarrow> may_down ob t (val m) \<Longrightarrow> mon_step ob t m (mgoto t PSpin m)"
| down_refused: "mat m t = Out \<Longrightarrow> \<not> may_down ob t (val m) \<Longrightarrow> mon_step ob t m (m\<lparr>panicked := True\<rparr>)"
| p_spin: "mat m t = PSpin \<Longrightarrow> mspin m = None \<Longrightarrow> mon_step ob t m (mgoto t PLoop (m\<lparr>mspin := Some t\<rparr>))"
| p_wait: "mat m t = PLoop \<Longrightarrow> must_wait ob (val m) \<Longrightarrow> mon_step ob t m (mgoto t PBridge m)"
| p_bridge: "mat m t = PBridge \<Longrightarrow> mwlock m = None \<Longrightarrow> mon_step ob t m (mgoto t PUnlock (m\<lparr>mwlock := Some t\<rparr>))"
| p_unlock: "mat m t = PUnlock \<Longrightarrow> mon_step ob t m (mgoto t PSleep (m\<lparr>mspin := None\<rparr>))"
| p_sleep: "mat m t = PSleep \<Longrightarrow> mon_step ob t m (mon_sleep t m)"
| p_take: "mat m t = PLoop \<Longrightarrow> \<not> must_wait ob (val m) \<Longrightarrow> take_it ob t (val m) = Some v \<Longrightarrow>
     mon_step ob t m (mgoto t PDone (m\<lparr>val := v, log := log m @ [Took t]\<rparr>))"
| p_refused: "mat m t = PLoop \<Longrightarrow> \<not> must_wait ob (val m) \<Longrightarrow> take_it ob t (val m) = None \<Longrightarrow>
     mon_step ob t m (m\<lparr>panicked := True\<rparr>)"
| p_done: "mat m t = PDone \<Longrightarrow> mon_step ob t m (mgoto t Out (m\<lparr>mspin := None\<rparr>))"
| up_call: "mat m t = Out \<Longrightarrow> may_up ob t (val m) \<Longrightarrow> mon_step ob t m (mgoto t VSpin m)"
| up_refused: "mat m t = Out \<Longrightarrow> \<not> may_up ob t (val m) \<Longrightarrow> mon_step ob t m (m\<lparr>panicked := True\<rparr>)"
| v_spin: "mat m t = VSpin \<Longrightarrow> mspin m = None \<Longrightarrow> mon_step ob t m (mgoto t VGive (m\<lparr>mspin := Some t\<rparr>))"
| v_give: "mat m t = VGive \<Longrightarrow> give_it ob t (val m) = Some v \<Longrightarrow>
     mon_step ob t m (mgoto t VWake (m\<lparr>val := v, log := log m @ [Gave t]\<rparr>))"
| v_refused: "mat m t = VGive \<Longrightarrow> give_it ob t (val m) = None \<Longrightarrow> mon_step ob t m (m\<lparr>panicked := True\<rparr>)"
| v_wake: "mat m t = VWake \<Longrightarrow> mwlock m = None \<Longrightarrow> mon_step ob t m (mgoto t VDone (mon_wakeone m))"
| v_done: "mat m t = VDone \<Longrightarrow> mon_step ob t m (mgoto t Out (m\<lparr>mspin := None\<rparr>))"

definition mon_init :: "'v \<Rightarrow> 'v mon" where
  "mon_init v = \<lparr>val = v, mspin = None, mwlock = None, sleepers = [], mat = (\<lambda>_. Out), log = [], panicked = False\<rparr>"

inductive mon_reach :: "'v obj \<Rightarrow> 'v \<Rightarrow> 'v mon \<Rightarrow> bool" for ob v where
  init: "mon_reach ob v (mon_init v)"
| step: "mon_reach ob v m \<Longrightarrow> \<not> panicked m \<Longrightarrow> mon_step ob t m m' \<Longrightarrow> mon_reach ob v m'"

text \<open>A thread that will go on by itself: it neither sleeps nor is outside.\<close>

definition active :: "'v mon \<Rightarrow> nat \<Rightarrow> bool" where
  "active m t \<longleftrightarrow> mat m t \<noteq> Out \<and> mat m t \<noteq> PAsleep"

definition tooks :: "event list \<Rightarrow> nat" where
  "tooks es = length (filter (\<lambda>e. case e of Took _ \<Rightarrow> True | Gave _ \<Rightarrow> False) es)"

definition gaves :: "event list \<Rightarrow> nat" where
  "gaves es = length (filter (\<lambda>e. case e of Took _ \<Rightarrow> False | Gave _ \<Rightarrow> True) es)"

lemma log_counts [simp]:
  "tooks [] = 0" "gaves [] = 0" "tooks (es @ [Took t]) = Suc (tooks es)" "tooks (es @ [Gave t]) = tooks es"
  "gaves (es @ [Took t]) = gaves es" "gaves (es @ [Gave t]) = Suc (gaves es)"
  by (simp_all add: tooks_def gaves_def)

section \<open>The contract of an object\<close>

text \<open>An object has a number of tokens: a thread waits while there are none, takes one when it goes
  through and adds one when it gives it back. A thread that may give one back keeps that right while
  others act.\<close>

locale token_object =
  fixes ob :: "'v obj" and tokens :: "'v \<Rightarrow> nat" and okv :: "'v \<Rightarrow> bool"
  assumes wait_iff: "okv v \<Longrightarrow> must_wait ob v \<longleftrightarrow> tokens v = 0"
    and take_ok: "okv v \<Longrightarrow> 0 < tokens v \<Longrightarrow> \<exists>v'. take_it ob t v = Some v' \<and> okv v' \<and> Suc (tokens v') = tokens v"
    and give_ok: "okv v \<Longrightarrow> may_up ob t v \<Longrightarrow> give_it ob t v = Some v' \<Longrightarrow> okv v' \<and> tokens v' = Suc (tokens v)"
    and take_keeps: "okv v \<Longrightarrow> may_up ob t v \<Longrightarrow> 0 < tokens v \<Longrightarrow> take_it ob u v = Some v' \<Longrightarrow> may_up ob t v'"
    and give_keeps: "okv v \<Longrightarrow> may_up ob t v \<Longrightarrow> may_up ob u v \<Longrightarrow> u \<noteq> t \<Longrightarrow> give_it ob u v = Some v' \<Longrightarrow> may_up ob t v'"
begin

definition spin_held :: "pc \<Rightarrow> bool" where
  "spin_held q \<longleftrightarrow> q \<in> {PLoop, PBridge, PUnlock, PDone, VGive, VWake, VDone}"

definition wlock_held :: "pc \<Rightarrow> bool" where
  "wlock_held q \<longleftrightarrow> q \<in> {PUnlock, PSleep}"

text \<open>The threads that will look at the value again, or will wake a thread that does.\<close>

definition awake :: "'v mon \<Rightarrow> nat set" where
  "awake m = {t. mat m t \<in> {PSpin, PLoop, VWake}}"

definition locks_ok :: "'v mon \<Rightarrow> bool" where
  "locks_ok m \<longleftrightarrow> (\<forall>t. mspin m = Some t \<longleftrightarrow> spin_held (mat m t)) \<and> (\<forall>t. mwlock m = Some t \<longleftrightarrow> wlock_held (mat m t))"

definition chan_ok :: "'v mon \<Rightarrow> bool" where
  "chan_ok m \<longleftrightarrow> (\<forall>t. mat m t = PAsleep \<longleftrightarrow> t \<in> set (sleepers m)) \<and> distinct (sleepers m) \<and> finite {t. mat m t \<noteq> Out}"

definition value_ok :: "'v mon \<Rightarrow> bool" where
  "value_ok m \<longleftrightarrow> okv (val m) \<and> (\<forall>t. mat m t \<in> {PBridge, PUnlock} \<longrightarrow> tokens (val m) = 0) \<and>
     (\<forall>t. mat m t \<in> {VSpin, VGive} \<longrightarrow> may_up ob t (val m))"

definition wake_ok :: "'v mon \<Rightarrow> bool" where
  "wake_ok m \<longleftrightarrow> (sleepers m \<noteq> [] \<or> (\<exists>t. mat m t = PSleep) \<longrightarrow> tokens (val m) \<le> card (awake m))"

definition log_ok :: "'v \<Rightarrow> 'v mon \<Rightarrow> bool" where
  "log_ok v0 m \<longleftrightarrow> tokens (val m) + tooks (log m) = tokens v0 + gaves (log m)"

lemma mat_mgoto [simp]: "mat (mgoto t q m) = (mat m)(t := q)"
  "val (mgoto t q m) = val m" "mspin (mgoto t q m) = mspin m" "mwlock (mgoto t q m) = mwlock m"
  "sleepers (mgoto t q m) = sleepers m" "log (mgoto t q m) = log m" "panicked (mgoto t q m) = panicked m"
  by (simp_all add: mgoto_def)

lemma held_simps [simp]:
  "spin_held PLoop" "spin_held PBridge" "spin_held PUnlock" "spin_held PDone" "spin_held VGive" "spin_held VWake" "spin_held VDone"
  "\<not> spin_held Out" "\<not> spin_held PSpin" "\<not> spin_held PSleep" "\<not> spin_held PAsleep" "\<not> spin_held VSpin"
  "wlock_held PUnlock" "wlock_held PSleep" "\<not> wlock_held Out" "\<not> wlock_held PSpin" "\<not> wlock_held PLoop" "\<not> wlock_held PBridge"
  "\<not> wlock_held PAsleep" "\<not> wlock_held PDone" "\<not> wlock_held VSpin" "\<not> wlock_held VGive" "\<not> wlock_held VWake" "\<not> wlock_held VDone"
  by (simp_all add: spin_held_def wlock_held_def)

lemma awake_simps:
  "q \<in> {PSpin, PLoop, VWake} \<Longrightarrow> awake (mgoto t q m) = insert t (awake m)"
  "q \<notin> {PSpin, PLoop, VWake} \<Longrightarrow> awake (mgoto t q m) = awake m - {t}"
  by (auto simp: awake_def)

lemma finite_goto: "finite {u. mat m u \<noteq> Out} \<Longrightarrow> finite {u. (if u = t then q else mat m u) \<noteq> Out}"
  by (rule finite_subset [of _ "insert t {u. mat m u \<noteq> Out}"]) auto

lemma finite_awake: "chan_ok m \<Longrightarrow> finite (awake m)"
  unfolding chan_ok_def awake_def by (auto elim!: rev_finite_subset)

text \<open>Only the holder of the spinlock changes it back, and so on.\<close>

lemma locks_ok_step:
  assumes "mon_step ob t m m'" "locks_ok m" "chan_ok m"
  shows "locks_ok m'"
proof -
  have sp: "mspin m = Some u \<longleftrightarrow> spin_held (mat m u)" and wl: "mwlock m = Some u \<longleftrightarrow> wlock_held (mat m u)" for u
    using assms(2) by (simp_all add: locks_ok_def)
  have sl: "mat m u = PAsleep" if "u \<in> set (sleepers m)" for u using assms(3) that by (simp add: chan_ok_def)
  show ?thesis using assms(1)
  proof cases
    case v_wake
    show ?thesis
    proof (cases "sleepers m")
      case Nil
      then show ?thesis using v_wake sp wl by (auto simp: locks_ok_def mon_wakeone_def)
    next
      case (Cons u us)
      then have "mat m u = PAsleep" using sl by simp
      then show ?thesis using Cons v_wake sp wl by (auto simp: locks_ok_def mon_wakeone_def)
    qed
  next
    case p_unlock
    then have "spin_held (mat m u) \<longleftrightarrow> u = t" for u using sp [of u] sp [of t] by auto
    then show ?thesis using p_unlock wl by (auto simp: locks_ok_def)
  next
    case p_sleep
    then have "wlock_held (mat m u) \<longleftrightarrow> u = t" for u using wl [of u] wl [of t] by auto
    then show ?thesis using p_sleep sp by (auto simp: locks_ok_def mon_sleep_def)
  next
    case p_done
    then have "spin_held (mat m u) \<longleftrightarrow> u = t" for u using sp [of u] sp [of t] by auto
    then show ?thesis using p_done wl by (auto simp: locks_ok_def)
  next
    case v_done
    then have "spin_held (mat m u) \<longleftrightarrow> u = t" for u using sp [of u] sp [of t] by auto
    then show ?thesis using v_done wl by (auto simp: locks_ok_def)
  qed (use sp wl in \<open>auto simp: locks_ok_def\<close>)
qed

lemma chan_ok_step:
  assumes "mon_step ob t m m'" "chan_ok m"
  shows "chan_ok m'"
proof -
  have sl: "mat m u = PAsleep \<longleftrightarrow> u \<in> set (sleepers m)" for u using assms(2) by (simp add: chan_ok_def)
  have fin: "finite {u. mat m u \<noteq> Out}" and dist: "distinct (sleepers m)" using assms(2) by (simp_all add: chan_ok_def)
  show ?thesis using assms(1)
  proof cases
    case v_wake
    show ?thesis
    proof (cases "sleepers m")
      case Nil
      then show ?thesis using v_wake sl dist finite_goto [OF fin] by (auto simp: chan_ok_def mon_wakeone_def)
    next
      case (Cons u us)
      have m': "mat m' = (mat m)(u := PSpin, t := VDone)" "sleepers m' = us"
        using v_wake Cons by (simp_all add: mon_wakeone_def)
      show ?thesis unfolding chan_ok_def
      proof (intro conjI allI)
        show "(mat m' x = PAsleep) = (x \<in> set (sleepers m'))" for x
          using sl [of x] sl [of t] Cons dist v_wake(2) by (auto simp: m')
        show "distinct (sleepers m')" using Cons dist m' by simp
        show "finite {x. mat m' x \<noteq> Out}"
          by (rule finite_subset [of _ "{t, u} \<union> {x. mat m x \<noteq> Out}"]) (use fin m' in auto)
      qed
    qed
  next
    case p_sleep
    then have "t \<notin> set (sleepers m)" using sl [of t] by simp
    then show ?thesis using p_sleep sl dist finite_goto [OF fin] by (auto simp: chan_ok_def mon_sleep_def)
  qed (use sl sl [of t] dist fin finite_goto [OF fin] in \<open>auto simp: chan_ok_def\<close>)
qed

text \<open>The value changes only when a thread takes or gives, and these are counted.\<close>

lemma val_step:
  assumes "mon_step ob t m m'"
  shows "val m' = val m \<and> log m' = log m \<or>
    mat m t = PLoop \<and> \<not> must_wait ob (val m) \<and> take_it ob t (val m) = Some (val m') \<and> log m' = log m @ [Took t] \<or>
    mat m t = VGive \<and> give_it ob t (val m) = Some (val m') \<and> log m' = log m @ [Gave t]"
  using assms by cases (auto simp: mon_sleep_def mon_wakeone_def split: list.splits)

lemma value_ok_step:
  assumes "mon_step ob t m m'" "value_ok m" "locks_ok m"
  shows "value_ok m'"
proof -
  have v: "okv (val m)" and br: "mat m u \<in> {PBridge, PUnlock} \<Longrightarrow> tokens (val m) = 0"
    and up: "mat m u \<in> {VSpin, VGive} \<Longrightarrow> may_up ob u (val m)" for u
    using assms(2) by (auto simp: value_ok_def)
  have sp: "mspin m = Some u \<longleftrightarrow> spin_held (mat m u)" for u using assms(3) by (simp add: locks_ok_def)
  show ?thesis using assms(1)
  proof cases
    case (p_take v')
    have tok: "0 < tokens (val m)" using p_take wait_iff [OF v] by simp
    have "okv v'" using take_ok [OF v tok, of t] p_take by auto
    moreover have "mat m u \<notin> {PBridge, PUnlock}" for u using sp [of u] sp [of t] p_take(2) by auto
    moreover have "may_up ob u v'" if "mat m u \<in> {VSpin, VGive}" for u
      using take_keeps [OF v up [OF that] tok] p_take by auto
    ultimately show ?thesis using p_take(1) by (auto simp: value_ok_def)
  next
    case (v_give v')
    have me: "may_up ob t (val m)" using up v_give by simp
    have "okv v'" using give_ok [OF v me] v_give by auto
    moreover have "mat m u \<notin> {PBridge, PUnlock}" for u using sp [of u] sp [of t] v_give(2) by auto
    moreover have "may_up ob u v'" if "mat m u \<in> {VSpin, VGive}" "u \<noteq> t" for u
      using give_keeps [OF v up [OF that(1)] me _ v_give(3)] that by auto
    ultimately show ?thesis using v_give(1) by (auto simp: value_ok_def)
  next
    case p_wait
    then have "tokens (val m) = 0" using wait_iff [OF v] by simp
    then show ?thesis using p_wait v br up by (auto simp: value_ok_def)
  next
    case v_wake
    then show ?thesis using v br up by (auto simp: value_ok_def mon_wakeone_def split: list.splits)
  qed (use v br up in \<open>auto simp: value_ok_def mon_sleep_def\<close>)
qed

lemma log_ok_step:
  assumes "mon_step ob t m m'" "value_ok m" "log_ok v0 m"
  shows "log_ok v0 m'"
proof -
  have v: "okv (val m)" and up: "mat m t = VGive \<Longrightarrow> may_up ob t (val m)" using assms(2) by (auto simp: value_ok_def)
  have "Suc (tokens (val m')) = tokens (val m)"
    if "\<not> must_wait ob (val m)" "take_it ob t (val m) = Some (val m')"
    using take_ok [OF v, of t] wait_iff [OF v] that by auto
  moreover have "tokens (val m') = Suc (tokens (val m))" if "mat m t = VGive" "give_it ob t (val m) = Some (val m')"
    using give_ok [OF v up [OF that(1)] that(2)] by simp
  ultimately show ?thesis using val_step [OF assms(1)] assms(3) by (auto simp: log_ok_def)
qed

lemma wake_ok_step:
  assumes step: "mon_step ob t m m'" and v: "value_ok m" and l: "locks_ok m" and c: "chan_ok m" and w: "wake_ok m"
  shows "wake_ok m'"
proof -
  have okv: "okv (val m)" and br: "mat m u \<in> {PBridge, PUnlock} \<Longrightarrow> tokens (val m) = 0"
    and up: "mat m u \<in> {VSpin, VGive} \<Longrightarrow> may_up ob u (val m)" for u
    using v by (auto simp: value_ok_def)
  have fin: "finite (awake m)" by (rule finite_awake [OF c])
  have w': "tokens (val m) \<le> card (awake m)" if "sleepers m \<noteq> [] \<or> (\<exists>u. mat m u = PSleep)" using w that by (simp add: wake_ok_def)
  have keep: "wake_ok (mgoto t q n)"
    if "val n = val m" "sleepers n = sleepers m" "mat n = mat m" "q \<noteq> PSleep"
      "mat m t \<in> {PSpin, PLoop, VWake} \<longrightarrow> q \<in> {PSpin, PLoop, VWake} \<or> tokens (val m) = 0" for q and n :: "'v mon"
  proof (cases "tokens (val m) = 0")
    case True
    then show ?thesis using that by (simp add: wake_ok_def)
  next
    case False
    have "awake m \<subseteq> awake (mgoto t q n)" using that False by (auto simp: awake_def)
    moreover have "finite (awake (mgoto t q n))"
      by (rule finite_subset [OF _ finite.insertI [OF fin, of t]])
        (use that(3) in \<open>auto simp: awake_def split: if_splits\<close>)
    ultimately have "card (awake m) \<le> card (awake (mgoto t q n))" by (rule card_mono [rotated])
    moreover have "sleepers m \<noteq> [] \<or> (\<exists>u. mat m u = PSleep)" if "sleepers n \<noteq> [] \<or> (\<exists>u. mat (mgoto t q n) u = PSleep)"
      using that \<open>sleepers n = sleepers m\<close> \<open>mat n = mat m\<close> \<open>q \<noteq> PSleep\<close> by (auto split: if_splits)
    ultimately show ?thesis using w' that(1) unfolding wake_ok_def by fastforce
  qed
  show ?thesis using step
  proof cases
    case p_unlock
    then have "tokens (val m) = 0" using br [of t] by simp
    then show ?thesis using p_unlock by (simp add: wake_ok_def)
  next
    case p_sleep
    have "tokens (val m) \<le> card (awake m)" using w' p_sleep by blast
    moreover have "awake (mon_sleep t m) = awake m" using p_sleep by (auto simp: awake_def mon_sleep_def)
    ultimately show ?thesis using p_sleep by (simp add: wake_ok_def mon_sleep_def)
  next
    case (p_take v')
    have tok: "0 < tokens (val m)" using p_take wait_iff [OF okv] by simp
    then have tok': "Suc (tokens v') = tokens (val m)" using take_ok [OF okv tok, of t] p_take by auto
    have "awake m' = awake m - {t}" "t \<in> awake m" using p_take by (auto simp: awake_def)
    then have "card (awake m') = card (awake m) - 1" using fin by simp
    moreover have "sleepers m \<noteq> [] \<or> (\<exists>u. mat m u = PSleep)" if "sleepers m' \<noteq> [] \<or> (\<exists>u. mat m' u = PSleep)"
      using that p_take(1) by (auto split: if_splits)
    moreover have "val m' = v'" using p_take(1) by simp
    ultimately show ?thesis using w' tok' unfolding wake_ok_def by fastforce
  next
    case (v_give v')
    have tok': "tokens v' = Suc (tokens (val m))" using give_ok [OF okv up] v_give by auto
    have "awake m' = insert t (awake m)" "t \<notin> awake m" using v_give by (auto simp: awake_def)
    then have "card (awake m') = Suc (card (awake m))" using fin by simp
    moreover have "sleepers m \<noteq> [] \<or> (\<exists>u. mat m u = PSleep)" if "sleepers m' \<noteq> [] \<or> (\<exists>u. mat m' u = PSleep)"
      using that v_give(1) by (auto split: if_splits)
    moreover have "val m' = v'" using v_give(1) by simp
    ultimately show ?thesis using w' tok' unfolding wake_ok_def by fastforce
  next
    case v_wake
    have nosleep: "mat m u \<noteq> PSleep" for u
    proof
      assume "mat m u = PSleep"
      then have "mwlock m = Some u" using l by (simp add: locks_ok_def)
      then show False using v_wake by simp
    qed
    show ?thesis
    proof (cases "sleepers m")
      case Nil
      then show ?thesis using v_wake nosleep by (auto simp: wake_ok_def mon_wakeone_def)
    next
      case (Cons u us)
      then have u: "mat m u = PAsleep" using c by (simp add: chan_ok_def)
      then have "u \<notin> awake m" "u \<noteq> t" "t \<in> awake m" using v_wake by (auto simp: awake_def)
      moreover have "awake m' = insert u (awake m) - {t}" using v_wake Cons u by (auto simp: awake_def mon_wakeone_def)
      ultimately have "card (awake m') = card (awake m)" using fin by (simp add: card_Suc_Diff1 card.insert_remove)
      then show ?thesis using w' Cons v_wake by (simp add: wake_ok_def mon_wakeone_def)
    qed
  next
    case p_wait
    then have "tokens (val m) = 0" using wait_iff [OF okv] by simp
    then show ?thesis using keep [of m PBridge] p_wait by simp
  next
    case down_call then show ?thesis using keep [of m PSpin] by simp
  next
    case p_spin then show ?thesis using keep [of "m\<lparr>mspin := Some t\<rparr>" PLoop] by simp
  next
    case p_bridge then show ?thesis using keep [of "m\<lparr>mwlock := Some t\<rparr>" PUnlock] by simp
  next
    case p_done then show ?thesis using keep [of "m\<lparr>mspin := None\<rparr>" Out] by simp
  next
    case up_call then show ?thesis using keep [of m VSpin] by simp
  next
    case v_spin then show ?thesis using keep [of "m\<lparr>mspin := Some t\<rparr>" VGive] by simp
  next
    case v_done then show ?thesis using keep [of "m\<lparr>mspin := None\<rparr>" Out] by simp
  qed (use w in \<open>simp_all add: wake_ok_def awake_def\<close>)
qed

text \<open>The invariant holds in every state the threads reach.\<close>

definition minv :: "'v \<Rightarrow> 'v mon \<Rightarrow> bool" where
  "minv v0 m \<longleftrightarrow> locks_ok m \<and> chan_ok m \<and> value_ok m \<and> wake_ok m \<and> log_ok v0 m"

lemma reach_minv:
  assumes "mon_reach ob v0 m" "okv v0" shows "minv v0 m"
  using assms(1)
proof (induction rule: mon_reach.induct)
  case init
  show ?case using assms(2)
    by (simp add: minv_def mon_init_def locks_ok_def chan_ok_def value_ok_def wake_ok_def log_ok_def)
next
  case (step m t m')
  then show ?case unfolding minv_def
    using locks_ok_step chan_ok_step value_ok_step wake_ok_step log_ok_step by blast
qed

text \<open>Tokens are neither made nor lost.\<close>

lemma tokens_conserved: "mon_reach ob v0 m \<Longrightarrow> okv v0 \<Longrightarrow> tokens (val m) + tooks (log m) = tokens v0 + gaves (log m)"
  using reach_minv by (auto simp: minv_def log_ok_def)

text \<open>A thread does not sleep beside a free token unless another thread is on its way.\<close>

lemma no_lost_wakeup:
  assumes "mon_reach ob v0 m" "okv v0" "mat m t = PAsleep" "\<And>u. \<not> active m u"
  shows "tokens (val m) = 0"
proof -
  have inv: "minv v0 m" by (rule reach_minv [OF assms(1,2)])
  have "active m x" if "x \<in> awake m" for x using that by (auto simp: awake_def active_def)
  then have "awake m = {}" using assms(4) by blast
  moreover have "sleepers m \<noteq> []" using inv assms(3) by (auto simp: minv_def chan_ok_def)
  ultimately show ?thesis using inv by (simp add: minv_def wake_ok_def)
qed

text \<open>As long as some thread is active, one of them can go on.\<close>

lemma active_step:
  assumes "mon_reach ob v0 m" "okv v0" "active m t"
  shows "\<exists>u m'. active m u \<and> mon_step ob u m m'"
proof -
  have inv: "locks_ok m" "value_ok m" using reach_minv [OF assms(1,2)] by (simp_all add: minv_def)
  have sp: "mspin m = Some u \<longleftrightarrow> spin_held (mat m u)" and wl: "mwlock m = Some u \<longleftrightarrow> wlock_held (mat m u)" for u
    using inv(1) by (simp_all add: locks_ok_def)
  show ?thesis
  proof (cases "mwlock m")
    case (Some u)
    then have "mat m u = PUnlock \<or> mat m u = PSleep" using wl by (auto simp: wlock_held_def)
    then have "\<exists>m'. mon_step ob u m m'" "active m u"
      using mon_step.p_unlock [of m u ob] mon_step.p_sleep [of m u ob] by (auto simp: active_def)
    then show ?thesis by blast
  next
    case free: None
    show ?thesis
    proof (cases "mspin m")
      case (Some u)
      then have held: "spin_held (mat m u)" using sp by simp
      have "\<exists>m'. mon_step ob u m m'"
      proof (cases "mat m u")
        case PLoop
        show ?thesis
        proof (cases "must_wait ob (val m)")
          case True
          then show ?thesis using mon_step.p_wait [OF PLoop] by blast
        next
          case False
          then show ?thesis using mon_step.p_take [OF PLoop False] mon_step.p_refused [OF PLoop False]
            by (cases "take_it ob u (val m)") blast+
        qed
      next
        case VGive
        then show ?thesis using mon_step.v_give [OF VGive] mon_step.v_refused [OF VGive]
          by (cases "give_it ob u (val m)") blast+
      next
        case PBridge then show ?thesis using mon_step.p_bridge [OF _ free] by blast
      next
        case PUnlock then show ?thesis using mon_step.p_unlock by blast
      next
        case PDone then show ?thesis using mon_step.p_done by blast
      next
        case VWake then show ?thesis using mon_step.v_wake [OF _ free] by blast
      next
        case VDone then show ?thesis using mon_step.v_done by blast
      qed (use held in simp_all)
      moreover have "active m u" using held by (auto simp: active_def)
      ultimately show ?thesis by blast
    next
      case None
      then have "\<not> spin_held (mat m t)" "\<not> wlock_held (mat m t)" using sp [of t] wl [of t] free by auto
      then have "mat m t = PSpin \<or> mat m t = VSpin" using assms(3) by (cases "mat m t") (auto simp: active_def)
      then show ?thesis using mon_step.p_spin [OF _ None] mon_step.v_spin [OF _ None] assms(3) by blast
    qed
  qed
qed

end

section \<open>Semaphores\<close>

definition sem_ok :: "semaphore \<Rightarrow> bool" where
  "sem_ok sem \<longleftrightarrow> 0 \<le> sem_count sem \<and> sem_count sem < 2147483648"

definition sem_tokens :: "semaphore \<Rightarrow> nat" where
  "sem_tokens sem = nat (sem_count sem)"

lemma V_give_Some:
  assumes "sem_ok v" "V_give t v = Some v'"
  shows "v' = v\<lparr>sem_count := sem_count v + 1\<rparr>" "sem_count v + 1 < 2147483648"
proof -
  have v': "v' = v\<lparr>sem_count := s32 (sem_count v + 1)\<rparr>" "0 < s32 (sem_count v + 1)"
    using assms(2) by (auto simp: V_give_def Let_def option_bind_Some_iff)
  show lt: "sem_count v + 1 < 2147483648"
  proof (rule ccontr)
    assume "\<not> sem_count v + 1 < 2147483648"
    then have "sem_count v = 2147483647" using assms(1) by (simp add: sem_ok_def)
    then show False using v'(2) by (simp add: s32_def)
  qed
  then show "v' = v\<lparr>sem_count := sem_count v + 1\<rparr>" using v' assms(1) by (simp add: s32_small sem_ok_def)
qed

interpretation semobj: token_object sem_obj sem_tokens sem_ok
proof
  fix v v' :: semaphore and t :: nat
  assume ok: "sem_ok v"
  show "must_wait sem_obj v \<longleftrightarrow> sem_tokens v = 0" using ok by (auto simp: sem_obj_def sem_tokens_def sem_ok_def)
  show "\<exists>v'. take_it sem_obj t v = Some v' \<and> sem_ok v' \<and> Suc (sem_tokens v') = sem_tokens v" if "0 < sem_tokens v"
    using ok that by (auto simp: sem_obj_def P_take_def sem_tokens_def sem_ok_def)
  show "sem_ok v' \<and> sem_tokens v' = Suc (sem_tokens v)" if "give_it sem_obj t v = Some v'"
    using V_give_Some [OF ok, of t v'] that ok by (simp add: sem_obj_def sem_ok_def sem_tokens_def)
qed (simp_all add: sem_obj_def)



section \<open>Locks\<close>

definition lock_ok :: "klock \<Rightarrow> bool" where
  "lock_ok l \<longleftrightarrow> (hold l \<longleftrightarrow> owner l \<noteq> None)"

definition lock_tokens :: "klock \<Rightarrow> nat" where
  "lock_tokens l = (if hold l then 0 else 1)"

interpretation lockobj: token_object lock_obj lock_tokens lock_ok
  by unfold_locales
    (auto simp: lock_obj_def lock_take_def lock_give_def lock_do_i_hold_def lock_ok_def lock_tokens_def split: if_splits)

definition new_lock :: klock where
  "new_lock = \<lparr>hold = False, owner = None\<rparr>"

lemma new_lock_ok: "lock_ok new_lock"
  by (simp add: lock_ok_def new_lock_def)




text \<open>Thread 1 holds a lock and thread 2 sleeps on it.\<close>

lemma demo_lock:
  obtains m where "mon_reach lock_obj new_lock m" "mat m = (\<lambda>_. Out)(2 := PAsleep)" "log m = [Took 1]"
proof -
  define m0 where "m0 = mon_init new_lock"
  define m1 where "m1 = mgoto 1 PSpin m0"
  define m2 where "m2 = mgoto 1 PLoop (m1\<lparr>mspin := Some 1\<rparr>)"
  define m3 where "m3 = mgoto 1 PDone (m2\<lparr>val := \<lparr>hold = True, owner = Some 1\<rparr>, log := log m2 @ [Took 1]\<rparr>)"
  define m4 where "m4 = mgoto 1 Out (m3\<lparr>mspin := None\<rparr>)"
  define m5 where "m5 = mgoto 2 PSpin m4"
  define m6 where "m6 = mgoto 2 PLoop (m5\<lparr>mspin := Some 2\<rparr>)"
  define m7 where "m7 = mgoto 2 PBridge m6"
  define m8 where "m8 = mgoto 2 PUnlock (m7\<lparr>mwlock := Some 2\<rparr>)"
  define m9 where "m9 = mgoto 2 PSleep (m8\<lparr>mspin := None\<rparr>)"
  define m10 where "m10 = mon_sleep 2 m9"
  note d = m0_def m1_def m2_def m3_def m4_def m5_def m6_def m7_def m8_def m9_def m10_def
    mon_init_def mgoto_def mon_sleep_def lock_obj_def lock_take_def lock_do_i_hold_def new_lock_def
  have 0: "mon_reach lock_obj new_lock m0" unfolding m0_def by (rule mon_reach.init)
  have 1: "mon_reach lock_obj new_lock m1"
    by (rule mon_reach.step [OF 0, of 1]) (use mon_step.down_call [of m0 1 lock_obj] in \<open>simp_all add: d\<close>)
  have 2: "mon_reach lock_obj new_lock m2"
    by (rule mon_reach.step [OF 1, of 1]) (use mon_step.p_spin [of m1 1 lock_obj] in \<open>simp_all add: d\<close>)
  have 3: "mon_reach lock_obj new_lock m3"
    by (rule mon_reach.step [OF 2, of 1])
      (use mon_step.p_take [of m2 1 lock_obj "\<lparr>hold = True, owner = Some 1\<rparr>"] in \<open>simp_all add: d\<close>)
  have 4: "mon_reach lock_obj new_lock m4"
    by (rule mon_reach.step [OF 3, of 1]) (use mon_step.p_done [of m3 1 lock_obj] in \<open>simp_all add: d\<close>)
  have 5: "mon_reach lock_obj new_lock m5"
    by (rule mon_reach.step [OF 4, of 2]) (use mon_step.down_call [of m4 2 lock_obj] in \<open>simp_all add: d\<close>)
  have 6: "mon_reach lock_obj new_lock m6"
    by (rule mon_reach.step [OF 5, of 2]) (use mon_step.p_spin [of m5 2 lock_obj] in \<open>simp_all add: d\<close>)
  have 7: "mon_reach lock_obj new_lock m7"
    by (rule mon_reach.step [OF 6, of 2]) (use mon_step.p_wait [of m6 2 lock_obj] in \<open>simp_all add: d\<close>)
  have 8: "mon_reach lock_obj new_lock m8"
    by (rule mon_reach.step [OF 7, of 2]) (use mon_step.p_bridge [of m7 2 lock_obj] in \<open>simp_all add: d\<close>)
  have 9: "mon_reach lock_obj new_lock m9"
    by (rule mon_reach.step [OF 8, of 2]) (use mon_step.p_unlock [of m8 2 lock_obj] in \<open>simp_all add: d\<close>)
  have 10: "mon_reach lock_obj new_lock m10"
    by (rule mon_reach.step [OF 9, of 2]) (use mon_step.p_sleep [of m9 2 lock_obj] in \<open>simp_all add: d\<close>)
  have "mat m10 = (\<lambda>_. Out)(2 := PAsleep)" "log m10 = [Took 1]" by (simp_all add: d fun_eq_iff)
  then show ?thesis using that 10 by blast
qed



text \<open>C15: no wakeup is lost and nobody is stuck. While any thread is inside a call and awake, one of
  the threads that are can take a step; and when none is, a thread asleep on a lock means that the
  lock is held and a thread asleep on a semaphore that its count is zero.\<close>

theorem synch_no_lost_wakeup:
  assumes "mon_reach lock_obj new_lock m" "mon_reach sem_obj sem n"
    "sem_ok sem"
  shows "((\<exists>t. active m t) \<longrightarrow> (\<exists>t m'. active m t \<and> mon_step lock_obj t m m')) \<and>
    ((\<forall>t. \<not> active m t) \<and> mat m u = PAsleep \<longrightarrow> hold (val m)) \<and>
    ((\<exists>t. active n t) \<longrightarrow> (\<exists>t n'. active n t \<and> mon_step sem_obj t n n')) \<and>
    ((\<forall>t. \<not> active n t) \<and> mat n u = PAsleep \<longrightarrow> sem_count (val n) = 0)"
proof (intro conjI impI)
  show "\<exists>t m'. active m t \<and> mon_step lock_obj t m m'" if "\<exists>t. active m t"
    using lockobj.active_step [OF assms(1) new_lock_ok] that by blast
  show "hold (val m)" if "(\<forall>t. \<not> active m t) \<and> mat m u = PAsleep"
    using lockobj.no_lost_wakeup [OF assms(1) new_lock_ok, of u] that by (auto simp: lock_tokens_def split: if_splits)
  show "\<exists>t n'. active n t \<and> mon_step sem_obj t n n'" if "\<exists>t. active n t"
    using semobj.active_step [OF assms(2,3)] that by blast
  show "sem_count (val n) = 0" if "(\<forall>t. \<not> active n t) \<and> mat n u = PAsleep"
  proof -
    have "0 \<le> sem_count (val n)" using semobj.reach_minv [OF assms(2,3)]
      by (simp add: semobj.minv_def semobj.value_ok_def sem_ok_def)
    then show ?thesis using semobj.no_lost_wakeup [OF assms(2,3), of u] that by (auto simp: sem_tokens_def)
  qed
qed

theorem synch_no_lost_wakeup_witness:
  "\<exists>m. mon_reach lock_obj new_lock m \<and> mat m 2 = PAsleep \<and> hold (val m)"
proof -
  obtain m where m: "mon_reach lock_obj new_lock m" "mat m = (\<lambda>_. Out)(2 := PAsleep)" by (rule demo_lock)
  have "sem_ok \<lparr>sem_count = 0\<rparr>" by (simp add: sem_ok_def)
  note all = synch_no_lost_wakeup [OF m(1) mon_reach.init this, of 2]
  have "(\<forall>t. \<not> active m t) \<and> mat m 2 = PAsleep" by (simp add: active_def m(2))
  then have "hold (val m)" using conjunct1 [OF conjunct2 [OF all]] by blast
  then show ?thesis using m by auto
qed

end
