(* ===== verification/Proc.thy ===== *)
theory Proc
  imports AddrSpace
begin

text \<open>
  Processes: \<^verbatim>\<open>kern/proc/proc.c\<close>, \<^verbatim>\<open>kern/syscall/proc_syscalls.c\<close> and the encoding of exit codes of
  \<^verbatim>\<open>kern/include/kern/wait.h\<close>. The process structures live at addresses; a use of one that has been
  freed, of a NULL pointer or of a table outside its bounds is \<open>None\<close>. The address space of a process
  is that of the memory system. Which allocations succeed and what freshly allocated memory contains
  are arguments. Files (the console and the current directory) are left out.
\<close>

section \<open>Exit codes\<close>

definition WEXITED :: int where "WEXITED = 0"
definition WSIGNALED :: int where "WSIGNALED = 1"

definition WWHAT :: "int \<Rightarrow> int" where "WWHAT x = x AND 3"
definition WVAL :: "int \<Rightarrow> int" where "WVAL x = drop_bit 2 x"
definition MKWVAL :: "int \<Rightarrow> int" where "MKWVAL x = s32 (push_bit 2 x)"

definition MKWAIT_EXIT :: "int \<Rightarrow> int" where "MKWAIT_EXIT x = MKWVAL x OR WEXITED"
definition MKWAIT_SIG :: "int \<Rightarrow> int" where "MKWAIT_SIG x = MKWVAL x OR WSIGNALED"

definition WIFEXITED :: "int \<Rightarrow> bool" where "WIFEXITED x \<longleftrightarrow> WWHAT x = WEXITED"
definition WIFSIGNALED :: "int \<Rightarrow> bool" where "WIFSIGNALED x \<longleftrightarrow> WWHAT x = WSIGNALED \<or> WWHAT x = 2"
definition WEXITSTATUS :: "int \<Rightarrow> int" where "WEXITSTATUS x = WVAL x"
definition WTERMSIG :: "int \<Rightarrow> int" where "WTERMSIG x = WVAL x"

section \<open>Processes\<close>

record proc =
  p_addrspace :: "addrspace option"
  p_threads :: "nat list"
  pid :: int
  countChild :: int
  childArray :: "int list"
  isAlive :: bool
  code :: int
  status :: int

record pstate =
  km :: kmem
  proc_at :: "nat \<Rightarrow> proc option"
  procTable :: "nat option list"
  exitTable :: "int list"
  aliveTable :: "bool list"
  counter_pid :: int
  proc_count :: u32
  no_proc_sem :: nat

text \<open>Reads and writes at an index that is a C int.\<close>

definition upd_at :: "'a list \<Rightarrow> int \<Rightarrow> 'a \<Rightarrow> 'a list option" where
  "upd_at xs i x = (if 0 \<le> i then upd xs (nat i) x else None)"

definition set_proc :: "pstate \<Rightarrow> nat \<Rightarrow> (proc \<Rightarrow> proc) \<Rightarrow> pstate option" where
  "set_proc ps a f = do {
     p \<leftarrow> proc_at ps a;
     Some (ps\<lparr>proc_at := (proc_at ps)(a \<mapsto> f p)\<rparr>)
   }"

definition proc_free :: "pstate \<Rightarrow> nat \<Rightarrow> pstate" where
  "proc_free ps a = ps\<lparr>proc_at := (proc_at ps)(a := None)\<rparr>"

text \<open>What a creation finds: the memory for the structure and its contents, and which of the other
  allocations succeed.\<close>

record proc_mem =
  pm_addr :: "nat option"
  pm_garbage :: proc
  pm_name_ok :: bool
  pm_console_ok :: bool
  pm_lock_ok :: bool
  pm_cv_ok :: bool

definition proc_create :: "pstate \<Rightarrow> proc_mem \<Rightarrow> nat option \<times> pstate" where
  "proc_create ps al =
     (case pm_addr al of
        None \<Rightarrow> (None, ps)
      | Some a \<Rightarrow>
          if pm_name_ok al
          then (Some a, ps\<lparr>proc_at := (proc_at ps)(a \<mapsto> (pm_garbage al)\<lparr>p_threads := [], p_addrspace := None\<rparr>)\<rparr>)
          else (None, ps))"

definition proc_bootstrap :: "kmem \<Rightarrow> pstate" where
  "proc_bootstrap k = \<lparr>km = k, proc_at = Map.empty, procTable = replicate 64 None, exitTable = replicate 64 0,
     aliveTable = replicate 64 True, counter_pid = 2, proc_count = 0, no_proc_sem = 0\<rparr>"

definition proc_create_runprogram :: "pstate \<Rightarrow> proc_mem \<Rightarrow> (nat option \<times> pstate) option" where
  "proc_create_runprogram ps al =
     (case proc_create ps al of
        (None, ps) \<Rightarrow> Some (None, ps)
      | (Some a, ps) \<Rightarrow> do {
          KASSERT (pm_console_ok al);
          let ps = ps\<lparr>proc_count := proc_count ps + 1\<rparr>;
          ps \<leftarrow> set_proc ps a (pid_update (\<lambda>_. counter_pid ps));
          tb \<leftarrow> upd_at (procTable ps) (counter_pid ps - 2) (Some a);
          let ps = ps\<lparr>procTable := tb, counter_pid := s32 (counter_pid ps + 1)\<rparr>;
          ps \<leftarrow> set_proc ps a (countChild_update (\<lambda>_. 0));
          KASSERT (pm_lock_ok al);
          ps \<leftarrow> set_proc ps a (isAlive_update (\<lambda>_. True));
          if \<not> pm_cv_ok al then Some (None, proc_free ps a)
          else Some (Some a, ps)
        })"

text \<open>Destroying a process reads its condition variable through the process table. The list of its
  threads must be empty.\<close>

definition proc_destroy :: "pstate \<Rightarrow> nat \<Rightarrow> pstate option" where
  "proc_destroy ps a = do {
     p \<leftarrow> proc_at ps a;
     entry \<leftarrow> idx_int (procTable ps) (pid p - 2);
     q \<leftarrow> entry;
     proc_at ps q;
     KASSERT (p_threads p = []);
     let ps = proc_free ps a;
     KASSERT (0 < proc_count ps);
     let ps = ps\<lparr>proc_count := proc_count ps - 1\<rparr>;
     Some (if proc_count ps = 0 then ps\<lparr>no_proc_sem := no_proc_sem ps + 1\<rparr> else ps)
   }"

definition proc_addthread :: "pstate \<Rightarrow> nat \<Rightarrow> nat \<Rightarrow> bool \<Rightarrow> ((errno + unit) \<times> pstate) option" where
  "proc_addthread ps a t array_ok =
     (if array_ok then do {
        ps \<leftarrow> set_proc ps a (p_threads_update (\<lambda>ts. ts @ [t]));
        Some (Inr (), ps)
      } else Some (Inl ENOMEM, ps))"

fun remove_first :: "nat \<Rightarrow> nat list \<Rightarrow> nat list option" where
  "remove_first t [] = None"
| "remove_first t (u # us) = (if u = t then Some us else map_option ((#) u) (remove_first t us))"

definition proc_remthread :: "pstate \<Rightarrow> nat \<Rightarrow> nat \<Rightarrow> pstate option" where
  "proc_remthread ps a t = do {
     p \<leftarrow> proc_at ps a;
     ts \<leftarrow> remove_first t (p_threads p);
     set_proc ps a (p_threads_update (\<lambda>_. ts))
   }"

definition curproc_getas :: "pstate \<Rightarrow> nat option \<Rightarrow> addrspace option option" where
  "curproc_getas ps cur =
     (case cur of None \<Rightarrow> Some None | Some a \<Rightarrow> map_option p_addrspace (proc_at ps a))"

definition curproc_setas :: "pstate \<Rightarrow> nat \<Rightarrow> addrspace option \<Rightarrow> (addrspace option \<times> pstate) option" where
  "curproc_setas ps cur newas = do {
     p \<leftarrow> proc_at ps cur;
     ps \<leftarrow> set_proc ps cur (p_addrspace_update (\<lambda>_. newas));
     Some (p_addrspace p, ps)
   }"

section \<open>System calls\<close>


fun isExist_from :: "int list \<Rightarrow> int \<Rightarrow> nat list \<Rightarrow> bool option" where
  "isExist_from arr p [] = Some False"
| "isExist_from arr p (i # is) = do {
     c \<leftarrow> idx arr i;
     if c = p then Some True else isExist_from arr p is
   }"

definition isExist :: "pstate \<Rightarrow> nat \<Rightarrow> int \<Rightarrow> bool option" where
  "isExist ps cur p = do {
     me \<leftarrow> proc_at ps cur;
     isExist_from (childArray me) p [0..<nat (countChild me)]
   }"

text \<open>The part of \<^verbatim>\<open>sys__exit\<close> under the table lock, up to the broadcast, and the rest of it up to
  the exit of the thread. After the thread has left its process, the process is destroyed.\<close>

definition exit_record :: "pstate \<Rightarrow> nat \<Rightarrow> int \<Rightarrow> pstate option" where
  "exit_record ps cur exitcode = do {
     ps \<leftarrow> set_proc ps cur (\<lambda>p. p\<lparr>isAlive := False, code := exitcode, status := MKWAIT_EXIT exitcode\<rparr>);
     p \<leftarrow> proc_at ps cur;
     et \<leftarrow> upd_at (exitTable ps) (pid p - 2) exitcode;
     al \<leftarrow> upd_at (aliveTable ps) (pid p - 2) False;
     Some (ps\<lparr>exitTable := et, aliveTable := al\<rparr>)
   }"

definition exit_teardown :: "pstate \<Rightarrow> nat \<Rightarrow> nat \<Rightarrow> pstate option" where
  "exit_teardown ps cur t = do {
     (old, ps) \<leftarrow> curproc_setas ps cur None;
     as \<leftarrow> old;
     k \<leftarrow> as_destroy (km ps) as;
     let ps = ps\<lparr>km := k\<rparr>;
     ps \<leftarrow> proc_remthread ps cur t;
     proc_destroy ps cur
   }"

definition sys__exit :: "pstate \<Rightarrow> nat \<Rightarrow> nat \<Rightarrow> int \<Rightarrow> pstate option" where
  "sys__exit ps cur t exitcode = do {
     p \<leftarrow> proc_at ps cur;
     KASSERT (p_addrspace p \<noteq> None);
     ps \<leftarrow> exit_record ps cur exitcode;
     exit_teardown ps cur t
   }"

text \<open>\<^verbatim>\<open>sys_waitpid\<close> up to and including one test of its loop: it either returns, or waits on the
  condition variable of the process at the given address. \<open>copyout\<close> is the result of storing the
  status at the user's pointer.\<close>

datatype waiting = Returns "errno + int \<times> int" | WaitsOn nat

definition sys_waitpid :: "pstate \<Rightarrow> nat \<Rightarrow> int \<Rightarrow> bool \<Rightarrow> int \<Rightarrow> (int \<Rightarrow> errno + unit) \<Rightarrow> waiting option" where
  "sys_waitpid ps cur p status_null options copyout =
     (if options \<noteq> 0 then Some (Returns (Inl EINVAL))
      else if status_null then Some (Returns (Inl EFAULT))
      else do {
        child \<leftarrow> isExist ps cur p;
        if \<not> child then Some (Returns (Inl ECHILD))
        else do {
          alive \<leftarrow> idx_int (aliveTable ps) (p - 2);
          if alive then do {
            entry \<leftarrow> idx_int (procTable ps) (p - 2);
            q \<leftarrow> entry;
            proc_at ps q;
            Some (WaitsOn q)
          } else do {
            exitcode \<leftarrow> idx_int (exitTable ps) (p - 2);
            let exitstatus = MKWAIT_EXIT exitcode;
            Some (Returns (case copyout exitstatus of Inl e \<Rightarrow> Inl e | Inr _ \<Rightarrow> Inr (p, exitstatus)))
          }
        }
      })"

text \<open>\<^verbatim>\<open>sys_fork\<close>. The arguments are the allocations of the process and of the address space, whether
  the memory for the trap frame could be had, and the thread that was forked or the error.\<close>

record fork_mem =
  fm_proc :: proc_mem
  fm_as_ok :: bool
  fm_tables :: "u32 \<Rightarrow> paddr list option"
  fm_stack :: "paddr list option"
  fm_tf_ok :: bool
  fm_thread :: "errno + nat"

definition sys_fork :: "pstate \<Rightarrow> nat \<Rightarrow> fork_mem \<Rightarrow> ((errno + int) \<times> pstate) option" where
  "sys_fork ps cur al = do {
     (r, ps) \<leftarrow> proc_create_runprogram ps (fm_proc al);
     (case r of
        None \<Rightarrow> Some (Inl ENOMEM, ps)
      | Some c \<Rightarrow> do {
          child \<leftarrow> proc_at ps c;
          if 0 < pid child then do {
            parent \<leftarrow> proc_at ps cur;
            old \<leftarrow> p_addrspace parent;
            (res, k) \<leftarrow> as_copy (fm_as_ok al) (fm_tables al) (fm_stack al) (km ps) old;
            let ps = ps\<lparr>km := k\<rparr>;
            (case res of
               Inl e \<Rightarrow> do {
                 ps \<leftarrow> proc_destroy ps c;
                 Some (Inl e, ps)
               }
             | Inr new \<Rightarrow> do {
                 ps \<leftarrow> set_proc ps c (p_addrspace_update (\<lambda>_. Some new));
                 arr \<leftarrow> upd_at (childArray parent) (countChild parent) (pid child);
                 ps \<leftarrow> set_proc ps cur (\<lambda>p. p\<lparr>childArray := arr, countChild := s32 (countChild p + 1)\<rparr>);
                 KASSERT (fm_tf_ok al);
                 (case fm_thread al of
                    Inl e \<Rightarrow> do {
                      ps \<leftarrow> proc_destroy ps c;
                      Some (Inl e, ps)
                    }
                  | Inr t \<Rightarrow> do {
                      ps \<leftarrow> set_proc ps c (p_threads_update (\<lambda>ts. ts @ [t]));
                      Some (Inr (pid child), ps)
                    })
               })
          } else do {
            ps \<leftarrow> proc_destroy ps c;
            Some (Inr 0, ps)
          }
        })
   }"

section \<open>Properties of the exit codes\<close>

lemma s32_exit: "s32 (x * 4) = 4 * ((x + 536870912) mod 1073741824 - 536870912)"
proof -
  have "(x * 4 + 2147483648) mod 4294967296 = (4 * (x + 536870912)) mod (4 * 1073741824)" by (simp add: algebra_simps)
  also have "\<dots> = 4 * ((x + 536870912) mod 1073741824)" by (rule mod_mult_mult1)
  finally show ?thesis by (simp add: s32_def)
qed

text \<open>the wait status carries the exit code in 30 bits. The status of a process that exits says that
  it exited and not that it was killed, and the code comes back exactly if it fits in 30 bits as a
  signed number.\<close>

theorem exit_status_roundtrip:
  "WIFEXITED (MKWAIT_EXIT x) \<and> \<not> WIFSIGNALED (MKWAIT_EXIT x) \<and>
   (WEXITSTATUS (MKWAIT_EXIT x) = x \<longleftrightarrow> - 536870912 \<le> x \<and> x < 536870912)"
proof -
  have p: "push_bit 2 x = x * 4" by (simp add: push_bit_eq_mult)
  have m: "MKWAIT_EXIT x = s32 (x * 4)" by (simp add: MKWAIT_EXIT_def MKWVAL_def WEXITED_def p)
  have "s32 (x * 4) mod 4 = 0" unfolding s32_exit by simp
  then have "WWHAT (MKWAIT_EXIT x) = 0" unfolding m WWHAT_def
    using take_bit_eq_mask [of 2 "s32 (x * 4)"] by (simp add: mask_eq_exp_minus_1 take_bit_eq_mod)
  moreover have "WEXITSTATUS (MKWAIT_EXIT x) = (x + 536870912) mod 1073741824 - 536870912"
    unfolding m WEXITSTATUS_def WVAL_def using s32_exit [of x] by (simp add: drop_bit_eq_div)
  moreover have "(x + 536870912) mod 1073741824 = x + 536870912 \<longleftrightarrow> 0 \<le> x + 536870912 \<and> x + 536870912 < 1073741824"
    using pos_mod_sign [of 1073741824 "x + 536870912"] pos_mod_bound [of 1073741824 "x + 536870912"]
      mod_pos_pos_trivial [of "x + 536870912" 1073741824] by linarith
  ultimately show ?thesis unfolding WIFEXITED_def WIFSIGNALED_def WEXITED_def WSIGNALED_def by linarith
qed

section \<open>Creating processes\<close>

definition good_mem :: "nat \<Rightarrow> proc_mem \<Rightarrow> bool" where
  "good_mem a al \<longleftrightarrow> pm_addr al = Some a \<and> pm_name_ok al \<and> pm_console_ok al \<and> pm_lock_ok al \<and> pm_cv_ok al"

definition new_proc :: "proc_mem \<Rightarrow> int \<Rightarrow> proc" where
  "new_proc al n = (pm_garbage al)\<lparr>p_threads := [], p_addrspace := None, pid := n, countChild := 0, isAlive := True\<rparr>"

lemma create_ok:
  assumes "good_mem a al" "length (procTable ps) = 64" "2 \<le> counter_pid ps" "counter_pid ps < 66"
  shows "proc_create_runprogram ps al = Some (Some a, ps\<lparr>proc_at := (proc_at ps)(a \<mapsto> new_proc al (counter_pid ps)),
     procTable := (procTable ps)[nat (counter_pid ps - 2) := Some a], counter_pid := counter_pid ps + 1,
     proc_count := proc_count ps + 1\<rparr>)"
  using assms
  by (simp add: proc_create_runprogram_def proc_create_def good_mem_def set_proc_def upd_at_def upd_def Let_def new_proc_def
      s32_small)

lemma create_overflow:
  assumes "pm_addr al = Some a" "pm_name_ok al" "length (procTable ps) = 64" "66 \<le> counter_pid ps"
  shows "proc_create_runprogram ps al = None"
  using assms by (auto simp: proc_create_runprogram_def proc_create_def set_proc_def upd_at_def upd_def Let_def KASSERT_def)

fun create_all :: "pstate \<Rightarrow> proc_mem list \<Rightarrow> pstate option" where
  "create_all ps [] = Some ps"
| "create_all ps (al # als) = do {
     (r, ps) \<leftarrow> proc_create_runprogram ps al;
     create_all ps als
   }"

lemma create_all_ok:
  assumes "length (procTable ps) = 64" "2 \<le> counter_pid ps" "counter_pid ps + int (length als) \<le> 66"
    "\<And>i. i < length als \<Longrightarrow> good_mem (addrs ! i) (als ! i)" "length addrs = length als"
  shows "\<exists>ps'. create_all ps als = Some ps' \<and> length (procTable ps') = 64 \<and>
     counter_pid ps' = counter_pid ps + int (length als) \<and>
     (\<forall>i < length als. procTable ps' ! (nat (counter_pid ps - 2) + i) = Some (addrs ! i)) \<and>
     (\<forall>j < nat (counter_pid ps - 2). procTable ps' ! j = procTable ps ! j) \<and>
     (distinct addrs \<longrightarrow> (\<forall>i < length als. \<exists>p. proc_at ps' (addrs ! i) = Some p \<and> pid p = counter_pid ps + int i)) \<and>
     (\<forall>a. a \<notin> set addrs \<longrightarrow> proc_at ps' a = proc_at ps a)"
  using assms
proof (induction als arbitrary: ps addrs)
  case Nil
  then show ?case by simp
next
  case (Cons al als)
  obtain a as where addrs: "addrs = a # as" using Cons.prems(5) by (cases addrs) auto
  have g: "good_mem a al" using Cons.prems(4) [of 0] addrs by simp
  define c where "c = counter_pid ps"
  define ps1 where "ps1 = ps\<lparr>proc_at := (proc_at ps)(a \<mapsto> new_proc al c), procTable := (procTable ps)[nat (c - 2) := Some a],
     counter_pid := c + 1, proc_count := proc_count ps + 1\<rparr>"
  have c: "2 \<le> c" "c < 66" using Cons.prems(2,3) by (simp_all add: c_def)
  have s1: "proc_create_runprogram ps al = Some (Some a, ps1)"
    using create_ok [OF g Cons.prems(1)] c by (simp add: ps1_def c_def)
  have "\<exists>ps'. create_all ps1 als = Some ps' \<and> length (procTable ps') = 64 \<and>
     counter_pid ps' = counter_pid ps1 + int (length als) \<and>
     (\<forall>i < length als. procTable ps' ! (nat (counter_pid ps1 - 2) + i) = Some (as ! i)) \<and>
     (\<forall>j < nat (counter_pid ps1 - 2). procTable ps' ! j = procTable ps1 ! j) \<and>
     (distinct as \<longrightarrow> (\<forall>i < length als. \<exists>p. proc_at ps' (as ! i) = Some p \<and> pid p = counter_pid ps1 + int i)) \<and>
     (\<forall>a. a \<notin> set as \<longrightarrow> proc_at ps' a = proc_at ps1 a)"
  proof (rule Cons.IH)
    show "good_mem (as ! i) (als ! i)" if "i < length als" for i using Cons.prems(4) [of "Suc i"] that addrs by simp
  qed (use Cons.prems addrs c in \<open>simp_all add: ps1_def c_def\<close>)
  then obtain ps' where IH: "create_all ps1 als = Some ps'" "length (procTable ps') = 64"
      "counter_pid ps' = c + 1 + int (length als)"
      "\<And>i. i < length als \<Longrightarrow> procTable ps' ! (nat (c - 1) + i) = Some (as ! i)"
      "\<And>j. j < nat (c - 1) \<Longrightarrow> procTable ps' ! j = procTable ps1 ! j"
      "\<And>i. distinct as \<Longrightarrow> i < length als \<Longrightarrow> \<exists>p. proc_at ps' (as ! i) = Some p \<and> pid p = c + 1 + int i"
      "\<And>b. b \<notin> set as \<Longrightarrow> proc_at ps' b = proc_at ps1 b"
    by (auto simp: ps1_def)
  have n: "nat (c - 1) = Suc (nat (c - 2))" using c by simp
  have "procTable ps' ! (nat (c - 2) + i) = Some (addrs ! i)" if "i < length (al # als)" for i
  proof (cases i)
    case 0
    have "nat (c - 2) < 64" using c by simp
    then show ?thesis using IH(5) [of "nat (c - 2)"] n Cons.prems(1) 0 addrs by (simp add: ps1_def)
  next
    case (Suc j)
    then show ?thesis using IH(4) [of j] n that addrs by simp
  qed
  moreover have "procTable ps' ! j = procTable ps ! j" if "j < nat (c - 2)" for j
    using IH(5) [of j] that n by (simp add: ps1_def)
  moreover have "\<exists>p. proc_at ps' (addrs ! i) = Some p \<and> pid p = c + int i" if "distinct addrs" "i < length (al # als)" for i
  proof (cases i)
    case 0
    then show ?thesis using IH(7) [of a] that addrs by (simp add: ps1_def new_proc_def)
  next
    case (Suc j)
    then show ?thesis using IH(6) [of j] that addrs by (auto simp: algebra_simps)
  qed
  moreover have "proc_at ps' b = proc_at ps b" if "b \<notin> set addrs" for b using IH(7) [of b] that addrs by (simp add: ps1_def)
  ultimately show ?case using s1 IH(1,2,3) by (simp add: c_def)
qed

text \<open>sixty-four processes can be created, with the process ids 2 to 65, each entered in the process
  table at its place; the creation of the next one writes past the end of the table. Process ids are
  not used again, so that this is the sixty-fifth process since the start, however many are alive.\<close>

theorem process_table_bound:
  assumes "length als = 64" "length addrs = 64" "distinct addrs" "\<forall>i < 64. good_mem (addrs ! i) (als ! i)"
  shows "\<exists>ps. create_all (proc_bootstrap k) als = Some ps \<and>
     (\<forall>i < 64. procTable ps ! i = Some (addrs ! i) \<and> (\<exists>p. proc_at ps (addrs ! i) = Some p \<and> pid p = 2 + int i)) \<and>
     (\<forall>ps' al a. procTable ps' = procTable ps \<longrightarrow> counter_pid ps' = counter_pid ps \<longrightarrow> good_mem a al \<longrightarrow>
        proc_create_runprogram ps' al = None)"
proof -
  have "\<exists>ps'. create_all (proc_bootstrap k) als = Some ps' \<and> length (procTable ps') = 64 \<and>
     counter_pid ps' = counter_pid (proc_bootstrap k) + int (length als) \<and>
     (\<forall>i < length als. procTable ps' ! (nat (counter_pid (proc_bootstrap k) - 2) + i) = Some (addrs ! i)) \<and>
     (\<forall>j < nat (counter_pid (proc_bootstrap k) - 2). procTable ps' ! j = procTable (proc_bootstrap k) ! j) \<and>
     (distinct addrs \<longrightarrow> (\<forall>i < length als. \<exists>p. proc_at ps' (addrs ! i) = Some p \<and> pid p = counter_pid (proc_bootstrap k) + int i)) \<and>
     (\<forall>a. a \<notin> set addrs \<longrightarrow> proc_at ps' a = proc_at (proc_bootstrap k) a)"
    by (rule create_all_ok) (use assms in \<open>simp_all add: proc_bootstrap_def\<close>)
  then obtain ps where ps: "create_all (proc_bootstrap k) als = Some ps" "length (procTable ps) = 64" "counter_pid ps = 66"
      "\<forall>i < 64. procTable ps ! i = Some (addrs ! i)" "\<forall>i < 64. \<exists>p. proc_at ps (addrs ! i) = Some p \<and> pid p = 2 + int i"
    using assms by (auto simp: proc_bootstrap_def)
  have "proc_create_runprogram ps' al = None"
    if "procTable ps' = procTable ps" "counter_pid ps' = counter_pid ps" "good_mem a al" for ps' al a
    using create_overflow [of al a ps'] that ps by (simp add: good_mem_def)
  then show ?thesis using ps by blast
qed

definition demo_proc :: proc where
  "demo_proc = \<lparr>p_addrspace = None, p_threads = [], pid = 0, countChild = 0, childArray = replicate 64 0,
     isAlive = False, code = 0, status = 0\<rparr>"

definition demo_pmem :: "nat \<Rightarrow> proc_mem" where
  "demo_pmem a = \<lparr>pm_addr = Some a, pm_garbage = demo_proc, pm_name_ok = True, pm_console_ok = True,
     pm_lock_ok = True, pm_cv_ok = True\<rparr>"

lemma good_demo [simp]: "good_mem a (demo_pmem a)"
  by (simp add: good_mem_def demo_pmem_def)

theorem process_table_bound_witness:
  "\<exists>ps. create_all (proc_bootstrap demo_mem) (map demo_pmem [100..<164]) = Some ps \<and> procTable ps ! 63 = Some 163 \<and>
     proc_create_runprogram ps (demo_pmem 164) = None"
proof -
  have "\<forall>i < 64. good_mem ([100..<164] ! i) (map demo_pmem [100..<164] ! i)" by (simp del: upt_rec_numeral)
  from process_table_bound [OF _ _ _ this, of demo_mem]
  obtain ps where ps: "create_all (proc_bootstrap demo_mem) (map demo_pmem [100..<164]) = Some ps"
     "\<forall>i < 64. procTable ps ! i = Some ([100..<164] ! i)"
     "\<forall>ps' al a. procTable ps' = procTable ps \<longrightarrow> counter_pid ps' = counter_pid ps \<longrightarrow> good_mem a al \<longrightarrow>
        proc_create_runprogram ps' al = None"
    by (auto simp del: upt_rec_numeral)
  have "procTable ps ! 63 = Some 163" using ps(2) [rule_format, of 63] by (simp del: upt_rec_numeral)
  then show ?thesis using ps(1) ps(3) [rule_format, of ps 164 "demo_pmem 164"] by simp
qed

section \<open>Forking\<close>

lemma isExist_from_iff:
  "(\<And>i. i \<in> set is \<Longrightarrow> i < length arr) \<Longrightarrow> isExist_from arr p is = Some (\<exists>i \<in> set is. arr ! i = p)"
  by (induction "is") auto

text \<open>A parent that may fork: it has an address space whose frames it owns, room for another child and
  for another process, and there are enough free frames.\<close>

definition can_fork :: "pstate \<Rightarrow> nat \<Rightarrow> proc \<Rightarrow> addrspace \<Rightarrow> blocks \<Rightarrow> nat list \<Rightarrow> nat list \<Rightarrow> nat list \<Rightarrow> bool" where
  "can_fork ps cur parent old B g1 g2 g3 \<longleftrightarrow>
     length (procTable ps) = 64 \<and> length (aliveTable ps) = 64 \<and> 2 \<le> counter_pid ps \<and> counter_pid ps < 66 \<and>
     aliveTable ps ! nat (counter_pid ps - 2) \<and>
     proc_at ps cur = Some parent \<and> p_addrspace parent = Some old \<and>
     length (childArray parent) = 64 \<and> 0 \<le> countChild parent \<and> countChild parent < 64 \<and>
     cm_rep (vm (km ps)) B \<and> as_owns (vm (km ps)) old g1 g2 g3 \<and> set (g1 @ g2 @ g3) \<subseteq> frames B \<and>
     card (frames B) + as_pages old \<le> nframes (vm (km ps))"

definition fork_mem_ok :: "fork_mem \<Rightarrow> nat \<Rightarrow> bool" where
  "fork_mem_ok al c \<longleftrightarrow> good_mem c (fm_proc al) \<and> fm_as_ok al \<and> fm_tf_ok al \<and>
     (\<forall>n. \<exists>pt. fm_tables al n = Some pt \<and> length pt = unat n) \<and>
     (\<exists>spt. fm_stack al = Some spt \<and> length spt = DUMBVM_STACKPAGES)"

text \<open>The state after the address space has been copied and the child has been entered in the parent.\<close>

definition forked :: "pstate \<Rightarrow> nat \<Rightarrow> proc \<Rightarrow> fork_mem \<Rightarrow> nat \<Rightarrow> addrspace \<Rightarrow> kmem \<Rightarrow> pstate" where
  "forked ps cur parent al c new k' = ps\<lparr>km := k',
     proc_at := (proc_at ps)(c \<mapsto> (new_proc (fm_proc al) (counter_pid ps))\<lparr>p_addrspace := Some new\<rparr>,
       cur \<mapsto> parent\<lparr>childArray := (childArray parent)[nat (countChild parent) := counter_pid ps],
                     countChild := countChild parent + 1\<rparr>),
     procTable := (procTable ps)[nat (counter_pid ps - 2) := Some c], counter_pid := counter_pid ps + 1,
     proc_count := proc_count ps + 1\<rparr>"

lemma sys_fork_steps:
  assumes can: "can_fork ps cur parent old B g1 g2 g3" and mem: "fork_mem_ok al c" and c: "c \<noteq> cur"
    and copy: "as_copy True (fm_tables al) (fm_stack al) (km ps) old = Some (Inr new, k')"
  shows "fm_thread al = Inr t \<Longrightarrow> sys_fork ps cur al = do {
       ps' \<leftarrow> set_proc (forked ps cur parent al c new k') c (p_threads_update (\<lambda>ts. ts @ [t]));
       Some (Inr (counter_pid ps), ps')
     }"
    "fm_thread al = Inl e \<Longrightarrow> sys_fork ps cur al = do {
       ps' \<leftarrow> proc_destroy (forked ps cur parent al c new k') c;
       Some (Inl e, ps')
     }"
proof -
  have pt: "length (procTable ps) = 64" "2 \<le> counter_pid ps" "counter_pid ps < 66" "proc_at ps cur = Some parent"
      "p_addrspace parent = Some old" "length (childArray parent) = 64" "0 \<le> countChild parent" "countChild parent < 64"
    using can by (simp_all add: can_fork_def)
  have g: "good_mem c (fm_proc al)" "fm_as_ok al" "fm_tf_ok al" using mem by (simp_all add: fork_mem_ok_def)
  define ps1 where "ps1 = ps\<lparr>proc_at := (proc_at ps)(c \<mapsto> new_proc (fm_proc al) (counter_pid ps)),
     procTable := (procTable ps)[nat (counter_pid ps - 2) := Some c], counter_pid := counter_pid ps + 1,
     proc_count := proc_count ps + 1\<rparr>"
  have cr: "proc_create_runprogram ps (fm_proc al) = Some (Some c, ps1)"
    using create_ok [OF g(1) pt(1-3)] by (simp add: ps1_def)
  have at: "proc_at ps1 c = Some (new_proc (fm_proc al) (counter_pid ps))" "proc_at ps1 cur = Some parent"
      "pid (new_proc (fm_proc al) (counter_pid ps)) = counter_pid ps" "km ps1 = km ps"
    using c pt by (simp_all add: ps1_def new_proc_def)
  have full: "set_proc (ps1\<lparr>km := k'\<rparr>) c (p_addrspace_update (\<lambda>_. Some new)) =
      Some (ps1\<lparr>km := k', proc_at := (proc_at ps1)(c \<mapsto> (new_proc (fm_proc al) (counter_pid ps))\<lparr>p_addrspace := Some new\<rparr>)\<rparr>)"
    using at by (simp add: set_proc_def ps1_def)
  have arr: "upd_at (childArray parent) (countChild parent) (counter_pid ps) =
      Some ((childArray parent)[nat (countChild parent) := counter_pid ps])"
    using pt by (simp add: upd_at_def upd_def)
  have par: "set_proc (ps1\<lparr>km := k', proc_at := (proc_at ps1)(c \<mapsto> (new_proc (fm_proc al) (counter_pid ps))\<lparr>p_addrspace := Some new\<rparr>)\<rparr>)
      cur (\<lambda>p. p\<lparr>childArray := (childArray parent)[nat (countChild parent) := counter_pid ps], countChild := s32 (countChild p + 1)\<rparr>) =
      Some (forked ps cur parent al c new k')"
    using c pt by (simp add: set_proc_def forked_def ps1_def s32_small)
  have "0 < counter_pid ps" using pt(2) by simp
  note steps = cr at full arr par copy g pt this
  show "fm_thread al = Inr t \<Longrightarrow> sys_fork ps cur al = do {
       ps' \<leftarrow> set_proc (forked ps cur parent al c new k') c (p_threads_update (\<lambda>ts. ts @ [t]));
       Some (Inr (counter_pid ps), ps')
     }"
    by (simp add: sys_fork_def Let_def steps)
  show "fm_thread al = Inl e \<Longrightarrow> sys_fork ps cur al = do {
       ps' \<leftarrow> proc_destroy (forked ps cur parent al c new k') c;
       Some (Inl e, ps')
     }"
    by (simp add: sys_fork_def Let_def steps)
qed

lemma forked_child_known:
  assumes can: "can_fork ps cur parent old B g1 g2 g3" and c: "c \<noteq> cur"
    and ps': "procTable ps' = procTable (forked ps cur parent al c new k')" "aliveTable ps' = aliveTable ps"
      "proc_at ps' cur = proc_at (forked ps cur parent al c new k') cur"
  shows "isExist ps' cur (counter_pid ps) = Some True" "idx_int (aliveTable ps') (counter_pid ps - 2) = Some True"
    "idx_int (procTable ps') (counter_pid ps - 2) = Some (Some c)"
proof -
  have pt: "length (procTable ps) = 64" "length (aliveTable ps) = 64" "2 \<le> counter_pid ps" "counter_pid ps < 66"
      "aliveTable ps ! nat (counter_pid ps - 2)"
      "length (childArray parent) = 64" "0 \<le> countChild parent" "countChild parent < 64"
    using can by (simp_all add: can_fork_def)
  define arr where "arr = (childArray parent)[nat (countChild parent) := counter_pid ps]"
  have arr: "length arr = 64" "arr ! nat (countChild parent) = counter_pid ps" using pt by (simp_all add: arr_def)
  have "isExist_from arr (counter_pid ps) [0..<nat (countChild parent + 1)] =
      Some (\<exists>i \<in> set [0..<nat (countChild parent + 1)]. arr ! i = counter_pid ps)"
    by (rule isExist_from_iff) (use pt arr in auto)
  moreover have "\<exists>i \<in> set [0..<nat (countChild parent + 1)]. arr ! i = counter_pid ps"
    by (rule bexI [of _ "nat (countChild parent)"]) (use pt arr in auto)
  ultimately show "isExist ps' cur (counter_pid ps) = Some True"
    using ps'(3) by (simp add: isExist_def forked_def arr_def [symmetric])
  show "idx_int (aliveTable ps') (counter_pid ps - 2) = Some True" "idx_int (procTable ps') (counter_pid ps - 2) = Some (Some c)"
    using pt ps' by (simp_all add: idx_int_def idx_def forked_def)
qed

text \<open>A process at address 1 that may fork, and memory for its child at address 5.\<close>

lemma demo_fork:
  obtains ps parent old B g1 g2 g3 where "can_fork ps 1 parent old B g1 g2 g3" "counter_pid ps = 3" "proc_count ps = 1"
proof -
  obtain as k fs1 fs2 fs3 where
     load: "as_prepare_load (Some (replicate 12 0)) demo_mem demo_as = Some (Inr (), as, k)" and
     *: "as_owns (vm k) as fs1 fs2 fs3" "same_layout as demo_as"
     "cm_rep (vm k) (add_frames Map.empty (fs1 @ fs2 @ fs3))" "distinct (fs1 @ fs2 @ fs3)" "nframes (vm k) = 30"
     "frames (add_frames Map.empty (fs1 @ fs2 @ fs3)) = set (fs1 @ fs2 @ fs3)" "length (fs1 @ fs2 @ fs3) = 14"
    using demo_loaded by blast
  have "card (frames (add_frames Map.empty (fs1 @ fs2 @ fs3))) = 14" using *(4,6,7) by (metis distinct_card)
  then have room: "card (frames (add_frames Map.empty (fs1 @ fs2 @ fs3))) + as_pages as \<le> nframes (vm k)"
    using same_layout_loaded(2) [OF *(2)] demo_as_facts(3) *(5) by simp
  have live: "set (fs1 @ fs2 @ fs3) \<subseteq> frames (add_frames Map.empty (fs1 @ fs2 @ fs3))" using *(6) by simp
  define parent where "parent = demo_proc\<lparr>p_addrspace := Some as, pid := 2\<rparr>"
  define ps where "ps = (proc_bootstrap k)\<lparr>proc_at := [1 \<mapsto> parent], counter_pid := 3, proc_count := 1\<rparr>"
  have "can_fork ps 1 parent as (add_frames Map.empty (fs1 @ fs2 @ fs3)) fs1 fs2 fs3"
  proof -
    define Bk where "Bk = add_frames Map.empty (fs1 @ fs2 @ fs3)"
    have k: "cm_rep (vm k) Bk" "set (fs1 @ fs2 @ fs3) \<subseteq> frames Bk" "card (frames Bk) + as_pages as \<le> nframes (vm k)"
      using *(3) room live unfolding Bk_def by blast+
    have ps: "km ps = k" "procTable ps = replicate 64 None" "aliveTable ps = replicate 64 True" "counter_pid ps = 3"
      "proc_at ps 1 = Some parent" "p_addrspace parent = Some as" "length (childArray parent) = 64" "countChild parent = 0"
      by (simp_all add: ps_def proc_bootstrap_def parent_def demo_proc_def)
    show ?thesis unfolding can_fork_def Bk_def [symmetric] ps using k *(1) by (intro conjI) simp_all
  qed
  then show ?thesis using that [of ps parent as "add_frames Map.empty (fs1 @ fs2 @ fs3)" fs1 fs2 fs3] by (simp add: ps_def)
qed

definition demo_fork_mem :: "errno + nat \<Rightarrow> fork_mem" where
  "demo_fork_mem t = \<lparr>fm_proc = demo_pmem 5, fm_as_ok = True, fm_tables = demo_kmalloc, fm_stack = Some (replicate 12 0),
     fm_tf_ok = True, fm_thread = t\<rparr>"

lemma demo_fork_mem_ok: "fork_mem_ok (demo_fork_mem t) 5" "fm_thread (demo_fork_mem t) = t"
  by (simp_all add: fork_mem_ok_def demo_fork_mem_def demo_kmalloc_def DUMBVM_STACKPAGES_def)



text \<open>C40: a fork whose thread cannot be made reports the error, but leaves the child in the parent's list
  of children and alive in the table although its structure has been freed; waiting for it then uses
  the freed structure.\<close>

theorem fork_failure_dangling:
  assumes "can_fork ps cur parent old B g1 g2 g3" "fork_mem_ok al c" "c \<noteq> cur" "fm_thread al = Inl e"
    "proc_count ps + 1 \<noteq> 0"
  shows "\<exists>ps'. sys_fork ps cur al = Some (Inl e, ps') \<and> proc_at ps' c = None \<and>
    isExist ps' cur (counter_pid ps) = Some True \<and>
    (\<forall>copyout. sys_waitpid ps' cur (counter_pid ps) False 0 copyout = None)"
proof -
  have m: "cm_rep (vm (km ps)) B" "as_owns (vm (km ps)) old g1 g2 g3" "set (g1 @ g2 @ g3) \<subseteq> frames B"
      "card (frames B) + as_pages old \<le> nframes (vm (km ps))"
      "length (procTable ps) = 64" "2 \<le> counter_pid ps" "counter_pid ps < 66"
    using assms(1) by (simp_all add: can_fork_def)
  obtain spt where spt: "fm_stack al = Some spt" "length spt = DUMBVM_STACKPAGES" using assms(2) by (auto simp: fork_mem_ok_def)
  have tabs: "\<And>n. \<exists>pt. fm_tables al n = Some pt \<and> length pt = unat n" using assms(2) by (simp add: fork_mem_ok_def)
  obtain new k' where cp: "as_copy True (fm_tables al) (Some spt) (km ps) old = Some (Inr new, k')"
    using as_copy_ok [OF m(1-3) tabs spt(2) m(4)] by blast
  define ps1 where "ps1 = forked ps cur parent al c new k'"
  have "0 < proc_count ps + 1" using assms(5) by (simp add: word_gt_0)
  define n where "n = (if proc_count ps = 0 then no_proc_sem ps + 1 else no_proc_sem ps)"
  have d: "proc_destroy ps1 c = Some (ps1\<lparr>proc_at := (proc_at ps1)(c := None), proc_count := proc_count ps, no_proc_sem := n\<rparr>)"
    using assms(3) m \<open>0 < proc_count ps + 1\<close>
    by (cases "proc_count ps = 0")
      (simp_all add: proc_destroy_def ps1_def forked_def idx_int_def idx_def new_proc_def proc_free_def Let_def n_def)
  define ps' where "ps' = ps1\<lparr>proc_at := (proc_at ps1)(c := None), proc_count := proc_count ps, no_proc_sem := n\<rparr>"
  have run: "sys_fork ps cur al = Some (Inl e, ps')"
    using sys_fork_steps(2) [OF assms(1-3) _ assms(4)] cp spt(1) d by (simp add: ps1_def ps'_def)
  have known: "isExist ps' cur (counter_pid ps) = Some True" "idx_int (aliveTable ps') (counter_pid ps - 2) = Some True"
      "idx_int (procTable ps') (counter_pid ps - 2) = Some (Some c)"
    using forked_child_known [OF assms(1,3), of ps' al new k'] assms(3) by (simp_all add: ps'_def ps1_def forked_def)
  have gone: "proc_at ps' c = None" by (simp add: ps'_def)
  have "sys_waitpid ps' cur (counter_pid ps) False 0 copyout = None" for copyout
    using known gone by (simp add: sys_waitpid_def)
  then show ?thesis using run gone known by blast
qed

theorem fork_failure_dangling_witness:
  "\<exists>ps ps'. sys_fork ps 1 (demo_fork_mem (Inl ENOMEM)) = Some (Inl ENOMEM, ps') \<and> isExist ps' 1 3 = Some True \<and>
     sys_waitpid ps' 1 3 False 0 (\<lambda>_. Inr ()) = None"
proof -
  obtain ps parent old B g1 g2 g3 where f: "can_fork ps 1 parent old B g1 g2 g3" "counter_pid ps = 3" "proc_count ps = 1"
    by (rule demo_fork)
  show ?thesis using fork_failure_dangling [OF f(1) demo_fork_mem_ok(1) _ demo_fork_mem_ok(2), of ENOMEM] f(2,3) by auto
qed

end
