(* ===== verification/WaitExit.thy ===== *)
theory WaitExit
  imports Prelude
begin

text \<open>
  The protocol between \<^verbatim>\<open>sys__exit\<close> and \<^verbatim>\<open>sys_waitpid\<close> (\<^verbatim>\<open>kern/syscall/proc_syscalls.c\<close>), under every
  interleaving of the processes. Each process has one thread; it is named by its place in the process
  table, its process id minus 2. The table lock \<^verbatim>\<open>lk_tb\<close> is a lock that excludes, as shown for
  \<^verbatim>\<open>kern/thread/synch.c\<close>; waiting on and broadcasting to the condition variable of a process go
  through the lock of its wait channel, step by step as in \<^verbatim>\<open>cv_wait\<close> and \<^verbatim>\<open>cv_broadcast\<close>.
\<close>

section \<open>The steps\<close>

text \<open>Where a process is. In \<^verbatim>\<open>sys_waitpid\<close> for the child \<open>i\<close>: before taking the table lock, at the test of
  the loop, in \<^verbatim>\<open>cv_wait\<close> before locking the channel, before releasing the table lock, before
  sleeping, asleep, and before taking the table lock again; with the exit code read and before the
  release, and returned with it. In \<^verbatim>\<open>sys__exit\<close>: before taking the table lock, before the broadcast,
  before releasing the table lock, before the process is destroyed, and gone.\<close>

datatype wpc = Run | WLock nat | WTest nat | WBridge nat | WRelease nat | WSleep nat | WAsleep nat | WRelock nat
  | WUnlock nat int | WGot nat int | XLock int | XBroadcast | XUnlock | XDestroy | Gone

record wx =
  alive :: "nat \<Rightarrow> bool"
  ecode :: "nat \<Rightarrow> int"
  freed :: "nat \<Rightarrow> bool"
  tb :: "nat option"
  cvlock :: "nat \<Rightarrow> nat option"
  cvq :: "nat \<Rightarrow> nat list"
  wat :: "nat \<Rightarrow> wpc"
  called :: "nat \<Rightarrow> int option"
  faulted :: bool

definition wgo :: "nat \<Rightarrow> wpc \<Rightarrow> wx \<Rightarrow> wx" where
  "wgo t q m = m\<lparr>wat := (wat m)(t := q)\<rparr>"

definition wx_sleep :: "nat \<Rightarrow> nat \<Rightarrow> wx \<Rightarrow> wx" where
  "wx_sleep t i m = wgo t (WAsleep i) (m\<lparr>cvq := (cvq m)(i := cvq m i @ [t]), cvlock := (cvlock m)(i := None)\<rparr>)"

definition wx_wakeall :: "nat \<Rightarrow> wx \<Rightarrow> wx" where
  "wx_wakeall i m = m\<lparr>wat := (\<lambda>u. if u \<in> set (cvq m i) then WRelock i else wat m u), cvq := (cvq m)(i := [])\<rparr>"

text \<open>A fault is the use of a process that has been freed, or a condition variable destroyed while its
  channel is locked or has sleepers.\<close>

inductive wx_step :: "nat \<Rightarrow> wx \<Rightarrow> wx \<Rightarrow> bool" for t m where
  wait_call: "wat m t = Run \<Longrightarrow> i \<noteq> t \<Longrightarrow> wx_step t m (wgo t (WLock i) m)"
| wait_lock: "wat m t = WLock i \<Longrightarrow> tb m = None \<Longrightarrow> wx_step t m (wgo t (WTest i) (m\<lparr>tb := Some t\<rparr>))"
| wait_alive: "wat m t = WTest i \<Longrightarrow> alive m i \<Longrightarrow> \<not> freed m i \<Longrightarrow> wx_step t m (wgo t (WBridge i) m)"
| wait_freed: "wat m t = WTest i \<Longrightarrow> alive m i \<Longrightarrow> freed m i \<Longrightarrow> wx_step t m (m\<lparr>faulted := True\<rparr>)"
| wait_bridge: "wat m t = WBridge i \<Longrightarrow> cvlock m i = None \<Longrightarrow>
     wx_step t m (wgo t (WRelease i) (m\<lparr>cvlock := (cvlock m)(i := Some t)\<rparr>))"
| wait_release: "wat m t = WRelease i \<Longrightarrow> wx_step t m (wgo t (WSleep i) (m\<lparr>tb := None\<rparr>))"
| wait_sleep: "wat m t = WSleep i \<Longrightarrow> wx_step t m (wx_sleep t i m)"
| wait_relock: "wat m t = WRelock i \<Longrightarrow> tb m = None \<Longrightarrow> wx_step t m (wgo t (WTest i) (m\<lparr>tb := Some t\<rparr>))"
| wait_dead: "wat m t = WTest i \<Longrightarrow> \<not> alive m i \<Longrightarrow> wx_step t m (wgo t (WUnlock i (ecode m i)) m)"
| wait_unlock: "wat m t = WUnlock i c \<Longrightarrow> wx_step t m (wgo t (WGot i c) (m\<lparr>tb := None\<rparr>))"
| wait_return: "wat m t = WGot i c \<Longrightarrow> wx_step t m (wgo t Run m)"
| exit_call: "wat m t = Run \<Longrightarrow> wx_step t m (wgo t (XLock c) (m\<lparr>called := (called m)(t \<mapsto> c)\<rparr>))"
| exit_lock: "wat m t = XLock c \<Longrightarrow> tb m = None \<Longrightarrow>
     wx_step t m (wgo t XBroadcast (m\<lparr>tb := Some t, ecode := (ecode m)(t := c), alive := (alive m)(t := False)\<rparr>))"
| exit_broadcast: "wat m t = XBroadcast \<Longrightarrow> cvlock m t = None \<Longrightarrow> wx_step t m (wgo t XUnlock (wx_wakeall t m))"
| exit_unlock: "wat m t = XUnlock \<Longrightarrow> wx_step t m (wgo t XDestroy (m\<lparr>tb := None\<rparr>))"
| exit_destroy: "wat m t = XDestroy \<Longrightarrow> cvlock m t = None \<Longrightarrow> cvq m t = [] \<Longrightarrow>
     wx_step t m (wgo t Gone (m\<lparr>freed := (freed m)(t := True)\<rparr>))"
| exit_busy: "wat m t = XDestroy \<Longrightarrow> cvlock m t \<noteq> None \<or> cvq m t \<noteq> [] \<Longrightarrow> wx_step t m (m\<lparr>faulted := True\<rparr>)"

definition wx_init :: wx where
  "wx_init = \<lparr>alive = (\<lambda>_. True), ecode = (\<lambda>_. 0), freed = (\<lambda>_. False), tb = None, cvlock = (\<lambda>_. None),
     cvq = (\<lambda>_. []), wat = (\<lambda>_. Run), called = (\<lambda>_. None), faulted = False\<rparr>"

inductive wx_reach :: "wx \<Rightarrow> bool" where
  init: "wx_reach wx_init"
| step: "wx_reach m \<Longrightarrow> wx_step t m m' \<Longrightarrow> wx_reach m'"

section \<open>The invariant\<close>

fun holds_tb :: "wpc \<Rightarrow> bool" where
  "holds_tb (WTest _) = True"
| "holds_tb (WBridge _) = True"
| "holds_tb (WRelease _) = True"
| "holds_tb (WUnlock _ _) = True"
| "holds_tb XBroadcast = True"
| "holds_tb XUnlock = True"
| "holds_tb _ = False"

fun holds_cv :: "wpc \<Rightarrow> nat option" where
  "holds_cv (WRelease i) = Some i"
| "holds_cv (WSleep i) = Some i"
| "holds_cv _ = None"

fun exited :: "wpc \<Rightarrow> bool" where
  "exited XBroadcast = True"
| "exited XUnlock = True"
| "exited XDestroy = True"
| "exited Gone = True"
| "exited _ = False"

definition wx_locks :: "wx \<Rightarrow> bool" where
  "wx_locks m \<longleftrightarrow> (\<forall>t. tb m = Some t \<longleftrightarrow> holds_tb (wat m t)) \<and> (\<forall>i t. cvlock m i = Some t \<longleftrightarrow> holds_cv (wat m t) = Some i)"

definition wx_chans :: "wx \<Rightarrow> bool" where
  "wx_chans m \<longleftrightarrow> (\<forall>i t. t \<in> set (cvq m i) \<longleftrightarrow> wat m t = WAsleep i)"

definition wx_alive :: "wx \<Rightarrow> bool" where
  "wx_alive m \<longleftrightarrow> (\<forall>i. alive m i \<longleftrightarrow> \<not> exited (wat m i)) \<and> (\<forall>i. freed m i \<longleftrightarrow> wat m i = Gone) \<and>
     (\<forall>t i. wat m t = WBridge i \<or> wat m t = WRelease i \<longrightarrow> alive m i) \<and>
     (\<forall>t i. wat m t = WSleep i \<or> wat m t = WAsleep i \<longrightarrow> alive m i \<or> wat m i = XBroadcast)"

definition wx_codes :: "wx \<Rightarrow> bool" where
  "wx_codes m \<longleftrightarrow> (\<forall>t c. wat m t = XLock c \<longrightarrow> called m t = Some c) \<and>
     (\<forall>i. \<not> alive m i \<longrightarrow> called m i = Some (ecode m i)) \<and>
     (\<forall>t i c. wat m t = WUnlock i c \<or> wat m t = WGot i c \<longrightarrow> \<not> alive m i \<and> ecode m i = c)"

lemma wgo_sel [simp]:
  "wat (wgo t q m) = (wat m)(t := q)" "alive (wgo t q m) = alive m" "ecode (wgo t q m) = ecode m"
  "freed (wgo t q m) = freed m" "tb (wgo t q m) = tb m" "cvlock (wgo t q m) = cvlock m" "cvq (wgo t q m) = cvq m"
  "called (wgo t q m) = called m" "faulted (wgo t q m) = faulted m"
  by (simp_all add: wgo_def)

lemma wx_locks_step:
  assumes "wx_step t m m'" "wx_locks m" "wx_chans m"
  shows "wx_locks m'"
proof -
  have tb: "tb m = Some u \<longleftrightarrow> holds_tb (wat m u)" and cv: "cvlock m i = Some u \<longleftrightarrow> holds_cv (wat m u) = Some i" for u i
    using assms(2) by (simp_all add: wx_locks_def)
  have ch: "u \<in> set (cvq m i) \<longleftrightarrow> wat m u = WAsleep i" for u i using assms(3) by (simp add: wx_chans_def)
  have own: "holds_tb (wat m u) \<longleftrightarrow> u = t" if "holds_tb (wat m t)" for u using tb [of u] tb [of t] that by auto
  show ?thesis using assms(1)
  proof cases
    case (wait_release i)
    then show ?thesis using own cv by (auto simp: wx_locks_def)
  next
    case (wait_unlock i c)
    then show ?thesis using own cv by (auto simp: wx_locks_def)
  next
    case exit_unlock
    then show ?thesis using own cv by (auto simp: wx_locks_def)
  next
    case (wait_sleep i)
    have "holds_cv (wat m u) = Some i \<longleftrightarrow> u = t" for u using cv [of i u] cv [of i t] wait_sleep by auto
    then show ?thesis using wait_sleep tb cv by (auto simp: wx_locks_def wx_sleep_def)
  next
    case (wait_bridge i)
    then have "holds_cv (wat m u) \<noteq> Some i" for u using cv [of i u] by simp
    then show ?thesis using wait_bridge tb cv by (auto simp: wx_locks_def)
  next
    case exit_broadcast
    have tb': "tb m = Some u \<longleftrightarrow> holds_tb (wat m' u)" for u
      using exit_broadcast tb [of u] ch [of u t] by (auto simp: wx_wakeall_def)
    have cv': "cvlock m i = Some u \<longleftrightarrow> holds_cv (wat m' u) = Some i" for u i
      using exit_broadcast cv [of i u] ch [of u t] by (auto simp: wx_wakeall_def)
    have "tb m' = tb m" "cvlock m' = cvlock m" using exit_broadcast by (simp_all add: wx_wakeall_def)
    then show ?thesis using tb' cv' by (simp add: wx_locks_def)
  qed (use tb cv in \<open>auto simp: wx_locks_def\<close>)
qed

lemma wx_chans_step:
  assumes "wx_step t m m'" "wx_chans m"
  shows "wx_chans m'"
proof -
  have ch: "u \<in> set (cvq m i) \<longleftrightarrow> wat m u = WAsleep i" for u i using assms(2) by (simp add: wx_chans_def)
  show ?thesis using assms(1)
  proof cases
    case (wait_sleep i)
    then show ?thesis using ch ch [of t] by (auto simp: wx_chans_def wx_sleep_def)
  next
    case exit_broadcast
    then show ?thesis using ch ch [of t] by (auto simp: wx_chans_def wx_wakeall_def)
  qed (use ch ch [of t] in \<open>auto simp: wx_chans_def\<close>)
qed

lemma wx_alive_fault: "wx_alive (m\<lparr>faulted := True\<rparr>) = wx_alive m"
  by (simp add: wx_alive_def)

lemma wx_alive_step:
  assumes "wx_step t m m'" "wx_alive m" "wx_locks m" "wx_chans m"
  shows "wx_alive m'"
proof -
  have al: "alive m i \<longleftrightarrow> \<not> exited (wat m i)" and fr: "freed m i \<longleftrightarrow> wat m i = Gone"
    and br: "wat m u = WBridge i \<or> wat m u = WRelease i \<Longrightarrow> alive m i"
    and sl: "wat m u = WSleep i \<or> wat m u = WAsleep i \<Longrightarrow> alive m i \<or> wat m i = XBroadcast" for u i
    using assms(2) unfolding wx_alive_def by blast+
  have tb: "tb m = Some u \<longleftrightarrow> holds_tb (wat m u)" and cv: "cvlock m i = Some u \<longleftrightarrow> holds_cv (wat m u) = Some i" for u i
    using assms(3) by (simp_all add: wx_locks_def)
  have ch: "u \<in> set (cvq m i) \<longleftrightarrow> wat m u = WAsleep i" for u i using assms(4) by (simp add: wx_chans_def)
  have keep: "wx_alive m'"
    if m': "wat m' = (wat m)(t := q)" "alive m' = alive m" "\<And>i. freed m' i \<longleftrightarrow> ((wat m)(t := q)) i = Gone"
      and q: "exited q = exited (wat m t)" "\<And>i. q = WBridge i \<or> q = WRelease i \<Longrightarrow> alive m i"
        "\<And>i. q = WSleep i \<or> q = WAsleep i \<Longrightarrow> alive m i \<or> wat m i = XBroadcast" "wat m t \<noteq> XBroadcast" for q
    unfolding wx_alive_def
  proof (intro conjI allI impI)
    show "alive m' i = (\<not> exited (wat m' i))" for i using al [of i] m' q by (cases "i = t") auto
    show "freed m' i = (wat m' i = Gone)" for i using m' by simp
    show "alive m' i" if "wat m' u = WBridge i \<or> wat m' u = WRelease i" for u i
      using that br [of u i] q(2) [of i] m' by (cases "u = t") auto
    show "alive m' i \<or> wat m' i = XBroadcast" if w: "wat m' u = WSleep i \<or> wat m' u = WAsleep i" for u i
    proof -
      have "alive m i \<or> wat m i = XBroadcast" using w sl [of u i] q(3) [of i] m' by (cases "u = t") auto
      then show ?thesis using q(4) m' by (cases "i = t") auto
    qed
  qed
  show ?thesis using assms(1)
  proof cases
    case (exit_lock c)
    have "wat m u \<noteq> WBridge i" "wat m u \<noteq> WRelease i" for u i using tb [of u] exit_lock(3) by auto
    moreover have "alive m' i \<or> wat m' i = XBroadcast" if "wat m' u = WSleep i \<or> wat m' u = WAsleep i" for u i
      using sl [of u i] that exit_lock by (cases "u = t"; cases "i = t") auto
    moreover have "alive m' i = (\<not> exited (wat m' i))" "freed m' i = (wat m' i = Gone)" for i
      using exit_lock al [of i] fr [of i] by auto
    moreover have "wat m' u \<noteq> WBridge i" "wat m' u \<noteq> WRelease i" for u i using exit_lock calculation(1,2) by auto
    ultimately show ?thesis unfolding wx_alive_def by blast
  next
    case exit_broadcast
    have no: "wat m u \<noteq> WSleep t" for u using cv [of t u] exit_broadcast(3) by auto
    have m': "alive m' = alive m" "freed m' = freed m" "wat m' t = XUnlock"
        "\<And>u. u \<noteq> t \<Longrightarrow> wat m' u = (if wat m u = WAsleep t then WRelock t else wat m u)"
      using exit_broadcast ch by (auto simp: wx_wakeall_def)
    show ?thesis unfolding wx_alive_def
    proof (intro conjI allI impI)
      show "alive m' i = (\<not> exited (wat m' i))" for i using al [of i] al [of t] m' exit_broadcast(2) by (cases "i = t") auto
      show "freed m' i = (wat m' i = Gone)" for i using fr [of i] m' exit_broadcast(2) by (cases "i = t") auto
      show "alive m' i" if "wat m' u = WBridge i \<or> wat m' u = WRelease i" for u i
        using br [of u i] that m' by (cases "u = t") (auto split: if_splits)
      show "alive m' i \<or> wat m' i = XBroadcast" if "wat m' u = WSleep i \<or> wat m' u = WAsleep i" for u i
      proof -
        have "u \<noteq> t" using that m'(3) by auto
        then have "wat m u = WSleep i \<or> wat m u = WAsleep i" "i \<noteq> t" using that m'(4) [of u] no by (auto split: if_splits)
        then show ?thesis using sl [of u i] m'(1) m'(4) [of i] by auto
      qed
    qed
  next
    case (wait_sleep i)
    then show ?thesis using keep [of "WAsleep i"] sl [of t i] fr by (simp add: wx_sleep_def)
  next
    case (wait_release i)
    then show ?thesis using keep [of "WSleep i"] br [of t i] fr by simp
  next
    case (wait_bridge i)
    then show ?thesis using keep [of "WRelease i"] br [of t i] fr by simp
  next
    case (wait_alive i)
    then show ?thesis using keep [of "WBridge i"] fr by simp
  next
    case (wait_call i) then show ?thesis using keep [of "WLock i"] fr by simp
  next
    case (wait_lock i) then show ?thesis using keep [of "WTest i"] fr by simp
  next
    case (wait_relock i) then show ?thesis using keep [of "WTest i"] fr by simp
  next
    case (wait_dead i) then show ?thesis using keep [of "WUnlock i (ecode m i)"] fr by simp
  next
    case (wait_unlock i c) then show ?thesis using keep [of "WGot i c"] fr by simp
  next
    case (wait_return i c) then show ?thesis using keep [of Run] fr by simp
  next
    case (exit_call c) then show ?thesis using keep [of "XLock c"] fr by simp
  next
    case exit_unlock then show ?thesis using keep [of XDestroy] fr by simp
  next
    case exit_destroy then show ?thesis using keep [of Gone] fr by simp
  next
    case wait_freed then show ?thesis using assms(2) wx_alive_fault by simp
  next
    case exit_busy then show ?thesis using assms(2) wx_alive_fault by simp
  qed
qed

lemma wx_codesI:
  assumes "\<And>u c. wat m u = XLock c \<Longrightarrow> called m u = Some c" "\<And>i. \<not> alive m i \<Longrightarrow> called m i = Some (ecode m i)"
    "\<And>u i c. wat m u = WUnlock i c \<or> wat m u = WGot i c \<Longrightarrow> \<not> alive m i \<and> ecode m i = c"
  shows "wx_codes m"
  using assms unfolding wx_codes_def by blast

lemma wx_codes_step:
  assumes "wx_step t m m'" "wx_codes m" "wx_alive m"
  shows "wx_codes m'"
proof -
  have xl: "wat m u = XLock c \<Longrightarrow> called m u = Some c" and dead: "\<not> alive m i \<Longrightarrow> called m i = Some (ecode m i)"
    and got: "wat m u = WUnlock i c \<or> wat m u = WGot i c \<Longrightarrow> \<not> alive m i \<and> ecode m i = c" for u i c
    using assms(2) unfolding wx_codes_def by blast+
  have al: "alive m i \<longleftrightarrow> \<not> exited (wat m i)" for i using assms(3) by (simp add: wx_alive_def)
  have keep: "wx_codes m'" if same: "called m' = called m" "alive m' = alive m" "ecode m' = ecode m"
      and w: "\<And>u. wat m' u = wat m u \<or> (\<forall>c. wat m' u \<noteq> XLock c) \<and>
        (\<forall>i c. wat m' u = WUnlock i c \<or> wat m' u = WGot i c \<longrightarrow> \<not> alive m i \<and> ecode m i = c)"
  proof (rule wx_codesI)
    show "called m' u = Some c" if "wat m' u = XLock c" for u c using w [of u] that xl [of u c] same by auto
    show "called m' i = Some (ecode m' i)" if "\<not> alive m' i" for i using that dead same by simp
    show "\<not> alive m' i \<and> ecode m' i = c" if g: "wat m' u = WUnlock i c \<or> wat m' u = WGot i c" for u i c
    proof (cases "wat m' u = wat m u")
      case True
      then show ?thesis using got [of u i c] g same by auto
    next
      case False
      then show ?thesis using w [of u] g same by auto
    qed
  qed
  show ?thesis using assms(1)
  proof cases
    case (exit_lock d)
    have m': "called m' = called m" "alive m' = (alive m)(t := False)" "ecode m' = (ecode m)(t := d)"
        "wat m' = (wat m)(t := XBroadcast)" using exit_lock by simp_all
    have ct: "called m t = Some d" "alive m t" using xl exit_lock al by auto
    show ?thesis
    proof (rule wx_codesI)
      show "called m' u = Some c" if "wat m' u = XLock c" for u c
        using that xl [of u c] m' by (cases "u = t") auto
      show "called m' i = Some (ecode m' i)" if "\<not> alive m' i" for i
        using that dead [of i] ct m' by (cases "i = t") auto
      show "\<not> alive m' i \<and> ecode m' i = c" if "wat m' u = WUnlock i c \<or> wat m' u = WGot i c" for u i c
      proof -
        have "u \<noteq> t" using that m' by auto
        then have "\<not> alive m i \<and> ecode m i = c" using that m' got [of u i c] by auto
        then show ?thesis using ct m' by auto
      qed
    qed
  next
    case (exit_call d)
    have m': "called m' = (called m)(t \<mapsto> d)" "alive m' = alive m" "ecode m' = ecode m" "wat m' = (wat m)(t := XLock d)"
      using exit_call by simp_all
    have ct: "alive m t" using al exit_call by auto
    show ?thesis
    proof (rule wx_codesI)
      show "called m' u = Some c" if "wat m' u = XLock c" for u c using that xl [of u c] m' by (cases "u = t") auto
      show "called m' i = Some (ecode m' i)" if "\<not> alive m' i" for i using that dead [of i] ct m' by (cases "i = t") auto
      show "\<not> alive m' i \<and> ecode m' i = c" if "wat m' u = WUnlock i c \<or> wat m' u = WGot i c" for u i c
        using that m' got [of u i c] by (cases "u = t") auto
    qed
  next
    case (wait_unlock i c)
    have g: "\<not> alive m i \<and> ecode m i = c" using got wait_unlock by blast
    show ?thesis by (rule keep) (use wait_unlock g in simp_all)
  next
    case wait_freed
    then show ?thesis by (intro keep) simp_all
  next
    case exit_busy
    then show ?thesis by (intro keep) simp_all
  next
    case exit_broadcast
    then show ?thesis by (intro keep) (simp_all add: wx_wakeall_def)
  next
    case (wait_sleep i)
    then show ?thesis by (intro keep) (simp_all add: wx_sleep_def)
  qed (intro keep; simp)+
qed

definition wx_inv :: "wx \<Rightarrow> bool" where
  "wx_inv m \<longleftrightarrow> wx_locks m \<and> wx_chans m \<and> wx_alive m \<and> wx_codes m \<and> \<not> faulted m"

lemma wx_nofault_step:
  assumes "wx_step t m m'" "wx_inv m"
  shows "\<not> faulted m'"
proof -
  have inv: "wx_locks m" "wx_chans m" "wx_alive m" "\<not> faulted m" using assms(2) by (simp_all add: wx_inv_def)
  have al: "alive m i \<longleftrightarrow> \<not> exited (wat m i)" and fr: "freed m i \<longleftrightarrow> wat m i = Gone"
    and sl: "wat m u = WSleep i \<or> wat m u = WAsleep i \<Longrightarrow> alive m i \<or> wat m i = XBroadcast" 
    and br: "wat m u = WRelease i \<Longrightarrow> alive m i" for u i
    using inv(3) unfolding wx_alive_def by blast+
  show ?thesis using assms(1)
  proof cases
    case (wait_freed i)
    then have "wat m i = Gone" "\<not> exited (wat m i)" using fr al by simp_all
    then show ?thesis by simp
  next
    case exit_busy
    have nal: "\<not> alive m t" "wat m t \<noteq> XBroadcast" using al [of t] exit_busy(2) by auto
    have "cvlock m t = None"
    proof (rule ccontr)
      assume "cvlock m t \<noteq> None"
      then obtain u where "holds_cv (wat m u) = Some t" using inv(1) by (auto simp: wx_locks_def)
      then have "wat m u = WRelease t \<or> wat m u = WSleep t" by (cases "wat m u") auto
      then show False using sl [of u t] br [of u t] nal by auto
    qed
    moreover have "cvq m t = []"
    proof (rule ccontr)
      assume "cvq m t \<noteq> []"
      then have "hd (cvq m t) \<in> set (cvq m t)" by simp
      then have "wat m (hd (cvq m t)) = WAsleep t" using inv(2) by (simp add: wx_chans_def)
      then show False using sl [of "hd (cvq m t)" t] nal by auto
    qed
    ultimately show ?thesis using exit_busy(3) by simp
  qed (use inv(4) in \<open>simp_all add: wx_sleep_def wx_wakeall_def\<close>)
qed

lemma wx_reach_inv: "wx_reach m \<Longrightarrow> wx_inv m"
proof (induction rule: wx_reach.induct)
  case init
  show ?case by (simp add: wx_inv_def wx_init_def wx_locks_def wx_chans_def wx_alive_def wx_codes_def)
next
  case (step m t m')
  then show ?case using wx_nofault_step [OF step.hyps(2)] wx_locks_step wx_chans_step wx_alive_step wx_codes_step
    unfolding wx_inv_def by blast
qed

section \<open>Properties\<close>


text \<open>A process inside one of the calls that goes on by itself.\<close>

definition busy :: "wx \<Rightarrow> nat \<Rightarrow> bool" where
  "busy m t \<longleftrightarrow> wat m t \<noteq> Run \<and> wat m t \<noteq> Gone \<and> (\<forall>i. wat m t \<noteq> WAsleep i)"

lemma busy_step:
  assumes inv: "wx_inv m" and b: "busy m t"
  shows "\<exists>u m'. busy m u \<and> wx_step u m m'"
proof -
  have tb: "tb m = Some u \<longleftrightarrow> holds_tb (wat m u)" and cv: "cvlock m i = Some u \<longleftrightarrow> holds_cv (wat m u) = Some i" for u i
    using inv by (simp_all add: wx_inv_def wx_locks_def)
  show ?thesis
  proof (cases "\<exists>i u. cvlock m i = Some u")
    case True
    then obtain i u where "holds_cv (wat m u) = Some i" using cv by blast
    then have "wat m u = WRelease i \<or> wat m u = WSleep i" by (cases "wat m u") auto
    then have "busy m u" "\<exists>m'. wx_step u m m'" using wx_step.wait_release [of m u i] wx_step.wait_sleep [of m u i]
      by (auto simp: busy_def)
    then show ?thesis by blast
  next
    case False
    then have free: "cvlock m i = None" for i by (cases "cvlock m i") auto
    show ?thesis
    proof (cases "tb m")
      case (Some u)
      then have "holds_tb (wat m u)" using tb by simp
      then have "busy m u \<and> (\<exists>m'. wx_step u m m')"
      proof (cases "wat m u")
        case (WTest i)
        have "\<exists>m'. wx_step u m m'"
          using wx_step.wait_alive [OF WTest] wx_step.wait_freed [OF WTest] wx_step.wait_dead [OF WTest] by blast
        then show ?thesis using WTest by (simp add: busy_def)
      next
        case (WBridge i)
        then show ?thesis using wx_step.wait_bridge [OF _ free] by (simp add: busy_def) blast
      next
        case (WRelease i)
        then show ?thesis using wx_step.wait_release by (simp add: busy_def) blast
      next
        case (WUnlock i c)
        then show ?thesis using wx_step.wait_unlock by (simp add: busy_def) blast
      next
        case XBroadcast
        then show ?thesis using wx_step.exit_broadcast [OF _ free] by (simp add: busy_def) blast
      next
        case XUnlock
        then show ?thesis using wx_step.exit_unlock by (simp add: busy_def) blast
      qed simp_all
      then show ?thesis by blast
    next
      case None
      have "\<exists>m'. wx_step t m m'"
      proof (cases "wat m t")
        case (WLock i) then show ?thesis using wx_step.wait_lock [OF _ None] by blast
      next
        case (WRelock i) then show ?thesis using wx_step.wait_relock [OF _ None] by blast
      next
        case (XLock c) then show ?thesis using wx_step.exit_lock [OF _ None] by blast
      next
        case (WGot i c) then show ?thesis using wx_step.wait_return by blast
      next
        case XDestroy then show ?thesis using wx_step.exit_destroy [of m t] wx_step.exit_busy [of m t] by blast
      next
        case (WSleep i) then show ?thesis using wx_step.wait_sleep by blast
      qed (use b tb [of t] None in \<open>simp_all add: busy_def\<close>)
      then show ?thesis using b by blast
    qed
  qed
qed

text \<open>C16: no exit is missed. A process asleep in a wait waits for a process that has not exited, or that
  is about to wake it; and as long as some process is inside one of the calls and not asleep, one of
  those can take a step.\<close>

theorem waitpid_no_lost_exit:
  assumes "wx_reach m"
  shows "(wat m t = WAsleep i \<longrightarrow> \<not> exited (wat m i) \<or> wat m i = XBroadcast) \<and>
    (busy m t \<longrightarrow> (\<exists>u m'. busy m u \<and> wx_step u m m'))"
proof (intro conjI impI)
  have inv: "wx_inv m" by (rule wx_reach_inv [OF assms])
  show "\<not> exited (wat m i) \<or> wat m i = XBroadcast" if "wat m t = WAsleep i"
    using inv that unfolding wx_inv_def wx_alive_def by blast
  show "\<exists>u m'. busy m u \<and> wx_step u m m'" if "busy m t" by (rule busy_step [OF inv that])
qed

text \<open>Process 0 waits for process 1 and falls asleep; process 1 exits with code 7 and wakes it.\<close>

lemma demo_wait:
  obtains m1 m2 where "wx_reach m1" "wat m1 0 = WAsleep 1" "wat m1 1 = Run" "wx_reach m2" "wat m2 0 = WGot 1 7"
proof -
  define a1 where "a1 = wgo 0 (WLock 1) wx_init"
  define a2 where "a2 = wgo 0 (WTest 1) (a1\<lparr>tb := Some 0\<rparr>)"
  define a3 where "a3 = wgo 0 (WBridge 1) a2"
  define a4 where "a4 = wgo 0 (WRelease 1) (a3\<lparr>cvlock := (cvlock a3)(1 := Some 0)\<rparr>)"
  define a5 where "a5 = wgo 0 (WSleep 1) (a4\<lparr>tb := None\<rparr>)"
  define a6 where "a6 = wx_sleep 0 1 a5"
  define b1 where "b1 = wgo 1 (XLock 7) (a6\<lparr>called := (called a6)(1 \<mapsto> 7)\<rparr>)"
  define b2 where "b2 = wgo 1 XBroadcast (b1\<lparr>tb := Some 1, ecode := (ecode b1)(1 := 7), alive := (alive b1)(1 := False)\<rparr>)"
  define b3 where "b3 = wgo 1 XUnlock (wx_wakeall 1 b2)"
  define b4 where "b4 = wgo 1 XDestroy (b3\<lparr>tb := None\<rparr>)"
  define c1 where "c1 = wgo 0 (WTest 1) (b4\<lparr>tb := Some 0\<rparr>)"
  define c2 where "c2 = wgo 0 (WUnlock 1 (ecode c1 1)) c1"
  define c3 where "c3 = wgo 0 (WGot 1 7) (c2\<lparr>tb := None\<rparr>)"
  have f0: "wat wx_init = (\<lambda>_. Run)" "tb wx_init = None" "alive wx_init = (\<lambda>_. True)" "freed wx_init = (\<lambda>_. False)"
      "cvlock wx_init = (\<lambda>_. None)" "cvq wx_init = (\<lambda>_. [])" by (simp_all add: wx_init_def)
  have f1: "wat a1 = (\<lambda>_. Run)(0 := WLock 1)" "tb a1 = None" "alive a1 = (\<lambda>_. True)" "freed a1 = (\<lambda>_. False)"
      "cvlock a1 = (\<lambda>_. None)" "cvq a1 = (\<lambda>_. [])" by (simp_all add: a1_def f0)
  have f2: "wat a2 = (\<lambda>_. Run)(0 := WTest 1)" "alive a2 = (\<lambda>_. True)" "freed a2 = (\<lambda>_. False)"
      "cvlock a2 = (\<lambda>_. None)" "cvq a2 = (\<lambda>_. [])" by (simp_all add: a2_def f1)
  have f3: "wat a3 = (\<lambda>_. Run)(0 := WBridge 1)" "alive a3 = (\<lambda>_. True)" "cvlock a3 = (\<lambda>_. None)" "cvq a3 = (\<lambda>_. [])"
    by (simp_all add: a3_def f2)
  have f4: "wat a4 = (\<lambda>_. Run)(0 := WRelease 1)" "alive a4 = (\<lambda>_. True)" "cvlock a4 = (\<lambda>_. None)(1 := Some 0)" "cvq a4 = (\<lambda>_. [])"
    by (simp_all add: a4_def f3)
  have f5: "wat a5 = (\<lambda>_. Run)(0 := WSleep 1)" "alive a5 = (\<lambda>_. True)" "cvlock a5 = (\<lambda>_. None)(1 := Some 0)" "cvq a5 = (\<lambda>_. [])"
      "tb a5 = None" by (simp_all add: a5_def f4)
  have f6: "wat a6 = (\<lambda>_. Run)(0 := WAsleep 1)" "alive a6 = (\<lambda>_. True)" "cvlock a6 1 = None" "cvq a6 1 = [0]" "tb a6 = None"
    by (simp_all add: a6_def wx_sleep_def f5 del: One_nat_def)
  have g1: "wat b1 = (\<lambda>_. Run)(0 := WAsleep 1, 1 := XLock 7)" "cvlock b1 1 = None" "cvq b1 1 = [0]" "tb b1 = None"
    by (simp_all add: b1_def f6 del: One_nat_def)
  have g2: "wat b2 = (\<lambda>_. Run)(0 := WAsleep 1, 1 := XBroadcast)" "cvlock b2 1 = None" "cvq b2 1 = [0]" "\<not> alive b2 1" "ecode b2 1 = 7"
    by (simp_all add: b2_def g1 del: One_nat_def)
  have g3: "wat b3 0 = WRelock 1" "wat b3 1 = XUnlock" "\<not> alive b3 1" "ecode b3 1 = 7"
    by (simp_all add: b3_def wx_wakeall_def g2 del: One_nat_def)
  have g4: "wat b4 0 = WRelock 1" "\<not> alive b4 1" "ecode b4 1 = 7" "tb b4 = None" by (simp_all add: b4_def g3 del: One_nat_def)
  have h1: "wat c1 0 = WTest 1" "\<not> alive c1 1" "ecode c1 1 = 7" by (simp_all add: c1_def g4 del: One_nat_def)
  have h2: "wat c2 0 = WUnlock 1 7" by (simp add: c2_def h1 del: One_nat_def)
  have s1: "wx_step 0 wx_init a1" unfolding a1_def by (rule wx_step.wait_call) (simp_all add: f0 del: One_nat_def)
  have s2: "wx_step 0 a1 a2" unfolding a2_def by (rule wx_step.wait_lock) (simp_all add: f1 del: One_nat_def)
  have s3: "wx_step 0 a2 a3" unfolding a3_def by (rule wx_step.wait_alive) (simp_all add: f2 del: One_nat_def)
  have s4: "wx_step 0 a3 a4" unfolding a4_def by (rule wx_step.wait_bridge) (simp_all add: f3 del: One_nat_def)
  have s5: "wx_step 0 a4 a5" unfolding a5_def by (rule wx_step.wait_release) (simp add: f4 del: One_nat_def)
  have s6: "wx_step 0 a5 a6" unfolding a6_def by (rule wx_step.wait_sleep) (simp add: f5 del: One_nat_def)
  have e1: "wx_step 1 a6 b1" unfolding b1_def by (rule wx_step.exit_call) (simp add: f6 del: One_nat_def)
  have e2: "wx_step 1 b1 b2" unfolding b2_def by (rule wx_step.exit_lock) (simp_all add: g1 del: One_nat_def)
  have e3: "wx_step 1 b2 b3" unfolding b3_def by (rule wx_step.exit_broadcast) (simp_all add: g2 del: One_nat_def)
  have e4: "wx_step 1 b3 b4" unfolding b4_def by (rule wx_step.exit_unlock) (simp add: g3 del: One_nat_def)
  have e5: "wx_step 0 b4 c1" unfolding c1_def by (rule wx_step.wait_relock) (simp_all add: g4 del: One_nat_def)
  have e6: "wx_step 0 c1 c2" unfolding c2_def by (rule wx_step.wait_dead) (simp_all add: h1 del: One_nat_def)
  have e7: "wx_step 0 c2 c3" unfolding c3_def by (rule wx_step.wait_unlock) (simp add: h2 del: One_nat_def)
  note go = wx_reach.step
  have r6: "wx_reach a6" by (rule go [OF go [OF go [OF go [OF go [OF go [OF wx_reach.init s1] s2] s3] s4] s5] s6])
  have "wx_reach c3" by (rule go [OF go [OF go [OF go [OF go [OF go [OF go [OF r6 e1] e2] e3] e4] e5] e6] e7])
  moreover have "wat a6 0 = WAsleep 1" "wat a6 1 = Run" "wat c3 0 = WGot 1 7" by (simp_all add: f6 c3_def del: One_nat_def)
  ultimately show ?thesis using that r6 by blast
qed


theorem waitpid_no_lost_exit_witness: "\<exists>m. wx_reach m \<and> wat m 0 = WAsleep 1 \<and> \<not> exited (wat m 1)"
proof -
  obtain m1 m2 where m: "wx_reach m1" "wat m1 0 = WAsleep 1" "wat m1 1 = Run" by (rule demo_wait)
  then show ?thesis using waitpid_no_lost_exit [OF m(1), of 0 1] by auto
qed

end
