(* ===== verification/Kmalloc.thy ===== *)
theory Kmalloc
  imports CoreMap
begin

text \<open>
  \<^verbatim>\<open>kern/vm/kmalloc.c\<close>, the kernel's allocator. Requests below 2048 bytes are served from
  pages that are cut into blocks of one of eight sizes. A page has a \<open>pageref\<close> (its address and
  block type packed into one word, the offset of its first free block and the number of its free
  blocks); the free blocks are chained through their own first words, so the model carries the
  words of kernel memory. Pages come from and go back to \<open>alloc_kpages\<close> and \<open>free_kpages\<close> of
  the theory of physical memory, which also serve the larger requests.

  A pointer to a \<open>pageref\<close> is its index in the table. The spinlock is released only around the
  calls of \<open>alloc_kpages\<close> and \<open>free_kpages\<close>; the functions below are the parts between these
  points and their composition.
\<close>

section \<open>Data\<close>

definition sizes :: "nat list" where
  "sizes = [16, 32, 64, 128, 256, 512, 1024, 2048]"

abbreviation NSIZES :: nat where "NSIZES \<equiv> 8"
abbreviation LARGEST_SUBPAGE_SIZE :: nat where "LARGEST_SUBPAGE_SIZE \<equiv> 2048"
abbreviation NPAGEREFS :: nat where "NPAGEREFS \<equiv> 256"
abbreviation INUSE_WORDS :: nat where "INUSE_WORDS \<equiv> 8"
abbreviation INVALID_OFFSET :: u16 where "INVALID_OFFSET \<equiv> 0xffff"

record pageref =
  next_samesize :: "nat option"
  next_all :: "nat option"
  pageaddr_and_blocktype :: vaddr
  freelist_offset :: u16
  nfree :: u16

record kheap =
  pagerefs :: "pageref list"
  pagerefs_inuse :: "u32 list"
  sizebases :: "nat option list"
  allbase :: "nat option"
  words :: "vaddr \<Rightarrow> u32"
  kvm :: vm_state

definition PR_PAGEADDR :: "pageref \<Rightarrow> vaddr" where
  "PR_PAGEADDR pr = pageaddr_and_blocktype pr AND PAGE_FRAME"

definition PR_BLOCKTYPE :: "pageref \<Rightarrow> u32" where
  "PR_BLOCKTYPE pr = pageaddr_and_blocktype pr AND NOT PAGE_FRAME"

definition MKPAB :: "vaddr \<Rightarrow> u32 \<Rightarrow> u32" where
  "MKPAB pa blk = (pa AND PAGE_FRAME) OR (blk AND NOT PAGE_FRAME)"

text \<open>Words of kernel memory; an access that is not aligned traps.\<close>

definition load_word :: "kheap \<Rightarrow> vaddr \<Rightarrow> u32 option" where
  "load_word h a = (if unat a mod 4 = 0 then Some (words h a) else None)"

definition store_word :: "kheap \<Rightarrow> vaddr \<Rightarrow> u32 \<Rightarrow> kheap option" where
  "store_word h a w = (if unat a mod 4 = 0 then Some (h\<lparr>words := (words h)(a := w)\<rparr>) else None)"

definition set_pageref :: "kheap \<Rightarrow> nat \<Rightarrow> pageref \<Rightarrow> kheap option" where
  "set_pageref h p r = do {
     rs \<leftarrow> upd (pagerefs h) p r;
     Some (h\<lparr>pagerefs := rs\<rparr>)
   }"

section \<open>Operations\<close>

fun fill_words :: "kheap \<Rightarrow> vaddr \<Rightarrow> nat list \<Rightarrow> kheap option" where
  "fill_words h ptr [] = Some h"
| "fill_words h ptr (i # is) = do {
     h' \<leftarrow> store_word h (ptr + of_nat (i * 4)) 0xdeadbeef;
     fill_words h' ptr is
   }"

definition fill_deadbeef :: "kheap \<Rightarrow> vaddr \<Rightarrow> nat \<Rightarrow> kheap option" where
  "fill_deadbeef h vptr len = fill_words h vptr [0..<len div 4]"

text \<open>The inner loop of \<open>allocpageref\<close>; falling out of it fails an assertion.\<close>

partial_function (option) clear_bit_from :: "u32 \<Rightarrow> u32 \<Rightarrow> nat \<Rightarrow> (u32 \<times> nat) option" where
  "clear_bit_from w k j =
     (if k = 0 then None
      else if w AND k = 0 then Some (k, j)
      else clear_bit_from w (push_bit 1 k) (j + 1))"

fun allocpageref_from :: "kheap \<Rightarrow> nat list \<Rightarrow> (nat option \<times> kheap) option" where
  "allocpageref_from h [] = Some (None, h)"
| "allocpageref_from h (i # is) = do {
     w \<leftarrow> idx (pagerefs_inuse h) i;
     if w = 0xffffffff then allocpageref_from h is
     else do {
       (k, j) \<leftarrow> clear_bit_from w 1 0;
       ws \<leftarrow> upd (pagerefs_inuse h) i (w OR k);
       Some (Some (i * 32 + j), h\<lparr>pagerefs_inuse := ws\<rparr>)
     }
   }"

definition allocpageref :: "kheap \<Rightarrow> (nat option \<times> kheap) option" where
  "allocpageref h = allocpageref_from h [0..<INUSE_WORDS]"

definition freepageref :: "kheap \<Rightarrow> nat \<Rightarrow> kheap option" where
  "freepageref h j = do {
     KASSERT (j < NPAGEREFS);
     let i = j div 32;
     let k = push_bit (j mod 32) (1 :: u32);
     w \<leftarrow> idx (pagerefs_inuse h) i;
     KASSERT (w AND k \<noteq> 0);
     ws \<leftarrow> upd (pagerefs_inuse h) i (w AND NOT k);
     Some (h\<lparr>pagerefs_inuse := ws\<rparr>)
   }"

text \<open>\<open>remove_lists\<close> walks a list with a pointer to the link it came over: the base of the list or
  the field of a \<open>pageref\<close>.\<close>

datatype guy = AtBase | AtNext nat

fun samesize_link :: "kheap \<Rightarrow> nat \<Rightarrow> guy \<Rightarrow> nat option option" where
  "samesize_link h blktype AtBase = idx (sizebases h) blktype"
| "samesize_link h blktype (AtNext q) = map_option next_samesize (idx (pagerefs h) q)"

fun set_samesize_link :: "kheap \<Rightarrow> nat \<Rightarrow> guy \<Rightarrow> nat option \<Rightarrow> kheap option" where
  "set_samesize_link h blktype AtBase x = do {
     bs \<leftarrow> upd (sizebases h) blktype x;
     Some (h\<lparr>sizebases := bs\<rparr>)
   }"
| "set_samesize_link h blktype (AtNext q) x = do {
     r \<leftarrow> idx (pagerefs h) q;
     set_pageref h q (r\<lparr>next_samesize := x\<rparr>)
   }"

fun all_link :: "kheap \<Rightarrow> guy \<Rightarrow> nat option option" where
  "all_link h AtBase = Some (allbase h)"
| "all_link h (AtNext q) = map_option next_all (idx (pagerefs h) q)"

fun set_all_link :: "kheap \<Rightarrow> guy \<Rightarrow> nat option \<Rightarrow> kheap option" where
  "set_all_link h AtBase x = Some (h\<lparr>allbase := x\<rparr>)"
| "set_all_link h (AtNext q) x = do {
     r \<leftarrow> idx (pagerefs h) q;
     set_pageref h q (r\<lparr>next_all := x\<rparr>)
   }"

partial_function (option) unlink_samesize :: "kheap \<Rightarrow> nat \<Rightarrow> nat \<Rightarrow> guy \<Rightarrow> kheap option" where
  "unlink_samesize h pr blktype guy = do {
     x \<leftarrow> samesize_link h blktype guy;
     case x of
       None \<Rightarrow> Some h
     | Some q \<Rightarrow>
         if q = pr then do {
           r \<leftarrow> idx (pagerefs h) pr;
           set_samesize_link h blktype guy (next_samesize r)
         } else unlink_samesize h pr blktype (AtNext q)
   }"

partial_function (option) unlink_all :: "kheap \<Rightarrow> nat \<Rightarrow> guy \<Rightarrow> kheap option" where
  "unlink_all h pr guy = do {
     x \<leftarrow> all_link h guy;
     case x of
       None \<Rightarrow> Some h
     | Some q \<Rightarrow>
         if q = pr then do {
           r \<leftarrow> idx (pagerefs h) pr;
           set_all_link h guy (next_all r)
         } else unlink_all h pr (AtNext q)
   }"

definition remove_lists :: "kheap \<Rightarrow> nat \<Rightarrow> nat \<Rightarrow> kheap option" where
  "remove_lists h pr blktype = do {
     KASSERT (blktype < NSIZES);
     h \<leftarrow> unlink_samesize h pr blktype AtBase;
     unlink_all h pr AtBase
   }"

fun blocktype_from :: "nat \<Rightarrow> nat list \<Rightarrow> nat option" where
  "blocktype_from sz [] = None"
| "blocktype_from sz (i # is) = (if sz \<le> sizes ! i then Some i else blocktype_from sz is)"

definition blocktype :: "nat \<Rightarrow> nat option" where
  "blocktype sz = blocktype_from sz [0..<NSIZES]"

text \<open>The search of \<open>subpage_kmalloc\<close> through the pages of one size.\<close>

partial_function (option) find_samesize :: "kheap \<Rightarrow> nat \<Rightarrow> nat option \<Rightarrow> nat option option" where
  "find_samesize h blktype pr =
     (case pr of
        None \<Rightarrow> Some None
      | Some p \<Rightarrow> do {
          r \<leftarrow> idx (pagerefs h) p;
          KASSERT (PR_BLOCKTYPE r = of_nat blktype);
          if nfree r > 0 then Some (Some p) else find_samesize h blktype (next_samesize r)
        })"

text \<open>The part behind the label \<open>doalloc\<close>.\<close>

definition doalloc :: "kheap \<Rightarrow> nat \<Rightarrow> (vaddr \<times> kheap) option" where
  "doalloc h p = do {
     r \<leftarrow> idx (pagerefs h) p;
     KASSERT (unat (freelist_offset r) < PAGE_SIZE);
     let prpage = PR_PAGEADDR r;
     let retptr = prpage + ucast (freelist_offset r);
     fl \<leftarrow> load_word h retptr;
     let n = nfree r - 1;
     if fl \<noteq> 0 then do {
       KASSERT (n > 0);
       KASSERT (unat (fl - prpage) < PAGE_SIZE);
       h \<leftarrow> set_pageref h p (r\<lparr>nfree := n, freelist_offset := ucast (fl - prpage)\<rparr>);
       Some (retptr, h)
     } else do {
       KASSERT (n = 0);
       h \<leftarrow> set_pageref h p (r\<lparr>nfree := n, freelist_offset := INVALID_OFFSET\<rparr>);
       Some (retptr, h)
     }
   }"

text \<open>The loop that chains the blocks of a fresh page; it returns the last block.\<close>

fun chain_blocks :: "kheap \<Rightarrow> vaddr \<Rightarrow> nat \<Rightarrow> vaddr \<Rightarrow> nat list \<Rightarrow> (vaddr \<times> kheap) option" where
  "chain_blocks h fla sz fl [] = Some (fl, h)"
| "chain_blocks h fla sz fl (i # is) = do {
     let fl = fla + of_nat (i * sz);
     let nxt = fla + of_nat ((i - 1) * sz);
     h \<leftarrow> store_word h fl nxt;
     KASSERT (fl \<noteq> nxt);
     chain_blocks h fla sz fl is
   }"

definition init_page :: "kheap \<Rightarrow> nat \<Rightarrow> nat \<Rightarrow> vaddr \<Rightarrow> kheap option" where
  "init_page h p blktype prpage = do {
     r \<leftarrow> idx (pagerefs h) p;
     let n = (of_nat (PAGE_SIZE div sizes ! blktype) :: u16);
     h \<leftarrow> store_word h prpage 0;
     (fl, h) \<leftarrow> chain_blocks h prpage (sizes ! blktype) prpage [1..<unat n];
     let off = (ucast (fl - prpage) :: u16);
     KASSERT (unat off = (unat n - 1) * sizes ! blktype);
     base \<leftarrow> idx (sizebases h) blktype;
     h \<leftarrow> set_pageref h p (r\<lparr>pageaddr_and_blocktype := MKPAB prpage (of_nat blktype), nfree := n,
            freelist_offset := off, next_samesize := base, next_all := allbase h\<rparr>);
     bs \<leftarrow> upd (sizebases h) blktype (Some p);
     Some (h\<lparr>sizebases := bs, allbase := Some p\<rparr>)
   }"

definition subpage_kmalloc :: "kheap \<Rightarrow> nat \<Rightarrow> (vaddr \<times> kheap) option" where
  "subpage_kmalloc h sz = do {
     blktype \<leftarrow> blocktype sz;
     base \<leftarrow> idx (sizebases h) blktype;
     found \<leftarrow> find_samesize h blktype base;
     case found of
       Some p \<Rightarrow> doalloc h p
     | None \<Rightarrow> do {
         (prpage, s) \<leftarrow> alloc_kpages (kvm h) 1;
         let h = h\<lparr>kvm := s\<rparr>;
         if prpage = 0 then Some (0, h)
         else do {
           (pr, h) \<leftarrow> allocpageref h;
           case pr of
             None \<Rightarrow> do {
               s \<leftarrow> free_kpages (kvm h) prpage;
               Some (0, h\<lparr>kvm := s\<rparr>)
             }
           | Some p \<Rightarrow> do {
               h \<leftarrow> init_page h p blktype prpage;
               doalloc h p
             }
         }
       }
   }"

text \<open>The search of \<open>subpage_kfree\<close> for the page of an address.\<close>

partial_function (option) find_page :: "kheap \<Rightarrow> vaddr \<Rightarrow> nat option \<Rightarrow> nat option option" where
  "find_page h ptraddr pr =
     (case pr of
        None \<Rightarrow> Some None
      | Some p \<Rightarrow> do {
          r \<leftarrow> idx (pagerefs h) p;
          let prpage = PR_PAGEADDR r;
          KASSERT (unat (PR_BLOCKTYPE r) < NSIZES);
          if ptraddr \<ge> prpage \<and> ptraddr < prpage + 4096 then Some (Some p)
          else find_page h ptraddr (next_all r)
        })"

definition subpage_kfree :: "kheap \<Rightarrow> vaddr \<Rightarrow> (int \<times> kheap) option" where
  "subpage_kfree h ptr = do {
     found \<leftarrow> find_page h ptr (allbase h);
     case found of
       None \<Rightarrow> Some (- 1, h)
     | Some p \<Rightarrow> do {
         r \<leftarrow> idx (pagerefs h) p;
         let prpage = PR_PAGEADDR r;
         let blktype = unat (PR_BLOCKTYPE r);
         let offset = ptr - prpage;
         if unat offset \<ge> PAGE_SIZE \<or> unat offset mod sizes ! blktype \<noteq> 0 then None
         else do {
           h \<leftarrow> fill_deadbeef h ptr (sizes ! blktype);
           h \<leftarrow> store_word h (prpage + offset)
                  (if freelist_offset r = INVALID_OFFSET then 0 else prpage + ucast (freelist_offset r));
           let n = nfree r + 1;
           h \<leftarrow> set_pageref h p (r\<lparr>freelist_offset := ucast offset, nfree := n\<rparr>);
           KASSERT (unat n \<le> PAGE_SIZE div sizes ! blktype);
           if unat n = PAGE_SIZE div sizes ! blktype then do {
             h \<leftarrow> remove_lists h p blktype;
             h \<leftarrow> freepageref h p;
             s \<leftarrow> free_kpages (kvm h) prpage;
             Some (0, h\<lparr>kvm := s\<rparr>)
           } else Some (0, h)
         }
       }
   }"

definition kmalloc :: "kheap \<Rightarrow> u32 \<Rightarrow> (vaddr \<times> kheap) option" where
  "kmalloc h sz =
     (if unat sz \<ge> LARGEST_SUBPAGE_SIZE then do {
        let npages = (sz + 4096 - 1) div 4096;
        (address, s) \<leftarrow> alloc_kpages (kvm h) (uint npages);
        if address = 0 then Some (0, h\<lparr>kvm := s\<rparr>) else Some (address, h\<lparr>kvm := s\<rparr>)
      } else subpage_kmalloc h (unat sz))"

definition kfree :: "kheap \<Rightarrow> vaddr \<Rightarrow> kheap option" where
  "kfree h ptr =
     (if ptr = 0 then Some h
      else do {
        (result, h) \<leftarrow> subpage_kfree h ptr;
        if result \<noteq> 0 then do {
          KASSERT (unat ptr mod PAGE_SIZE = 0);
          s \<leftarrow> free_kpages (kvm h) ptr;
          Some (h\<lparr>kvm := s\<rparr>)
        } else Some h
      })"

section \<open>The table of pagerefs\<close>

definition ref_bit :: "kheap \<Rightarrow> nat \<Rightarrow> bool" where
  "ref_bit h p \<longleftrightarrow> bit (pagerefs_inuse h ! (p div 32)) (p mod 32)"

definition refs_used :: "kheap \<Rightarrow> nat set" where
  "refs_used h = {p. p < NPAGEREFS \<and> ref_bit h p}"

lemma clear_bit_from_spec:
  assumes "j \<le> m" "m < 32" "\<not> bit w m" "\<And>n. j \<le> n \<Longrightarrow> n < m \<Longrightarrow> bit w n"
  shows "clear_bit_from w (2 ^ j) j = Some (2 ^ m, m)"
  using assms
proof (induction "m - j" arbitrary: j)
  case 0
  then have "j = m" by simp
  moreover have "(2 :: u32) ^ m \<noteq> 0" using 0 by (simp add: exp_eq_zero_iff)
  ultimately show ?case using 0 by (subst clear_bit_from.simps) simp
next
  case (Suc d)
  have "(2 :: u32) ^ j \<noteq> 0" using Suc by (simp add: exp_eq_zero_iff)
  moreover have "bit w j" using Suc by simp
  moreover have "push_bit 1 ((2 :: u32) ^ j) = 2 ^ Suc j" by (simp only: push_bit_eq_mult) simp
  moreover have "clear_bit_from w (2 ^ Suc j) (Suc j) = Some (2 ^ m, m)"
    using Suc.prems Suc.hyps(2) by (intro Suc.hyps(1)) auto
  ultimately show ?case by (subst clear_bit_from.simps) (simp del: power_Suc push_bit_numeral push_bit_of_1 push_bit_Suc)
qed

lemma all32_iff: "w = (0xffffffff :: u32) \<longleftrightarrow> (\<forall>n < 32. bit w n)"
proof -
  have "(0xffffffff :: u32) = - 1" by simp
  then show ?thesis using word_all_bits_iff [of w] by (simp only:) simp
qed

lemma clear_bit_from_least:
  assumes "w \<noteq> 0xffffffff"
  shows "\<exists>m < 32. clear_bit_from w 1 0 = Some (2 ^ m, m) \<and> \<not> bit w m \<and> (\<forall>n < m. bit w n)"
proof -
  have "\<exists>n < 32. \<not> bit w n" using assms all32_iff [of w] by blast
  then obtain m where "m < 32" "\<not> bit w m" "\<forall>n < m. bit w n"
    using exists_least_iff [of "\<lambda>n. n < 32 \<and> \<not> bit w n"] by (metis less_trans)
  then show ?thesis using clear_bit_from_spec [of 0 m w] by auto
qed

lemma ref_bit_update:
  assumes "k div 32 < length (pagerefs_inuse h)"
  shows "ref_bit (h\<lparr>pagerefs_inuse := (pagerefs_inuse h)[k div 32 := pagerefs_inuse h ! (k div 32) OR 2 ^ (k mod 32)]\<rparr>) i
           \<longleftrightarrow> i = k \<or> ref_bit h i"
    and "ref_bit (h\<lparr>pagerefs_inuse := (pagerefs_inuse h)[k div 32 := pagerefs_inuse h ! (k div 32) AND NOT (2 ^ (k mod 32))]\<rparr>) i
           \<longleftrightarrow> i \<noteq> k \<and> ref_bit h i"
proof -
  have same: "i = k \<longleftrightarrow> i div 32 = k div 32 \<and> i mod 32 = k mod 32" by (metis div_mult_mod_eq)
  have "k mod 32 < 32" by simp
  then show "ref_bit (h\<lparr>pagerefs_inuse := (pagerefs_inuse h)[k div 32 := pagerefs_inuse h ! (k div 32) OR 2 ^ (k mod 32)]\<rparr>) i
           \<longleftrightarrow> i = k \<or> ref_bit h i"
    using assms unfolding ref_bit_def same or_exp by (auto simp: nth_list_update bit_set_bit_iff)
  show "ref_bit (h\<lparr>pagerefs_inuse := (pagerefs_inuse h)[k div 32 := pagerefs_inuse h ! (k div 32) AND NOT (2 ^ (k mod 32))]\<rparr>) i
           \<longleftrightarrow> i \<noteq> k \<and> ref_bit h i"
    using assms unfolding ref_bit_def same and_not_exp by (auto simp: nth_list_update bit_unset_bit_iff)
qed

lemma allocpageref_from_spec:
  assumes "length (pagerefs_inuse h) = INUSE_WORDS" "a \<le> 8" "\<And>p. p < a * 32 \<Longrightarrow> ref_bit h p"
  shows "(allocpageref_from h [a..<8] = Some (None, h) \<and> refs_used h = {..<NPAGEREFS}) \<or>
    (\<exists>p < NPAGEREFS. \<not> ref_bit h p \<and> (\<forall>q < p. ref_bit h q) \<and>
       allocpageref_from h [a..<8] = Some (Some p,
         h\<lparr>pagerefs_inuse := (pagerefs_inuse h)[p div 32 := pagerefs_inuse h ! (p div 32) OR 2 ^ (p mod 32)]\<rparr>))"
  using assms(2,3)
proof (induction "8 - a" arbitrary: a)
  case 0
  then have "a = 8" by simp
  then show ?case using 0 by (auto simp: refs_used_def)
next
  case (Suc d)
  then have a: "a < 8" by simp
  let ?w = "pagerefs_inuse h ! a"
  have step: "allocpageref_from h [a..<8] = (if ?w = 0xffffffff then allocpageref_from h [Suc a..<8]
      else do { (k, j) \<leftarrow> clear_bit_from ?w 1 0;
                Some (Some (a * 32 + j), h\<lparr>pagerefs_inuse := (pagerefs_inuse h)[a := ?w OR k]\<rparr>) })"
    using a assms(1) by (simp add: upt_rec [of a] case_prod_beta')
  show ?case
  proof (cases "?w = 0xffffffff")
    case True
    then have bits: "bit ?w n" if "n < 32" for n using that all32_iff [of ?w] by blast
    have "ref_bit h p" if p: "p < Suc a * 32" for p
    proof (cases "p < a * 32")
      case False
      then have "p div 32 = a" using p by (simp add: div_nat_eqI)
      then show ?thesis using bits by (simp add: ref_bit_def)
    qed (rule Suc.prems(2))
    then show ?thesis using Suc.hyps(1) [of "Suc a"] Suc.hyps(2) a step True by simp
  next
    case False
    then obtain m where m: "m < 32" "clear_bit_from ?w 1 0 = Some (2 ^ m, m)" "\<not> bit ?w m" "\<forall>n < m. bit ?w n"
      using clear_bit_from_least by blast
    let ?p = "a * 32 + m"
    have p: "?p div 32 = a" "?p mod 32 = m" "?p < 256" using m(1) a by simp_all
    have "ref_bit h q" if "q < ?p" for q
    proof (cases "q < a * 32")
      case False
      then have "q div 32 = a" using that m(1) by (simp add: div_nat_eqI)
      moreover from this have "q mod 32 < m" using that False by (metis div_mult_mod_eq nat_add_left_cancel_less)
      ultimately show ?thesis using m(4) by (simp add: ref_bit_def)
    qed (rule Suc.prems(2))
    moreover have "\<not> ref_bit h ?p" unfolding ref_bit_def p by (rule m(3))
    moreover have "allocpageref_from h [a..<8] = Some (Some ?p,
         h\<lparr>pagerefs_inuse := (pagerefs_inuse h)[?p div 32 := pagerefs_inuse h ! (?p div 32) OR 2 ^ (?p mod 32)]\<rparr>)"
      unfolding p using step False m(2) by simp
    ultimately show ?thesis using p(3) by blast
  qed
qed

text \<open>The effect of allocating or freeing a \<open>pageref\<close> on the heap: only the bit changes.\<close>

lemma allocpageref_spec:
  assumes "length (pagerefs_inuse h) = INUSE_WORDS"
  shows "refs_used h \<noteq> {..<NPAGEREFS} \<Longrightarrow>
      \<exists>p ws. allocpageref h = Some (Some p, h\<lparr>pagerefs_inuse := ws\<rparr>) \<and> p = (LEAST p. p \<notin> refs_used h) \<and> p < NPAGEREFS \<and>
        length ws = INUSE_WORDS \<and> refs_used (h\<lparr>pagerefs_inuse := ws\<rparr>) = insert p (refs_used h)"
    and "refs_used h = {..<NPAGEREFS} \<Longrightarrow> allocpageref h = Some (None, h)"
proof -
  note spec = allocpageref_from_spec [OF assms, of 0, simplified, folded allocpageref_def]
  show "allocpageref h = Some (None, h)" if "refs_used h = {..<NPAGEREFS}"
    using spec that by (auto simp: refs_used_def)
  assume ne: "refs_used h \<noteq> {..<NPAGEREFS}"
  then obtain p where p: "p < 256" "\<not> ref_bit h p" "\<forall>q < p. ref_bit h q"
      and e: "allocpageref h = Some (Some p,
         h\<lparr>pagerefs_inuse := (pagerefs_inuse h)[p div 32 := pagerefs_inuse h ! (p div 32) OR 2 ^ (p mod 32)]\<rparr>)"
    using spec by blast
  have "p div 32 < length (pagerefs_inuse h)" using assms p(1) by (simp add: less_mult_imp_div_less)
  note upd = ref_bit_update(1) [OF this]
  have "p = (LEAST p. p \<notin> refs_used h)"
  proof (rule Least_equality [symmetric])
    show "p \<notin> refs_used h" using p by (simp add: refs_used_def)
    show "p \<le> q" if "q \<notin> refs_used h" for q
      using that p by (metis (mono_tags, lifting) CollectI less_trans not_le refs_used_def)
  qed
  moreover have "refs_used (h\<lparr>pagerefs_inuse := (pagerefs_inuse h)[p div 32 := pagerefs_inuse h ! (p div 32) OR 2 ^ (p mod 32)]\<rparr>)
      = insert p (refs_used h)"
    unfolding refs_used_def upd using p(1) by blast
  ultimately show "\<exists>p ws. allocpageref h = Some (Some p, h\<lparr>pagerefs_inuse := ws\<rparr>) \<and> p = (LEAST p. p \<notin> refs_used h) \<and> p < NPAGEREFS \<and>
        length ws = INUSE_WORDS \<and> refs_used (h\<lparr>pagerefs_inuse := ws\<rparr>) = insert p (refs_used h)"
    using e p(1) assms by (intro exI conjI) simp_all
qed

lemma freepageref_spec:
  assumes "length (pagerefs_inuse h) = INUSE_WORDS" "p \<in> refs_used h"
  shows "\<exists>ws. freepageref h p = Some (h\<lparr>pagerefs_inuse := ws\<rparr>) \<and> length ws = INUSE_WORDS \<and>
     refs_used (h\<lparr>pagerefs_inuse := ws\<rparr>) = refs_used h - {p}"
proof -
  have p: "p < 256" "ref_bit h p" using assms(2) by (auto simp: refs_used_def)
  have k: "p div 32 < length (pagerefs_inuse h)" using assms p(1) by (simp add: less_mult_imp_div_less)
  note upd = ref_bit_update(2) [OF k]
  have "freepageref h p =
      Some (h\<lparr>pagerefs_inuse := (pagerefs_inuse h)[p div 32 := pagerefs_inuse h ! (p div 32) AND NOT (2 ^ (p mod 32))]\<rparr>)"
    using p k by (simp add: freepageref_def Let_def ref_bit_def push_bit_eq_mult)
  moreover have "refs_used (h\<lparr>pagerefs_inuse := (pagerefs_inuse h)[p div 32 := pagerefs_inuse h ! (p div 32) AND NOT (2 ^ (p mod 32))]\<rparr>)
      = refs_used h - {p}"
    unfolding refs_used_def upd by blast
  ultimately show ?thesis using assms(1) by (intro exI conjI) simp_all
qed

text \<open>The table is a free map of 256 indices.\<close>

definition refs_wf :: "kheap \<Rightarrow> bool" where
  "refs_wf h \<longleftrightarrow> length (pagerefs_inuse h) = INUSE_WORDS"

definition get_pageref :: "kheap \<Rightarrow> ((errno + nat) \<times> kheap) option" where
  "get_pageref h = map_option (\<lambda>(p, h'). (case p of None \<Rightarrow> Inl ENOMEM | Some i \<Rightarrow> Inr i, h')) (allocpageref h)"

interpretation prs: free_map refs_wf refs_used "\<lambda>_. NPAGEREFS" get_pageref ENOMEM freepageref
proof (unfold_locales, goal_cases)
  case (1 s)
  then show ?case by (auto simp: refs_used_def)
next
  case (2 s)
  then show ?case using allocpageref_spec(1) [of s] by (auto simp: refs_wf_def get_pageref_def)
next
  case (3 s)
  then show ?case using allocpageref_spec(2) [of s] by (simp add: refs_wf_def get_pageref_def)
next
  case (4 s i)
  then show ?case using freepageref_spec [of s i] by (auto simp: refs_wf_def)
qed

section \<open>Pages and their free blocks\<close>

lemma less_8_cases:
  "k < 8 \<Longrightarrow> k = 0 \<or> k = 1 \<or> k = 2 \<or> k = 3 \<or> k = 4 \<or> k = 5 \<or> k = 6 \<or> k = (7 :: nat)"
  by linarith

lemma sizes_facts:
  assumes "k < NSIZES"
  shows "sizes ! k mod 16 = 0" "16 \<le> sizes ! k" "sizes ! k \<le> 2048" "PAGE_SIZE div sizes ! k * sizes ! k = PAGE_SIZE"
    "2 \<le> PAGE_SIZE div sizes ! k" "PAGE_SIZE div sizes ! k \<le> 256" "k < length sizes"
  using less_8_cases [OF assms] by (elim disjE; simp add: sizes_def)+

lemma page_offset:
  fixes b :: u32
  assumes "unat b mod PAGE_SIZE = 0" "off < PAGE_SIZE"
  shows "unat (b + of_nat off) = unat b + off"
proof -
  have "unat b < 4294967296" using unsigned_less [of b, where ?'a = nat] by simp
  then have "unat b div 4096 < 1048576" by (intro less_mult_imp_div_less) simp
  moreover have "unat b = unat b div 4096 * 4096" using assms(1) by (metis add_cancel_right_right div_mult_mod_eq)
  ultimately have "unat b + off < 4294967296" using assms(2) by linarith
  then show ?thesis using assms(2) by (simp add: unat_word_ariths unsigned_of_nat take_bit_nat_eq_self)
qed

lemma PR_PAGEADDR_aligned: "unat (PR_PAGEADDR r) mod PAGE_SIZE = 0"
  unfolding PR_PAGEADDR_def by (simp add: unat_PAGE_FRAME)

lemma PR_MKPAB:
  assumes "unat pa mod PAGE_SIZE = 0" "k < PAGE_SIZE" "pageaddr_and_blocktype r = MKPAB pa (of_nat k)"
  shows "PR_PAGEADDR r = pa" "unat (PR_BLOCKTYPE r) = k"
proof -
  have pf: "NOT PAGE_FRAME = (mask 12 :: u32)" by (simp add: PAGE_FRAME_mask)
  have "PR_PAGEADDR r = pa AND PAGE_FRAME"
    unfolding PR_PAGEADDR_def assms(3) MKPAB_def by (rule bit_word_eqI) (auto simp: bit_simps)
  then show "PR_PAGEADDR r = pa" using assms(1) PAGE_FRAME_aligned by simp
  have "PR_BLOCKTYPE r = of_nat k AND NOT PAGE_FRAME"
    unfolding PR_BLOCKTYPE_def assms(3) MKPAB_def by (rule bit_word_eqI) (auto simp: bit_simps)
  also have "\<dots> = take_bit 12 (of_nat k)" unfolding pf by (simp add: take_bit_eq_mask)
  finally show "unat (PR_BLOCKTYPE r) = k"
    using assms(2) by (simp add: unsigned_take_bit_eq unsigned_of_nat take_bit_nat_eq_self)
qed

text \<open>Block \<open>j\<close> of a page.\<close>

definition block :: "vaddr \<Rightarrow> nat \<Rightarrow> nat \<Rightarrow> vaddr" where
  "block b sz j = b + of_nat (j * sz)"

abbreviation bsize :: "pageref \<Rightarrow> nat" where
  "bsize r \<equiv> sizes ! unat (PR_BLOCKTYPE r)"

abbreviation nblocks :: "pageref \<Rightarrow> nat" where
  "nblocks r \<equiv> PAGE_SIZE div bsize r"

fun free_chain :: "(vaddr \<Rightarrow> u32) \<Rightarrow> vaddr \<Rightarrow> nat \<Rightarrow> nat list \<Rightarrow> bool" where
  "free_chain m b sz [] \<longleftrightarrow> True"
| "free_chain m b sz [j] \<longleftrightarrow> m (block b sz j) = 0"
| "free_chain m b sz (j # k # js) \<longleftrightarrow> m (block b sz j) = block b sz k \<and> free_chain m b sz (k # js)"

definition page_rep :: "(vaddr \<Rightarrow> u32) \<Rightarrow> pageref \<Rightarrow> nat list \<Rightarrow> bool" where
  "page_rep m r js \<longleftrightarrow>
     unat (PR_BLOCKTYPE r) < NSIZES \<and> PR_PAGEADDR r \<noteq> 0 \<and>
     distinct js \<and> set js \<subseteq> {..<nblocks r} \<and> unat (nfree r) = length js \<and>
     freelist_offset r = (if js = [] then INVALID_OFFSET else of_nat (hd js * bsize r)) \<and>
     free_chain m (PR_PAGEADDR r) (bsize r) js"

lemma free_chain_cong:
  "(\<And>j. j \<in> set js \<Longrightarrow> m' (block b sz j) = m (block b sz j)) \<Longrightarrow> free_chain m' b sz js = free_chain m b sz js"
  by (induction m b sz js rule: free_chain.induct) auto

lemma block_less: "k < NSIZES \<Longrightarrow> j < PAGE_SIZE div sizes ! k \<Longrightarrow> j * sizes ! k + sizes ! k \<le> PAGE_SIZE"
proof -
  assume k: "k < NSIZES" and j: "j < PAGE_SIZE div sizes ! k"
  then have "Suc j * sizes ! k \<le> PAGE_SIZE div sizes ! k * sizes ! k" by (intro mult_le_mono1) simp
  then show ?thesis using sizes_facts(4) [OF k] by simp
qed

lemma unat_block:
  assumes "unat b mod PAGE_SIZE = 0" "k < NSIZES" "j < PAGE_SIZE div sizes ! k"
  shows "unat (block b (sizes ! k) j) = unat b + j * sizes ! k"
  using page_offset [OF assms(1), of "j * sizes ! k"] block_less [OF assms(2,3)] sizes_facts(2) [OF assms(2)]
  by (simp add: block_def)

lemma block_aligned:
  assumes "unat b mod PAGE_SIZE = 0" "k < NSIZES" "j < PAGE_SIZE div sizes ! k"
  shows "unat (block b (sizes ! k) j) mod 16 = 0" "unat (block b (sizes ! k) j) mod 4 = 0"
proof -
  have "unat b mod 16 = 0" using assms(1) dvd_trans [of 16 4096 "unat b"] by (simp add: mod_eq_0_iff_dvd)
  then show a: "unat (block b (sizes ! k) j) mod 16 = 0"
    unfolding unat_block [OF assms] using sizes_facts(1) [OF assms(2)] by (simp add: mod_eq_0_iff_dvd)
  show "unat (block b (sizes ! k) j) mod 4 = 0"
    using a dvd_trans [of 4 16 "unat (block b (sizes ! k) j)"] by (simp add: mod_eq_0_iff_dvd)
qed
lemma page_repD:
  assumes "page_rep m r js"
  shows "unat (PR_BLOCKTYPE r) < NSIZES" "PR_PAGEADDR r \<noteq> 0" "distinct js" "\<And>j. j \<in> set js \<Longrightarrow> j < nblocks r"
    "unat (nfree r) = length js" "free_chain m (PR_PAGEADDR r) (bsize r) js"
    "js = [] \<Longrightarrow> freelist_offset r = INVALID_OFFSET"
    "js \<noteq> [] \<Longrightarrow> freelist_offset r = of_nat (hd js * bsize r)"
  using assms by (auto simp: page_rep_def)

lemma block_nonzero:
  assumes "unat b mod PAGE_SIZE = 0" "b \<noteq> 0" "k < NSIZES" "j < PAGE_SIZE div sizes ! k"
  shows "block b (sizes ! k) j \<noteq> 0"
proof
  assume "block b (sizes ! k) j = 0"
  then have "unat b + j * sizes ! k = 0" using unat_block [OF assms(1,3,4)] by simp
  then show False using assms(2) by (simp add: unat_eq_zero)
qed

lemma block_offset:
  assumes "unat b mod PAGE_SIZE = 0" "k < NSIZES" "j < PAGE_SIZE div sizes ! k"
  shows "unat (block b (sizes ! k) j - b) = j * sizes ! k" "unat (block b (sizes ! k) j - b) < PAGE_SIZE"
    "ucast (block b (sizes ! k) j - b) = (of_nat (j * sizes ! k) :: u16)"
    "unat (of_nat (j * sizes ! k) :: u16) = j * sizes ! k"
    "b + ucast (of_nat (j * sizes ! k) :: u16) = block b (sizes ! k) j"
proof -
  have l: "j * sizes ! k < 4096" using block_less [OF assms(2,3)] sizes_facts(2) [OF assms(2)] by simp
  have e: "block b (sizes ! k) j - b = of_nat (j * sizes ! k)" by (simp add: block_def)
  show u: "unat (block b (sizes ! k) j - b) = j * sizes ! k"
    unfolding e using l by (simp only: unsigned_of_nat) (simp add: take_bit_nat_eq_self)
  show "unat (block b (sizes ! k) j - b) < PAGE_SIZE" unfolding u by (rule l)
  have small: "unat (of_nat n :: u16) = n" "ucast (of_nat n :: u16) = (of_nat n :: u32)" "ucast (of_nat n :: u32) = (of_nat n :: u16)"
    if "n < 4096" for n :: nat
    using that by (simp_all add: unsigned_of_nat take_bit_nat_eq_self)
  show "unat (of_nat (j * sizes ! k) :: u16) = j * sizes ! k" by (rule small(1) [OF l])
  show "b + ucast (of_nat (j * sizes ! k) :: u16) = block b (sizes ! k) j"
    unfolding small(2) [OF l] by (simp only: block_def)
  show "ucast (block b (sizes ! k) j - b) = (of_nat (j * sizes ! k) :: u16)" unfolding e by (rule small(3) [OF l])
qed

text \<open>What stays the same in a \<open>pageref\<close> when its free list changes.\<close>

definition same_page :: "pageref \<Rightarrow> pageref \<Rightarrow> bool" where
  "same_page r r' \<longleftrightarrow> next_samesize r' = next_samesize r \<and> next_all r' = next_all r \<and>
     pageaddr_and_blocktype r' = pageaddr_and_blocktype r"

lemma same_pageD:
  assumes "same_page r r'"
  shows "next_samesize r' = next_samesize r" "next_all r' = next_all r" "PR_PAGEADDR r' = PR_PAGEADDR r"
    "PR_BLOCKTYPE r' = PR_BLOCKTYPE r"
  using assms by (simp_all add: same_page_def PR_PAGEADDR_def PR_BLOCKTYPE_def)

lemma doalloc_spec:
  assumes p: "p < length (pagerefs h)" and rep: "page_rep (words h) (pagerefs h ! p) (j # js)"
  shows "\<exists>r'. doalloc h p = Some (block (PR_PAGEADDR (pagerefs h ! p)) (bsize (pagerefs h ! p)) j,
             h\<lparr>pagerefs := (pagerefs h)[p := r']\<rparr>) \<and>
           same_page (pagerefs h ! p) r' \<and> page_rep (words h) r' js"
proof -
  define r where "r = pagerefs h ! p"
  define b where "b = PR_PAGEADDR r"
  define k where "k = unat (PR_BLOCKTYPE r)"
  note D = page_repD [OF rep, folded r_def, folded k_def b_def]
  have b: "unat b mod 4096 = 0" unfolding b_def by (rule PR_PAGEADDR_aligned)
  have jlt: "j < 4096 div sizes ! k" using D(4) by simp
  note B = block_offset [OF b D(1) jlt]
  note L = block_less [OF D(1) jlt]
  have off: "freelist_offset r = of_nat (j * sizes ! k)" using D(8) by simp
  have offlt: "unat (freelist_offset r) < 4096"
    using L sizes_facts(2) [OF D(1)] unfolding off B(4) by simp
  have ld: "load_word h (b + ucast (freelist_offset r)) = Some (words h (block b (sizes ! k) j))"
    unfolding off B(5) load_word_def using block_aligned(2) [OF b D(1) jlt] by simp
  have "1 \<le> unat (nfree r)" unfolding D(5) by simp
  then have "1 \<le> nfree r" by (simp add: word_le_nat_alt)
  then have n: "unat (nfree r - 1) = length js" by (simp add: unat_sub D(5) word_le_nat_alt)
  define r' where "r' = r\<lparr>nfree := nfree r - 1,
      freelist_offset := (if js = [] then INVALID_OFFSET else of_nat (hd js * sizes ! k))\<rparr>"
  have da: "doalloc h p = Some (block b (sizes ! k) j, h\<lparr>pagerefs := (pagerefs h)[p := r']\<rparr>)"
  proof (cases js)
    case Nil
    then have "words h (block b (sizes ! k) j) = 0" using D(6) by simp
    then show ?thesis
      using p ld offlt n Nil unfolding doalloc_def set_pageref_def r'_def
      by (simp add: Let_def b_def [symmetric] r_def [symmetric] off B(5) unat_eq_zero del: of_nat_mult)
  next
    case (Cons i ks)
    then have w: "words h (block b (sizes ! k) j) = block b (sizes ! k) i" using D(6) by simp
    have ilt: "i < 4096 div sizes ! k" using D(4) Cons by simp
    note I = block_offset [OF b D(1) ilt] block_nonzero [OF b D(2) D(1) ilt]
    have "0 < nfree r - 1" using n Cons by (simp add: word_less_nat_alt)
    then show ?thesis
      using p ld offlt I Cons w unfolding doalloc_def set_pageref_def r'_def
      by (simp add: Let_def b_def [symmetric] r_def [symmetric] off B(5) del: of_nat_mult)
  qed
  have same: "same_page r r'" by (simp add: same_page_def r'_def)
  have fc: "free_chain (words h) b (sizes ! k) js" using D(6) by (cases js) simp_all
  have "page_rep (words h) r' js"
    unfolding page_rep_def same_pageD [OF same] b_def [symmetric] k_def [symmetric]
    using D(1-4) n fc by (auto simp: r'_def)
  then show ?thesis using da same unfolding b_def k_def r_def by blast
qed

text \<open>Setting up a fresh page: all its blocks are free, the last one first.\<close>

lemma chain_blocks_spec:
  assumes b: "unat b mod PAGE_SIZE = 0" and k: "k < NSIZES" and n: "n = PAGE_SIZE div sizes ! k"
    and a: "0 < a" "a \<le> n"
    and fc: "free_chain (words h) b (sizes ! k) (rev [0..<a])" and fl: "fl = block b (sizes ! k) (a - 1)"
  shows "\<exists>m. chain_blocks h b (sizes ! k) fl [a..<n] = Some (block b (sizes ! k) (n - 1), h\<lparr>words := m\<rparr>) \<and>
     free_chain m b (sizes ! k) (rev [0..<n]) \<and>
     (\<forall>x. (\<forall>j < n. x \<noteq> block b (sizes ! k) j) \<longrightarrow> m x = words h x)"
  using a fc fl
proof (induction "n - a" arbitrary: a h fl)
  case 0
  then have "a = n" by simp
  then show ?case using 0 by (intro exI [of _ "words h"]) simp
next
  case (Suc d)
  have an: "a < n" using Suc.hyps(2) by simp
  let ?B = "block b (sizes ! k)"
  have inj: "?B i = ?B j \<longleftrightarrow> i = j" if "i < n" "j < n" for i j
  proof
    assume "?B i = ?B j"
    then have "unat (?B i) = unat (?B j)" by simp
    then have "i * sizes ! k = j * sizes ! k" using unat_block [OF b k] that n by simp
    then show "i = j" using sizes_facts(2) [OF k] by simp
  qed simp
  define h' where "h' = h\<lparr>words := (words h)(?B a := ?B (a - 1))\<rparr>"
  have st: "store_word h (?B a) (?B (a - 1)) = Some h'"
    using block_aligned(2) [OF b k, of a] an n by (simp add: store_word_def h'_def)
  have ne: "?B a \<noteq> ?B (a - 1)" using inj [of a "a - 1"] an Suc.prems(1) by simp
  have step: "chain_blocks h b (sizes ! k) fl [a..<n] = chain_blocks h' b (sizes ! k) (?B a) [Suc a..<n]"
    using an st ne by (simp add: upt_rec [of a] block_def Let_def)
  have "free_chain (words h') b (sizes ! k) (rev [0..<a]) = free_chain (words h) b (sizes ! k) (rev [0..<a])"
    by (rule free_chain_cong) (use inj an in \<open>auto simp: h'_def\<close>)
  moreover have "rev [0..<a] = (a - 1) # rev [0..<a - 1]" using Suc.prems(1) by (cases a) simp_all
  ultimately have fc: "free_chain (words h') b (sizes ! k) (rev [0..<Suc a])"
    using Suc.prems(3) by (simp add: h'_def)
  have "d = n - Suc a" using Suc.hyps(2) by simp
  then obtain m where m: "chain_blocks h' b (sizes ! k) (?B a) [Suc a..<n] = Some (?B (n - 1), h'\<lparr>words := m\<rparr>)"
      "free_chain m b (sizes ! k) (rev [0..<n])" "\<forall>x. (\<forall>j < n. x \<noteq> ?B j) \<longrightarrow> m x = words h' x"
    using Suc.hyps(1) [of "Suc a" h' "?B a", OF _ _ _ fc] an by auto
  have "h'\<lparr>words := m\<rparr> = h\<lparr>words := m\<rparr>" by (simp add: h'_def)
  moreover have "\<forall>x. (\<forall>j < n. x \<noteq> ?B j) \<longrightarrow> m x = words h x" using m(3) an by (simp add: h'_def)
  ultimately show ?case using m(1,2) step by (intro exI [of _ m]) simp
qed
section \<open>The lists of pages\<close>

fun links :: "(nat \<Rightarrow> nat option) \<Rightarrow> nat option \<Rightarrow> nat list \<Rightarrow> bool" where
  "links nx b [] \<longleftrightarrow> b = None"
| "links nx b (p # ps) \<longleftrightarrow> b = Some p \<and> links nx (nx p) ps"

lemma links_cong: "(\<And>p. p \<in> set ps \<Longrightarrow> nx' p = nx p) \<Longrightarrow> links nx' b ps = links nx b ps"
  by (induction ps arbitrary: b) auto

lemma links_remove:
  assumes "links nx b (xs @ p # ys)" "distinct (xs @ p # ys)"
  shows "xs = [] \<Longrightarrow> links nx (nx p) ys"
    and "xs \<noteq> [] \<Longrightarrow> links (nx(last xs := nx p)) b (xs @ ys)"
proof -
  show "links nx (nx p) ys" if "xs = []" using assms(1) that by simp
  show "links (nx(last xs := nx p)) b (xs @ ys)" if "xs \<noteq> []"
    using assms that
  proof (induction xs arbitrary: b)
    case (Cons x xs)
    show ?case
    proof (cases "xs = []")
      case True
      have "links (nx(x := nx p)) (nx p) ys = links nx (nx p) ys"
        by (rule links_cong) (use Cons.prems(2) in auto)
      then show ?thesis using Cons.prems True by (simp add: fun_upd_def)
    next
      case False
      then have "x \<noteq> last xs" using Cons.prems(2) last_in_set by fastforce
      then show ?thesis using Cons.IH [of "nx x"] Cons.prems False by simp
    qed
  qed simp
qed

abbreviation btype :: "kheap \<Rightarrow> nat \<Rightarrow> nat" where
  "btype h p \<equiv> unat (PR_BLOCKTYPE (pagerefs h ! p))"

definition linked :: "kheap \<Rightarrow> nat list \<Rightarrow> bool" where
  "linked h A \<longleftrightarrow>
     length (pagerefs h) = NPAGEREFS \<and> length (sizebases h) = NSIZES \<and> distinct A \<and> set A \<subseteq> {..<NPAGEREFS} \<and>
     links (\<lambda>p. next_all (pagerefs h ! p)) (allbase h) A \<and>
     (\<forall>k < NSIZES. links (\<lambda>p. next_samesize (pagerefs h ! p)) (sizebases h ! k) (filter (\<lambda>p. btype h p = k) A))"

lemma linkedD:
  assumes "linked h A"
  shows "length (pagerefs h) = NPAGEREFS" "length (sizebases h) = NSIZES" "distinct A" "\<And>p. p \<in> set A \<Longrightarrow> p < NPAGEREFS"
    "links (\<lambda>p. next_all (pagerefs h ! p)) (allbase h) A"
    "\<And>k. k < NSIZES \<Longrightarrow>
       links (\<lambda>p. next_samesize (pagerefs h ! p)) (sizebases h ! k) (filter (\<lambda>p. btype h p = k) A)"
  using assms by (auto simp: linked_def)

text \<open>Both lists are searched from the front.\<close>

lemma find_samesize_links:
  assumes "links (\<lambda>p. next_samesize (pagerefs h ! p)) b ps"
    and "\<And>p. p \<in> set ps \<Longrightarrow> p < length (pagerefs h) \<and> btype h p = k"
  shows "find_samesize h k b = Some (List.find (\<lambda>p. nfree (pagerefs h ! p) > 0) ps)"
  using assms
proof (induction ps arbitrary: b)
  case Nil
  then show ?case by (subst find_samesize.simps) simp
next
  case (Cons p ps)
  have "of_nat (btype h p) = PR_BLOCKTYPE (pagerefs h ! p)" by simp
  then have "PR_BLOCKTYPE (pagerefs h ! p) = of_nat k" using Cons.prems(2) [of p] by simp
  moreover have "find_samesize h k (next_samesize (pagerefs h ! p)) = Some (List.find (\<lambda>p. nfree (pagerefs h ! p) > 0) ps)"
    using Cons.prems by (intro Cons.IH) auto
  ultimately show ?case using Cons.prems by (subst find_samesize.simps) auto
qed

definition in_page :: "vaddr \<Rightarrow> pageref \<Rightarrow> bool" where
  "in_page a r \<longleftrightarrow> a \<ge> PR_PAGEADDR r \<and> a < PR_PAGEADDR r + 4096"

lemma find_page_links:
  assumes "links (\<lambda>p. next_all (pagerefs h ! p)) b ps"
    and "\<And>p. p \<in> set ps \<Longrightarrow> p < length (pagerefs h) \<and> btype h p < NSIZES"
  shows "find_page h a b = Some (List.find (\<lambda>p. in_page a (pagerefs h ! p)) ps)"
  using assms
proof (induction ps arbitrary: b)
  case Nil
  then show ?case by (subst find_page.simps) simp
next
  case (Cons p ps)
  have "find_page h a (next_all (pagerefs h ! p)) = Some (List.find (\<lambda>p. in_page a (pagerefs h ! p)) ps)"
    using Cons.prems by (intro Cons.IH) auto
  then show ?case using Cons.prems by (subst find_page.simps) (auto simp: in_page_def Let_def)
qed

text \<open>Unlinking: the walk stops at the link that leads to the page.\<close>

lemma unlink_samesize_walk:
  assumes "samesize_link h k g = Some b" "links (\<lambda>p. next_samesize (pagerefs h ! p)) b (xs @ pr # ys)" "pr \<notin> set xs"
    and "\<And>p. p \<in> set xs \<Longrightarrow> p < length (pagerefs h)" "pr < length (pagerefs h)"
  shows "unlink_samesize h pr k g =
    set_samesize_link h k (if xs = [] then g else AtNext (last xs)) (next_samesize (pagerefs h ! pr))"
  using assms
proof (induction xs arbitrary: b g)
  case Nil
  then show ?case by (subst unlink_samesize.simps) simp
next
  case (Cons x xs)
  have "unlink_samesize h pr k (AtNext x) =
      set_samesize_link h k (if xs = [] then AtNext x else AtNext (last xs)) (next_samesize (pagerefs h ! pr))"
    using Cons.prems by (intro Cons.IH [of _ "next_samesize (pagerefs h ! x)"]) auto
  moreover have "b = Some x" "x \<noteq> pr" using Cons.prems by auto
  ultimately show ?case using Cons.prems(1) by (subst unlink_samesize.simps) simp
qed

lemma unlink_all_walk:
  assumes "all_link h g = Some b" "links (\<lambda>p. next_all (pagerefs h ! p)) b (xs @ pr # ys)" "pr \<notin> set xs"
    and "\<And>p. p \<in> set xs \<Longrightarrow> p < length (pagerefs h)" "pr < length (pagerefs h)"
  shows "unlink_all h pr g =
    set_all_link h (if xs = [] then g else AtNext (last xs)) (next_all (pagerefs h ! pr))"
  using assms
proof (induction xs arbitrary: b g)
  case Nil
  then show ?case by (subst unlink_all.simps) simp
next
  case (Cons x xs)
  have "unlink_all h pr (AtNext x) =
      set_all_link h (if xs = [] then AtNext x else AtNext (last xs)) (next_all (pagerefs h ! pr))"
    using Cons.prems by (intro Cons.IH [of _ "next_all (pagerefs h ! x)"]) auto
  moreover have "b = Some x" "x \<noteq> pr" using Cons.prems by auto
  ultimately show ?case using Cons.prems(1) by (subst unlink_all.simps) simp
qed

text \<open>The part of a \<open>pageref\<close> that is not a link.\<close>

definition payload :: "pageref \<Rightarrow> u32 \<times> u16 \<times> u16" where
  "payload r = (pageaddr_and_blocktype r, freelist_offset r, nfree r)"

lemma payloadD:
  assumes "payload r' = payload r"
  shows "PR_PAGEADDR r' = PR_PAGEADDR r" "PR_BLOCKTYPE r' = PR_BLOCKTYPE r" "page_rep m r' js = page_rep m r js"
    "in_page a r' = in_page a r"
  using assms by (simp_all add: payload_def PR_PAGEADDR_def PR_BLOCKTYPE_def page_rep_def in_page_def)

lemma unlink_samesize_spec:
  assumes lk: "linked h A" and pr: "pr \<in> set A" and k: "k = btype h pr" "k < NSIZES"
  shows "\<exists>rs sb. unlink_samesize h pr k AtBase = Some (h\<lparr>pagerefs := rs, sizebases := sb\<rparr>) \<and>
     length rs = NPAGEREFS \<and> length sb = NSIZES \<and>
     (\<forall>q. payload (rs ! q) = payload (pagerefs h ! q) \<and> next_all (rs ! q) = next_all (pagerefs h ! q)) \<and>
     (\<forall>i < NSIZES. links (\<lambda>p. next_samesize (rs ! p)) (sb ! i) (filter (\<lambda>p. btype h p = i) (remove1 pr A)))"
proof -
  note D = linkedD [OF lk]
  let ?f = "\<lambda>i. filter (\<lambda>p. btype h p = i)"
  let ?nx = "\<lambda>p. next_samesize (pagerefs h ! p)"
  have "pr \<in> set (?f k A)" using pr k by simp
  then obtain xs ys where xy: "?f k A = xs @ pr # ys" "pr \<notin> set xs" by (meson split_list_first)
  have dis: "distinct (xs @ pr # ys)" using D(3) xy(1) by (metis distinct_filter)
  have lt: "p < 256" "btype h p = k" if "p \<in> set (xs @ pr # ys)" for p
    using that D(4) unfolding xy(1) [symmetric] by auto
  have fk: "?f k (remove1 pr A) = xs @ ys"
    using xy dis by (simp add: filter_remove1 remove1_append)
  have fi: "?f i (remove1 pr A) = ?f i A" if "i \<noteq> k" for i
    using that k(1) by (simp add: filter_remove1 remove1_idem)
  have lnk: "links ?nx (sizebases h ! k) (xs @ pr # ys)" using D(6) [OF k(2)] unfolding xy(1) .
  have walk: "unlink_samesize h pr k AtBase =
      set_samesize_link h k (if xs = [] then AtBase else AtNext (last xs)) (?nx pr)"
    using lnk xy(2) lt D(1,2) k(2) by (intro unlink_samesize_walk [where b = "sizebases h ! k" and ys = ys]) auto
  show ?thesis
  proof (cases "xs = []")
    case True
    let ?sb = "(sizebases h)[k := ?nx pr]"
    have "unlink_samesize h pr k AtBase = Some (h\<lparr>pagerefs := pagerefs h, sizebases := ?sb\<rparr>)"
      using walk True D(2) k(2) by simp
    moreover have "links ?nx (?sb ! i) (?f i (remove1 pr A))" if i: "i < 8" for i
      using links_remove(1) [OF lnk dis True] D(2) D(6) [OF i] fk fi True i by (cases "i = k") auto
    ultimately show ?thesis using D(1,2) by (intro exI [of _ "pagerefs h"] exI [of _ ?sb] conjI allI impI) simp_all
  next
    case False
    let ?l = "last xs"
    have l: "?l \<in> set xs" "?l < 256" "btype h ?l = k" using False lt by simp_all
    let ?rs = "(pagerefs h)[?l := (pagerefs h ! ?l)\<lparr>next_samesize := ?nx pr\<rparr>]"
    have "unlink_samesize h pr k AtBase = Some (h\<lparr>pagerefs := ?rs, sizebases := sizebases h\<rparr>)"
      using walk False D(1) l(2) by (simp add: set_pageref_def)
    moreover have nx': "next_samesize (?rs ! p) = (?nx(?l := ?nx pr)) p" for p
      using D(1) l(2) by (cases "p = ?l") simp_all
    have "links (\<lambda>p. next_samesize (?rs ! p)) (sizebases h ! i) (?f i (remove1 pr A))" if i: "i < 8" for i
    proof (cases "i = k")
      case True
      then show ?thesis unfolding nx' True fk using links_remove(2) [OF lnk dis False] by (simp add: fun_upd_def)
    next
      case ik: False
      have "links (?nx(?l := ?nx pr)) (sizebases h ! i) (?f i A) = links ?nx (sizebases h ! i) (?f i A)"
        by (rule links_cong) (use ik l(3) in auto)
      then show ?thesis using D(6) [OF i] unfolding nx' fi [OF ik] by (simp add: fun_upd_def)
    qed
    moreover have "payload (?rs ! q) = payload (pagerefs h ! q) \<and> next_all (?rs ! q) = next_all (pagerefs h ! q)" for q
      using D(1) l(2) by (cases "q = ?l") (simp_all add: payload_def)
    ultimately show ?thesis using D(1,2) by (intro exI [of _ ?rs] exI [of _ "sizebases h"] conjI allI impI) simp_all
  qed
qed

lemma unlink_all_spec:
  assumes lk: "links (\<lambda>p. next_all (pagerefs h ! p)) (allbase h) A" and len: "length (pagerefs h) = NPAGEREFS"
    and A: "distinct A" "\<And>p. p \<in> set A \<Longrightarrow> p < NPAGEREFS" and pr: "pr \<in> set A"
  shows "\<exists>rs ab. unlink_all h pr AtBase = Some (h\<lparr>pagerefs := rs, allbase := ab\<rparr>) \<and> length rs = NPAGEREFS \<and>
     (\<forall>q. payload (rs ! q) = payload (pagerefs h ! q) \<and> next_samesize (rs ! q) = next_samesize (pagerefs h ! q)) \<and>
     links (\<lambda>p. next_all (rs ! p)) ab (remove1 pr A)"
proof -
  let ?nx = "\<lambda>p. next_all (pagerefs h ! p)"
  obtain xs ys where xy: "A = xs @ pr # ys" "pr \<notin> set xs" using pr by (meson split_list_first)
  have lt: "p < 256" if "p \<in> set (xs @ pr # ys)" for p
    using A that unfolding xy(1) by auto
  have dis: "distinct (xs @ pr # ys)" using A(1) unfolding xy(1) .
  have rm: "remove1 pr A = xs @ ys" using xy by (simp add: remove1_append)
  have lnk: "links ?nx (allbase h) (xs @ pr # ys)" using lk unfolding xy(1) .
  have walk: "unlink_all h pr AtBase = set_all_link h (if xs = [] then AtBase else AtNext (last xs)) (?nx pr)"
    using lnk xy(2) lt len by (intro unlink_all_walk [where b = "allbase h" and ys = ys]) auto
  show ?thesis
  proof (cases "xs = []")
    case True
    have "unlink_all h pr AtBase = Some (h\<lparr>pagerefs := pagerefs h, allbase := ?nx pr\<rparr>)" using walk True by simp
    moreover have "links ?nx (?nx pr) (remove1 pr A)" using links_remove(1) [OF lnk dis True] rm True by simp
    ultimately show ?thesis using len by (intro exI [of _ "pagerefs h"] exI [of _ "?nx pr"] conjI allI) simp_all
  next
    case False
    let ?l = "last xs"
    have l: "?l < 256" using False lt by simp
    let ?rs = "(pagerefs h)[?l := (pagerefs h ! ?l)\<lparr>next_all := ?nx pr\<rparr>]"
    have "unlink_all h pr AtBase = Some (h\<lparr>pagerefs := ?rs, allbase := allbase h\<rparr>)"
      using walk False len l by (simp add: set_pageref_def)
    moreover have nx': "next_all (?rs ! p) = (?nx(?l := ?nx pr)) p" for p
      using len l by (cases "p = ?l") simp_all
    have "links (\<lambda>p. next_all (?rs ! p)) (allbase h) (remove1 pr A)"
      unfolding nx' rm using links_remove(2) [OF lnk dis False] by (simp add: fun_upd_def)
    moreover have "payload (?rs ! q) = payload (pagerefs h ! q) \<and> next_samesize (?rs ! q) = next_samesize (pagerefs h ! q)" for q
      using len l by (cases "q = ?l") (simp_all add: payload_def)
    ultimately show ?thesis using len by (intro exI [of _ ?rs] exI [of _ "allbase h"] conjI allI) simp_all
  qed
qed

lemma remove_lists_spec:
  assumes lk: "linked h A" and pr: "pr \<in> set A" and k: "k = btype h pr" "k < NSIZES"
  shows "\<exists>rs sb ab. remove_lists h pr k = Some (h\<lparr>pagerefs := rs, sizebases := sb, allbase := ab\<rparr>) \<and>
     (\<forall>q. payload (rs ! q) = payload (pagerefs h ! q)) \<and>
     linked (h\<lparr>pagerefs := rs, sizebases := sb, allbase := ab\<rparr>) (remove1 pr A)"
proof -
  note D = linkedD [OF lk]
  obtain rs sb where u: "unlink_samesize h pr k AtBase = Some (h\<lparr>pagerefs := rs, sizebases := sb\<rparr>)"
     "length rs = NPAGEREFS" "length sb = NSIZES"
     "\<And>q. payload (rs ! q) = payload (pagerefs h ! q)" "\<And>q. next_all (rs ! q) = next_all (pagerefs h ! q)"
     "\<And>i. i < NSIZES \<Longrightarrow> links (\<lambda>p. next_samesize (rs ! p)) (sb ! i) (filter (\<lambda>p. btype h p = i) (remove1 pr A))"
    using unlink_samesize_spec [OF assms] by blast
  let ?h = "h\<lparr>pagerefs := rs, sizebases := sb\<rparr>"
  obtain rs' ab where w: "unlink_all ?h pr AtBase = Some (?h\<lparr>pagerefs := rs', allbase := ab\<rparr>)" "length rs' = NPAGEREFS"
     "\<And>q. payload (rs' ! q) = payload (rs ! q)" "\<And>q. next_samesize (rs' ! q) = next_samesize (rs ! q)"
     "links (\<lambda>p. next_all (rs' ! p)) ab (remove1 pr A)"
    using unlink_all_spec [of ?h A pr] u(2,5) D(3,4,5) pr by auto
  have bt: "PR_BLOCKTYPE (rs' ! q) = PR_BLOCKTYPE (pagerefs h ! q)" for q
    using payloadD(2) [of "rs' ! q" "pagerefs h ! q"] u(4) w(3) by simp
  have "remove_lists h pr k = Some (h\<lparr>pagerefs := rs', sizebases := sb, allbase := ab\<rparr>)"
    using u(1) w(1) k(2) by (simp add: remove_lists_def)
  moreover have "linked (h\<lparr>pagerefs := rs', sizebases := sb, allbase := ab\<rparr>) (remove1 pr A)"
    using u(3,6) w(2,4,5) D(3,4) by (auto simp: linked_def bt dest: notin_set_remove1 in_set_remove1 [THEN iffD1, rotated] set_mp [OF set_remove1_subset])
  ultimately show ?thesis using u(4) w(3) by (intro exI conjI allI) simp_all
qed

lemma block_in_page:
  assumes "unat b mod PAGE_SIZE = 0" "k < NSIZES" "j < PAGE_SIZE div sizes ! k"
  shows "unat b \<le> unat (block b (sizes ! k) j)" "unat (block b (sizes ! k) j) + sizes ! k \<le> unat b + PAGE_SIZE"
  using unat_block [OF assms] block_less [OF assms(2,3)] by simp_all

lemma init_page_spec:
  assumes lk: "linked h A" and p: "p < NPAGEREFS" "p \<notin> set A" and k: "k < NSIZES"
    and b: "unat b mod PAGE_SIZE = 0" "b \<noteq> 0"
  shows "\<exists>m rs sb. init_page h p k b = Some (h\<lparr>words := m, pagerefs := rs, sizebases := sb, allbase := Some p\<rparr>) \<and>
     linked (h\<lparr>words := m, pagerefs := rs, sizebases := sb, allbase := Some p\<rparr>) (p # A) \<and>
     page_rep m (rs ! p) (rev [0..<PAGE_SIZE div sizes ! k]) \<and> PR_PAGEADDR (rs ! p) = b \<and> unat (PR_BLOCKTYPE (rs ! p)) = k \<and>
     (\<forall>q. q \<noteq> p \<longrightarrow> rs ! q = pagerefs h ! q) \<and>
     (\<forall>x. \<not> (unat b \<le> unat x \<and> unat x < unat b + PAGE_SIZE) \<longrightarrow> m x = words h x)"
proof -
  note D = linkedD [OF lk]
  define n where "n = 4096 div sizes ! k"
  note S = sizes_facts [OF k]
  have n: "2 \<le> n" "n \<le> 256" "n * sizes ! k = 4096" using S by (simp_all add: n_def)
  have n16: "unat (of_nat n :: u16) = n" using n by (simp add: unsigned_of_nat take_bit_nat_eq_self)
  let ?B = "block b (sizes ! k)"
  have b0: "?B 0 = b" by (simp add: block_def)
  define h1 where "h1 = h\<lparr>words := (words h)(b := 0)\<rparr>"
  have st: "store_word h b 0 = Some h1"
    using block_aligned(2) [OF b(1) k, of 0] n b0 by (simp add: store_word_def h1_def n_def)
  have fc: "free_chain (words h1) b (sizes ! k) (rev [0..<1])" by (simp add: h1_def b0)
  obtain m where m: "chain_blocks h1 b (sizes ! k) b [1..<n] = Some (?B (n - 1), h1\<lparr>words := m\<rparr>)"
      "free_chain m b (sizes ! k) (rev [0..<n])" "\<And>x. (\<And>j. j < n \<Longrightarrow> x \<noteq> ?B j) \<Longrightarrow> m x = words h1 x"
    using chain_blocks_spec [OF b(1) k n_def, of 1 h1 b] fc n b0 by auto
  have nl: "n - 1 < 4096 div sizes ! k" using n by (simp add: n_def)
  note O = block_offset [OF b(1) k nl]
  define base where "base = sizebases h ! k"
  define r where "r = (pagerefs h ! p)\<lparr>pageaddr_and_blocktype := MKPAB b (of_nat k), nfree := of_nat n,
      freelist_offset := of_nat ((n - 1) * sizes ! k), next_samesize := base, next_all := allbase h\<rparr>"
  define rs where "rs = (pagerefs h)[p := r]"
  define sb where "sb = (sizebases h)[k := Some p]"
  have h1: "pagerefs h1 = pagerefs h" "sizebases h1 = sizebases h" "allbase h1 = allbase h"
    "h1\<lparr>words := m\<rparr> = h\<lparr>words := m\<rparr>" by (simp_all add: h1_def)
  have ip: "init_page h p k b = Some (h\<lparr>words := m, pagerefs := rs, sizebases := sb, allbase := Some p\<rparr>)"
    unfolding init_page_def n_def [symmetric]
    using p D(1,2) st m(1) k O(3,4) h1
    by (simp add: Let_def set_pageref_def rs_def sb_def r_def base_def n16 del: of_nat_mult)
  have rp: "rs ! p = r" using p D(1) by (simp add: rs_def)
  have rq: "rs ! q = pagerefs h ! q" if "q \<noteq> p" for q using that by (simp add: rs_def)
  have rA: "rs ! q = pagerefs h ! q" if "q \<in> set A" for q using that p(2) rq [of q] by blast
  have kp: "k < 4096" using k by simp
  have pa: "PR_PAGEADDR r = b" "unat (PR_BLOCKTYPE r) = k" using PR_MKPAB [OF b(1) kp, of r] by (simp_all add: r_def)
  have "rev [0..<n] = (n - 1) # rev [0..<n - 1]" using n by (cases n) simp_all
  then have rep: "page_rep m r (rev [0..<n])"
    using k b n m(2) n16 unfolding page_rep_def pa by (auto simp: n_def [symmetric] r_def simp del: of_nat_mult)
  have "links (\<lambda>q. next_all (rs ! q)) (allbase h) A = links (\<lambda>q. next_all (pagerefs h ! q)) (allbase h) A"
    by (rule links_cong) (simp_all add: rA)
  then have la: "links (\<lambda>q. next_all (rs ! q)) (Some p) (p # A)" using D(5) by (simp add: rp) (simp add: r_def)
  have ls: "links (\<lambda>q. next_samesize (rs ! q)) (sb ! i) (filter (\<lambda>q. unat (PR_BLOCKTYPE (rs ! q)) = i) (p # A))" if i: "i < 8" for i
  proof -
    have f: "filter (\<lambda>q. unat (PR_BLOCKTYPE (rs ! q)) = i) A = filter (\<lambda>q. btype h q = i) A"
      by (rule filter_cong) (simp_all add: rA)
    have "links (\<lambda>q. next_samesize (rs ! q)) (sizebases h ! i) (filter (\<lambda>q. btype h q = i) A) =
        links (\<lambda>q. next_samesize (pagerefs h ! q)) (sizebases h ! i) (filter (\<lambda>q. btype h q = i) A)"
      by (rule links_cong) (simp_all add: rA)
    then have "links (\<lambda>q. next_samesize (rs ! q)) (sizebases h ! i) (filter (\<lambda>q. btype h q = i) A)" using D(6) [OF i] by simp
    moreover have "next_samesize r = sizebases h ! k" by (simp add: r_def base_def)
    ultimately show ?thesis using D(2) k i unfolding filter.simps f rp pa by (cases "i = k") (simp_all add: rp sb_def)
  qed
  have lkd: "linked (h\<lparr>words := m, pagerefs := rs, sizebases := sb, allbase := Some p\<rparr>) (p # A)"
    using la ls p D(1-4) by (auto simp: linked_def rs_def sb_def simp del: links.simps filter.simps)
  have out: "m x = words h x" if x: "\<not> (unat b \<le> unat x \<and> unat x < unat b + 4096)" for x
  proof -
    have "x \<noteq> ?B j" if "j < n" for j
      using block_in_page [OF b(1) k, of j] that x S(2) by (auto simp: n_def)
    moreover from this [of 0] have "x \<noteq> b" using n b0 by auto
    ultimately show ?thesis using m(3) [of x] by (simp add: h1_def)
  qed
  show ?thesis
    using ip lkd rep pa rq out unfolding n_def rp [symmetric] by (intro exI [of _ m] exI [of _ rs] exI [of _ sb] conjI) auto
qed

lemma fill_words_spec:
  assumes b: "unat b mod PAGE_SIZE = 0" and o: "off mod 4 = 0" "off + 4 * n \<le> PAGE_SIZE" and a: "a \<le> n"
  shows "\<exists>m. fill_words h (b + of_nat off) [a..<n] = Some (h\<lparr>words := m\<rparr>) \<and>
     (\<forall>x. \<not> (unat b + off \<le> unat x \<and> unat x < unat b + off + 4 * n) \<longrightarrow> m x = words h x)"
  using a
proof (induction "n - a" arbitrary: a h)
  case 0
  then show ?case by (intro exI [of _ "words h"]) simp
next
  case (Suc d)
  then have an: "a < n" by simp
  let ?x = "b + of_nat off + of_nat (a * 4)"
  have e: "?x = b + of_nat (off + a * 4)" by simp
  have u: "unat ?x = unat b + (off + a * 4)" unfolding e using an o(2) by (intro page_offset [OF b]) simp
  have "unat b mod 4 = 0" using b dvd_trans [of 4 4096 "unat b"] by (simp add: mod_eq_0_iff_dvd)
  then have "unat ?x mod 4 = 0" unfolding u using o(1) by (simp add: mod_eq_0_iff_dvd)
  then have st: "store_word h ?x 0xdeadbeef = Some (h\<lparr>words := (words h)(?x := 0xdeadbeef)\<rparr>)" by (simp add: store_word_def)
  let ?h = "h\<lparr>words := (words h)(?x := 0xdeadbeef)\<rparr>"
  have "d = n - Suc a" using Suc.hyps(2) by simp
  then obtain m where m: "fill_words ?h (b + of_nat off) [Suc a..<n] = Some (?h\<lparr>words := m\<rparr>)"
     "\<forall>x. \<not> (unat b + off \<le> unat x \<and> unat x < unat b + off + 4 * n) \<longrightarrow> m x = words ?h x"
    using Suc.hyps(1) [of "Suc a" ?h] an by auto
  have "fill_words h (b + of_nat off) [a..<n] = Some (h\<lparr>words := m\<rparr>)"
    using m(1) st an by (simp add: upt_rec [of a] del: of_nat_mult)
  moreover have "m x = words h x" if "\<not> (unat b + off \<le> unat x \<and> unat x < unat b + off + 4 * n)" for x
  proof -
    have "x \<noteq> ?x" using that u an by auto
    then show ?thesis using m(2) that by simp
  qed
  ultimately show ?case by blast
qed

lemma fill_deadbeef_spec:
  assumes "unat b mod PAGE_SIZE = 0" "k < NSIZES" "j < PAGE_SIZE div sizes ! k"
  shows "\<exists>m. fill_deadbeef h (block b (sizes ! k) j) (sizes ! k) = Some (h\<lparr>words := m\<rparr>) \<and>
     (\<forall>x. \<not> (unat (block b (sizes ! k) j) \<le> unat x \<and> unat x < unat (block b (sizes ! k) j) + sizes ! k) \<longrightarrow> m x = words h x)"
proof -
  have "4 dvd sizes ! k" using sizes_facts(1) [OF assms(2)] dvd_trans [of 4 16 "sizes ! k"] by (simp add: mod_eq_0_iff_dvd)
  then have e: "4 * (sizes ! k div 4) = sizes ! k" "j * sizes ! k mod 4 = 0" by simp_all
  then show ?thesis
    using fill_words_spec [OF assms(1), of "j * sizes ! k" "sizes ! k div 4" 0 h] block_less [OF assms(2,3)]
    unfolding fill_deadbeef_def unat_block [OF assms] by (simp add: block_def del: of_nat_mult)
qed

section \<open>The invariant of the heap\<close>

text \<open>The kernel address of a frame.\<close>

definition kframe :: "vm_state \<Rightarrow> nat \<Rightarrow> vaddr" where
  "kframe s i = PADDR_TO_KVADDR (frame_addr s i)"

lemma kframe_unat:
  assumes "cm_rep s B" "i \<le> nframes s"
  shows "unat (kframe s i) = 2147483648 + unat (baseAddr (core_map s)) + i * PAGE_SIZE"
    "unat (kframe s i) mod PAGE_SIZE = 0" "kframe s i \<noteq> 0" "unat (kframe s i) \<le> 2680160256"
proof -
  note D = cm_repD [OF assms(1)]
  have f: "unat (frame_addr s i) = unat (baseAddr (core_map s)) + i * 4096" by (rule frame_addr_unat [OF assms])
  have "i * 4096 \<le> nframes s * 4096" using assms(2) by simp
  then have b: "unat (baseAddr (core_map s)) + i * 4096 \<le> 532676608" using D(8,9) by linarith
  show u: "unat (kframe s i) = 2147483648 + unat (baseAddr (core_map s)) + i * PAGE_SIZE"
    using b f by (simp add: kframe_def PADDR_TO_KVADDR_def MIPS_KSEG0_def unat_word_ariths)
  have "4096 dvd unat (baseAddr (core_map s))" using D(7) by (simp only: mod_eq_0_iff_dvd)
  then have "4096 dvd unat (kframe s i)" unfolding u by (intro dvd_add) simp_all
  then show "unat (kframe s i) mod PAGE_SIZE = 0" by (simp only: mod_eq_0_iff_dvd)
  have "unat (kframe s i) \<noteq> 0" unfolding u by simp
  then show "kframe s i \<noteq> 0" by auto
  show "unat (kframe s i) \<le> 2680160256" using b u by simp
qed

lemma block_frames:
  assumes "cm_rep s B" "B i = Some l"
  shows "i < nframes s" "i \<le> nframes s" "0 < l" "i + l \<le> nframes s"
proof -
  have "0 < l \<and> i + l \<le> nframes s" using cm_repD(10) [OF assms(1)] assms(2) unfolding blocks_wf_def by blast
  then show "i < nframes s" "i \<le> nframes s" "0 < l" "i + l \<le> nframes s" by simp_all
qed

lemma kframe_inj:
  assumes "cm_rep s B" "B i = Some l" "B j = Some m" "kframe s i = kframe s j"
  shows "i = j"
proof -
  have "i * 4096 = j * 4096"
    using kframe_unat(1) [OF assms(1) block_frames(2) [OF assms(1,2)]] kframe_unat(1) [OF assms(1) block_frames(2) [OF assms(1,3)]]
    unfolding assms(4) by linarith
  then show ?thesis by simp
qed

text \<open>A block of memory is its address and its length in bytes.\<close>

definition bytes :: "vaddr \<times> nat \<Rightarrow> nat set" where
  "bytes x = {unat (fst x)..<unat (fst x) + snd x}"

lemma bytes_frames_disjoint:
  assumes "cm_rep s B" "B i = Some l" "B j = Some m" "i \<noteq> j"
  shows "bytes (kframe s i, l * PAGE_SIZE) \<inter> bytes (kframe s j, m * PAGE_SIZE) = {}"
proof -
  have "i + l \<le> j \<or> j + m \<le> i"
    using cm_repD(10) [OF assms(1)] assms(2-4) unfolding blocks_wf_def by (metis linorder_neqE_nat)
  then have "i * 4096 + l * 4096 \<le> j * 4096 \<or> j * 4096 + m * 4096 \<le> i * 4096"
    using mult_le_mono1 [of "i + l" j 4096] mult_le_mono1 [of "j + m" i 4096] by (auto simp: add_mult_distrib)
  then show ?thesis
    unfolding bytes_def using kframe_unat(1) [OF assms(1) block_frames(2) [OF assms(1,2)]] kframe_unat(1) [OF assms(1) block_frames(2) [OF assms(1,3)]]
    by auto
qed

text \<open>The pages of the heap are single frames of the core map; \<open>F p\<close> lists the free blocks of page
  \<open>p\<close> in the order of its free list.\<close>

definition kheap_core :: "kheap \<Rightarrow> blocks \<Rightarrow> nat list \<Rightarrow> (nat \<Rightarrow> nat list) \<Rightarrow> bool" where
  "kheap_core h B A F \<longleftrightarrow>
     linked h A \<and> refs_wf h \<and> refs_used h = set A \<and> cm_rep (kvm h) B \<and>
     (\<forall>p \<in> set A. page_rep (words h) (pagerefs h ! p) (F p)) \<and>
     (\<forall>p \<in> set A. \<exists>i. B i = Some 1 \<and> PR_PAGEADDR (pagerefs h ! p) = kframe (kvm h) i) \<and>
     inj_on (\<lambda>p. PR_PAGEADDR (pagerefs h ! p)) (set A)"

text \<open>Between calls no page is entirely free.\<close>

definition kheap_inv :: "kheap \<Rightarrow> blocks \<Rightarrow> nat list \<Rightarrow> (nat \<Rightarrow> nat list) \<Rightarrow> bool" where
  "kheap_inv h B A F \<longleftrightarrow>
     kheap_core h B A F \<and> (\<forall>p \<in> set A. length (F p) < nblocks (pagerefs h ! p))"

text \<open>The memory in use: the blocks of the pages that are not free, and the blocks of the core map
  that are not pages of the heap.\<close>

definition page_blocks :: "pageref \<Rightarrow> nat list \<Rightarrow> (vaddr \<times> nat) set" where
  "page_blocks r js = (\<lambda>j. (block (PR_PAGEADDR r) (bsize r) j, bsize r)) ` ({..<nblocks r} - set js)"

definition subpage_live :: "kheap \<Rightarrow> nat list \<Rightarrow> (nat \<Rightarrow> nat list) \<Rightarrow> (vaddr \<times> nat) set" where
  "subpage_live h A F = (\<Union>p \<in> set A. page_blocks (pagerefs h ! p) (F p))"

definition page_live :: "kheap \<Rightarrow> blocks \<Rightarrow> nat list \<Rightarrow> (vaddr \<times> nat) set" where
  "page_live h B A =
     {(kframe (kvm h) i, l * PAGE_SIZE) | i l.
        B i = Some l \<and> kframe (kvm h) i \<notin> (\<lambda>p. PR_PAGEADDR (pagerefs h ! p)) ` set A}"

definition live :: "kheap \<Rightarrow> blocks \<Rightarrow> nat list \<Rightarrow> (nat \<Rightarrow> nat list) \<Rightarrow> (vaddr \<times> nat) set" where
  "live h B A F = subpage_live h A F \<union> page_live h B A"

lemma kheap_coreD:
  assumes "kheap_core h B A F"
  shows "linked h A" "refs_wf h" "refs_used h = set A" "cm_rep (kvm h) B"
    "\<And>p. p \<in> set A \<Longrightarrow> page_rep (words h) (pagerefs h ! p) (F p)"
    "\<And>p. p \<in> set A \<Longrightarrow> \<exists>i. B i = Some 1 \<and> PR_PAGEADDR (pagerefs h ! p) = kframe (kvm h) i"
    "\<And>p q. p \<in> set A \<Longrightarrow> q \<in> set A \<Longrightarrow> PR_PAGEADDR (pagerefs h ! p) = PR_PAGEADDR (pagerefs h ! q) \<Longrightarrow> p = q"
  using assms by (auto simp: kheap_core_def inj_on_def)

lemma page_bytes_disjoint:
  assumes "kheap_core h B A F" "p \<in> set A" "q \<in> set A" "p \<noteq> q"
  shows "bytes (PR_PAGEADDR (pagerefs h ! p), PAGE_SIZE) \<inter> bytes (PR_PAGEADDR (pagerefs h ! q), PAGE_SIZE) = {}"
proof -
  note D = kheap_coreD [OF assms(1)]
  obtain i j where ij: "B i = Some 1" "PR_PAGEADDR (pagerefs h ! p) = kframe (kvm h) i"
      "B j = Some 1" "PR_PAGEADDR (pagerefs h ! q) = kframe (kvm h) j"
    using D(6) [OF assms(2)] D(6) [OF assms(3)] by blast
  then have "i \<noteq> j" using D(7) [OF assms(2,3)] assms(4) by metis
  then show ?thesis using bytes_frames_disjoint [OF D(4) ij(1,3)] unfolding ij by simp
qed

lemma block_bytes:
  assumes "page_rep m r js" "j < nblocks r"
  shows "bytes (block (PR_PAGEADDR r) (bsize r) j, bsize r) \<subseteq> bytes (PR_PAGEADDR r, PAGE_SIZE)"
    "i < nblocks r \<Longrightarrow> i \<noteq> j \<Longrightarrow>
      bytes (block (PR_PAGEADDR r) (bsize r) i, bsize r) \<inter> bytes (block (PR_PAGEADDR r) (bsize r) j, bsize r) = {}"
proof -
  note k = page_repD(1) [OF assms(1)]
  note U = unat_block [OF PR_PAGEADDR_aligned k]
  show "bytes (block (PR_PAGEADDR r) (bsize r) j, bsize r) \<subseteq> bytes (PR_PAGEADDR r, PAGE_SIZE)"
    using block_in_page [OF PR_PAGEADDR_aligned k assms(2)] by (auto simp: bytes_def)
  assume i: "i < nblocks r" "i \<noteq> j"
  then have "Suc i \<le> j \<or> Suc j \<le> i" by linarith
  then have "Suc i * bsize r \<le> j * bsize r \<or> Suc j * bsize r \<le> i * bsize r" using mult_le_mono1 by blast
  then show "bytes (block (PR_PAGEADDR r) (bsize r) i, bsize r) \<inter> bytes (block (PR_PAGEADDR r) (bsize r) j, bsize r) = {}"
    unfolding bytes_def fst_conv snd_conv U [OF i(1)] U [OF assms(2)] by auto
qed

text \<open>Memory in use never overlaps.\<close>

lemma subpage_liveE:
  assumes "x \<in> subpage_live h A F"
  obtains p j where "p \<in> set A" "j < nblocks (pagerefs h ! p)" "j \<notin> set (F p)"
    "x = (block (PR_PAGEADDR (pagerefs h ! p)) (bsize (pagerefs h ! p)) j, bsize (pagerefs h ! p))"
  using assms by (auto simp: subpage_live_def page_blocks_def)

lemma live_in_frames:
  assumes "kheap_core h B A F" "p \<in> set A" "y \<in> page_live h B A"
  shows "bytes (PR_PAGEADDR (pagerefs h ! p), PAGE_SIZE) \<inter> bytes y = {}"
proof -
  note D = kheap_coreD [OF assms(1)]
  obtain i where i: "B i = Some 1" "PR_PAGEADDR (pagerefs h ! p) = kframe (kvm h) i" using D(6) [OF assms(2)] by blast
  obtain j l where j: "B j = Some l" "y = (kframe (kvm h) j, l * 4096)" "kframe (kvm h) j \<noteq> PR_PAGEADDR (pagerefs h ! p)"
    using assms(2,3) by (auto simp: page_live_def)
  then have "i \<noteq> j" using i by auto
  then show ?thesis using bytes_frames_disjoint [OF D(4) i(1) j(1)] unfolding i(2) j(2) by simp
qed

lemma live_disjoint:
  assumes core: "kheap_core h B A F" and "x \<in> live h B A F" "y \<in> live h B A F" "x \<noteq> y"
  shows "bytes x \<inter> bytes y = {}"
proof -
  note D = kheap_coreD [OF core]
  have sub: "bytes x \<inter> bytes y = {}" if x: "x \<in> subpage_live h A F" and y: "y \<in> live h B A F" "x \<noteq> y" for x y
  proof -
    obtain p i where p: "p \<in> set A" "i < nblocks (pagerefs h ! p)"
        "x = (block (PR_PAGEADDR (pagerefs h ! p)) (bsize (pagerefs h ! p)) i, bsize (pagerefs h ! p))"
      using x by (elim subpage_liveE) blast
    note px = block_bytes(1) [OF D(5) [OF p(1)] p(2), folded p(3)]
    show ?thesis
    proof (cases "y \<in> page_live h B A")
      case True
      then show ?thesis using live_in_frames [OF core p(1)] px by blast
    next
      case False
      then have "y \<in> subpage_live h A F" using y(1) by (simp add: live_def)
      then obtain q j where q: "q \<in> set A" "j < nblocks (pagerefs h ! q)"
          "y = (block (PR_PAGEADDR (pagerefs h ! q)) (bsize (pagerefs h ! q)) j, bsize (pagerefs h ! q))"
        by (elim subpage_liveE) blast
      show ?thesis
      proof (cases "p = q")
        case True
        then have "i \<noteq> j" using y(2) p(3) q(3) by auto
        then show ?thesis using block_bytes(2) [OF D(5) [OF q(1)] q(2), of i] p(2,3) q(3) True by simp
      next
        case False
        then show ?thesis
          using page_bytes_disjoint [OF core p(1) q(1)] px block_bytes(1) [OF D(5) [OF q(1)] q(2), folded q(3)] by blast
      qed
    qed
  qed
  have big: "bytes x \<inter> bytes y = {}" if xy: "x \<in> page_live h B A" "y \<in> page_live h B A" "x \<noteq> y" for x y
  proof -
    obtain i l j m where "B i = Some l" "x = (kframe (kvm h) i, l * 4096)" "B j = Some m" "y = (kframe (kvm h) j, m * 4096)"
      using xy(1,2) unfolding page_live_def by blast
    moreover from this have "i \<noteq> j" using xy(3) by auto
    ultimately show ?thesis using bytes_frames_disjoint [OF D(4)] by blast
  qed
  consider "x \<in> subpage_live h A F" | "y \<in> subpage_live h A F" | "x \<in> page_live h B A" "y \<in> page_live h B A"
    using assms(2,3) by (auto simp: live_def)
  then show ?thesis
  proof cases
    case 1
    then show ?thesis using sub assms(3,4) by blast
  next
    case 2
    then show ?thesis using sub [of y x] assms(2,4) by blast
  next
    case 3
    then show ?thesis using big assms(4) by blast
  qed
qed
section \<open>Allocation\<close>

lemma blocktype_from_find: "blocktype_from sz ks = List.find (\<lambda>i. sz \<le> sizes ! i) ks"
  by (induction ks) simp_all

lemma blocktype_spec:
  assumes "sz < LARGEST_SUBPAGE_SIZE"
  shows "\<exists>k < NSIZES. blocktype sz = Some k \<and> sz \<le> sizes ! k \<and> (\<forall>i < k. sizes ! i < sz)"
proof -
  have "sz \<le> sizes ! 7" using assms by (simp add: sizes_def)
  then have "List.find (\<lambda>i. sz \<le> sizes ! i) [0..<8] \<noteq> None" unfolding find_None_iff by force
  then obtain k where k: "List.find (\<lambda>i. sz \<le> sizes ! i) [0..<8] = Some k" by blast
  then obtain n where n: "n < 8" "sz \<le> sizes ! ([0..<8] ! n)" "k = [0..<8] ! n" "\<forall>j < n. \<not> sz \<le> sizes ! ([0..<8] ! j)"
    unfolding find_Some_iff by auto
  have "k = n" using n(1,3) by simp
  moreover have "sizes ! j < sz" if "j < n" for j using n(1) n(4) [rule_format, OF that] that by simp
  ultimately show ?thesis using n(1,2,3) k by (auto simp: blocktype_def blocktype_from_find)
qed

lemma subpage_live_upd:
  assumes "p \<in> set A"
  shows "subpage_live h A (F(p := js)) = page_blocks (pagerefs h ! p) js \<union> (\<Union>q \<in> set A - {p}. page_blocks (pagerefs h ! q) (F q))"
    and "subpage_live h A F = page_blocks (pagerefs h ! p) (F p) \<union> (\<Union>q \<in> set A - {p}. page_blocks (pagerefs h ! q) (F q))"
proof -
  have A: "set A = insert p (set A - {p})" using assms by blast
  have e: "(\<Union>q \<in> set A - {p}. page_blocks (pagerefs h ! q) ((F(p := js)) q)) = (\<Union>q \<in> set A - {p}. page_blocks (pagerefs h ! q) (F q))"
    by (rule SUP_cong) simp_all
  show "subpage_live h A (F(p := js)) = page_blocks (pagerefs h ! p) js \<union> (\<Union>q \<in> set A - {p}. page_blocks (pagerefs h ! q) (F q))"
    unfolding subpage_live_def by (subst A) (simp only: UN_insert e fun_upd_same)
  show "subpage_live h A F = page_blocks (pagerefs h ! p) (F p) \<union> (\<Union>q \<in> set A - {p}. page_blocks (pagerefs h ! q) (F q))"
    unfolding subpage_live_def by (subst A) (simp only: UN_insert)
qed

lemma page_blocks_take:
  assumes "j < nblocks r" "j \<notin> set js"
  shows "page_blocks r js = insert (block (PR_PAGEADDR r) (bsize r) j, bsize r) (page_blocks r (j # js))"
proof -
  have "{..<nblocks r} - set js = insert j ({..<nblocks r} - set (j # js))" using assms by auto
  then show ?thesis unfolding page_blocks_def by simp
qed

lemma subpage_live_cong:
  assumes "\<And>q. q \<in> set A \<Longrightarrow> pageaddr_and_blocktype (pagerefs h' ! q) = pageaddr_and_blocktype (pagerefs h ! q)"
  shows "subpage_live h' A F = subpage_live h A F"
    and "(\<lambda>p. PR_PAGEADDR (pagerefs h' ! p)) ` set A = (\<lambda>p. PR_PAGEADDR (pagerefs h ! p)) ` set A"
proof -
  have *: "PR_PAGEADDR (pagerefs h' ! q) = PR_PAGEADDR (pagerefs h ! q)" "PR_BLOCKTYPE (pagerefs h' ! q) = PR_BLOCKTYPE (pagerefs h ! q)"
    if "q \<in> set A" for q using assms [OF that] by (simp_all add: PR_PAGEADDR_def PR_BLOCKTYPE_def)
  show "(\<lambda>p. PR_PAGEADDR (pagerefs h' ! p)) ` set A = (\<lambda>p. PR_PAGEADDR (pagerefs h ! p)) ` set A"
    using *(1) by (rule image_cong [OF refl])
  show "subpage_live h' A F = subpage_live h A F"
    unfolding subpage_live_def page_blocks_def by (rule SUP_cong [OF refl]) (simp only: *)
qed

lemma linked_same_page:
  assumes lk: "linked h A" and p: "p < NPAGEREFS" and same: "same_page (pagerefs h ! p) r'"
  shows "linked (h\<lparr>pagerefs := (pagerefs h)[p := r']\<rparr>) A"
proof -
  note D = linkedD [OF lk]
  have "next_all ((pagerefs h)[p := r'] ! q) = next_all (pagerefs h ! q)"
    "next_samesize ((pagerefs h)[p := r'] ! q) = next_samesize (pagerefs h ! q)"
    "PR_BLOCKTYPE ((pagerefs h)[p := r'] ! q) = PR_BLOCKTYPE (pagerefs h ! q)" for q
    using same_pageD [OF same] p D(1) by (cases "q = p", simp_all)+
  then show ?thesis using D by (auto simp: linked_def)
qed

lemma block_addr_in:
  assumes "page_rep m r js" "j < nblocks r"
  shows "unat (block (PR_PAGEADDR r) (bsize r) j) \<in> bytes (block (PR_PAGEADDR r) (bsize r) j, bsize r)"
    "unat (block (PR_PAGEADDR r) (bsize r) j) \<in> bytes (PR_PAGEADDR r, PAGE_SIZE)"
proof -
  show "unat (block (PR_PAGEADDR r) (bsize r) j) \<in> bytes (block (PR_PAGEADDR r) (bsize r) j, bsize r)"
    using sizes_facts(2) [OF page_repD(1) [OF assms(1)]] by (simp add: bytes_def)
  then show "unat (block (PR_PAGEADDR r) (bsize r) j) \<in> bytes (PR_PAGEADDR r, PAGE_SIZE)"
    using block_bytes(1) [OF assms] by blast
qed


lemma free_not_live:
  assumes core: "kheap_core h B A F" and p: "p \<in> set A" and j: "j \<in> set (F p)"
  shows "(block (PR_PAGEADDR (pagerefs h ! p)) (bsize (pagerefs h ! p)) j, bsize (pagerefs h ! p)) \<notin> live h B A F"
proof
  let ?x = "(block (PR_PAGEADDR (pagerefs h ! p)) (bsize (pagerefs h ! p)) j, bsize (pagerefs h ! p))"
  assume x: "?x \<in> live h B A F"
  note D = kheap_coreD [OF core]
  note rep = D(5) [OF p]
  have jn: "j < nblocks (pagerefs h ! p)" by (rule page_repD(4) [OF rep j])
  have ne: "bytes ?x \<noteq> {}" using block_addr_in(1) [OF rep jn] by blast
  show False
  proof (cases "?x \<in> page_live h B A")
    case True
    then show False using live_in_frames [OF core p True] block_bytes(1) [OF rep jn] ne by blast
  next
    case False
    then have "?x \<in> subpage_live h A F" using x by (simp add: live_def)
    then obtain q i where q: "q \<in> set A" "i < nblocks (pagerefs h ! q)" "i \<notin> set (F q)"
      "?x = (block (PR_PAGEADDR (pagerefs h ! q)) (bsize (pagerefs h ! q)) i, bsize (pagerefs h ! q))" by (elim subpage_liveE)
    have "q = p"
      using page_bytes_disjoint [OF core p q(1)] block_bytes(1) [OF rep jn] block_bytes(1) [OF D(5) [OF q(1)] q(2), folded q(4)] ne by blast
    then have "i \<noteq> j" using q(3) j by auto
    then show False using block_bytes(2) [OF rep jn, of i] q(2,4) \<open>q = p\<close> ne by auto
  qed
qed


lemma doalloc_core:
  assumes core: "kheap_core h B A F" and p: "p \<in> set A" and F: "F p = j # js"
  shows "\<exists>h'. doalloc h p = Some (block (PR_PAGEADDR (pagerefs h ! p)) (bsize (pagerefs h ! p)) j, h') \<and>
     kheap_core h' B A (F(p := js)) \<and> words h' = words h \<and>
     (\<forall>q. PR_BLOCKTYPE (pagerefs h' ! q) = PR_BLOCKTYPE (pagerefs h ! q)) \<and>
     live h' B A (F(p := js)) =
       insert (block (PR_PAGEADDR (pagerefs h ! p)) (bsize (pagerefs h ! p)) j, bsize (pagerefs h ! p)) (live h B A F) \<and>
     (block (PR_PAGEADDR (pagerefs h ! p)) (bsize (pagerefs h ! p)) j, bsize (pagerefs h ! p)) \<notin> live h B A F"
proof -
  note D = kheap_coreD [OF core]
  note L = linkedD [OF D(1)]
  have rep: "page_rep (words h) (pagerefs h ! p) (j # js)" using D(5) [OF p] F by simp
  note R = page_repD [OF rep]
  have pl: "p < 256" "p < length (pagerefs h)" using L(1,4) p by simp_all
  let ?r = "pagerefs h ! p"
  let ?x = "(block (PR_PAGEADDR ?r) (bsize ?r) j, bsize ?r)"
  obtain r' where r': "doalloc h p = Some (fst ?x, h\<lparr>pagerefs := (pagerefs h)[p := r']\<rparr>)" "same_page ?r r'" "page_rep (words h) r' js"
    using doalloc_spec [OF pl(2) rep] by auto
  define h' where "h' = h\<lparr>pagerefs := (pagerefs h)[p := r']\<rparr>"
  have h': "words h' = words h" "kvm h' = kvm h" "pagerefs_inuse h' = pagerefs_inuse h" "pagerefs h' ! p = r'"
    "\<And>q. q \<noteq> p \<Longrightarrow> pagerefs h' ! q = pagerefs h ! q" using pl by (simp_all add: h'_def)
  have pab: "pageaddr_and_blocktype (pagerefs h' ! q) = pageaddr_and_blocktype (pagerefs h ! q)" for q
    using r'(2) h'(4,5) by (cases "q = p") (simp_all add: same_page_def)
  then have P: "PR_PAGEADDR (pagerefs h' ! q) = PR_PAGEADDR (pagerefs h ! q)" "PR_BLOCKTYPE (pagerefs h' ! q) = PR_BLOCKTYPE (pagerefs h ! q)"
    for q by (simp_all add: PR_PAGEADDR_def PR_BLOCKTYPE_def)
  have core': "kheap_core h' B A (F(p := js))"
    unfolding kheap_core_def
  proof (intro conjI ballI)
    show "linked h' A" unfolding h'_def by (rule linked_same_page [OF D(1) pl(1) r'(2)])
    show "refs_wf h'" "refs_used h' = set A" using D(2,3) by (simp_all add: refs_wf_def refs_used_def ref_bit_def h'(3))
    show "cm_rep (kvm h') B" unfolding h'(2) by (rule D(4))
    show "page_rep (words h') (pagerefs h' ! q) ((F(p := js)) q)" if "q \<in> set A" for q
      using D(5) [OF that] r'(3) h' by (cases "q = p") simp_all
    show "\<exists>i. B i = Some 1 \<and> PR_PAGEADDR (pagerefs h' ! q) = kframe (kvm h') i" if "q \<in> set A" for q
      using D(6) [OF that] unfolding P h' .
    show "inj_on (\<lambda>p. PR_PAGEADDR (pagerefs h' ! p)) (set A)" unfolding P using D(7) by (auto intro: inj_onI)
  qed
  have j: "j \<notin> set js" "j < nblocks ?r" using R(3,4) by simp_all
  have "subpage_live h' A (F(p := js)) = insert ?x (subpage_live h A F)"
  proof -
    have "subpage_live h' A (F(p := js)) = subpage_live h A (F(p := js))" by (rule subpage_live_cong(1)) (rule pab)
    also have "\<dots> = insert ?x (subpage_live h A F)"
      unfolding subpage_live_upd(1) [OF p] subpage_live_upd(2) [OF p, of h F] F page_blocks_take [OF j(2,1)] by simp
    finally show ?thesis .
  qed
  moreover have "page_live h' B A = page_live h B A" unfolding page_live_def P h' ..
  moreover have "?x \<notin> live h B A F" using free_not_live [OF core p, of j] F by simp
  ultimately show ?thesis using r'(1) core' h'(1) P(2) unfolding live_def h'_def by (intro exI [of _ h']) (simp add: h'_def)
qed

text \<open>A fresh page is part of the heap, with all its blocks free.\<close>

lemma alloc_kpages_found:
  assumes "cm_rep s B" "0 < n" "free_run_at s B n j"
  shows "\<exists>i s'. alloc_kpages s (int n) = Some (kframe s i, s') \<and> free_run_at s B n i \<and> B i = None \<and> i < nframes s \<and>
     cm_rep s' (B(i \<mapsto> n)) \<and> nframes s' = nframes s \<and> kframe s' = kframe s"
proof -
  define i where "i = (LEAST i. free_run_at s B n i)"
  have i: "free_run_at s B n i" unfolding i_def by (rule LeastI, rule assms(3))
  have first: "\<not> free_run_at s B n m" if "m < i" for m using that unfolding i_def by (rule not_less_Least)
  obtain s' where s': "getppages s (of_nat n) = Some (frame_addr s i, s')" "cm_rep s' (B(i \<mapsto> n))"
      "nframes s' = nframes s" "frame_addr s' = frame_addr s"
    using getppages_found [OF assms(1,2) i first] by blast
  have il: "i + n \<le> nframes s" "{i..<i + n} \<inter> frames B = {}" "i < nframes s" using i assms(2) by (auto simp: free_run_at_def)
  have "unat (frame_addr s i) \<noteq> 0"
    using frame_addr_unat [OF assms(1), of i] il cm_repD(6) [OF assms(1)] by simp
  then have "frame_addr s i \<noteq> 0" by auto
  then have "alloc_kpages s (int n) = Some (kframe s i, s')" using s'(1) by (simp add: alloc_kpages_def kframe_def)
  moreover have "B i = None" by (rule blocks_wf_upd(2) [OF cm_repD(10) [OF assms(1)] assms(2) il(1,2)])
  ultimately show ?thesis using i il(3) s'(2-4) by (intro exI [of _ i] exI [of _ s']) (simp add: kframe_def fun_eq_iff)
qed

lemma live_frame:
  assumes "kheap_core h B A F" "x \<in> live h B A F"
  shows "\<exists>j l. B j = Some l \<and> bytes x \<subseteq> bytes (kframe (kvm h) j, l * PAGE_SIZE)"
proof (cases "x \<in> page_live h B A")
  case True
  then show ?thesis unfolding page_live_def by blast
next
  case False
  note D = kheap_coreD [OF assms(1)]
  have "x \<in> subpage_live h A F" using assms(2) False by (simp add: live_def)
  then obtain p j where p: "p \<in> set A" "j < nblocks (pagerefs h ! p)"
      "x = (block (PR_PAGEADDR (pagerefs h ! p)) (bsize (pagerefs h ! p)) j, bsize (pagerefs h ! p))"
    by (elim subpage_liveE) blast
  obtain i where i: "B i = Some 1" "PR_PAGEADDR (pagerefs h ! p) = kframe (kvm h) i" using D(6) [OF p(1)] by blast
  show ?thesis using block_bytes(1) [OF D(5) [OF p(1)] p(2), folded p(3)] i by (intro exI [of _ i] exI [of _ 1]) simp
qed

text \<open>The contents of a set of blocks stay as they are.\<close>

definition kept :: "(vaddr \<times> nat) set \<Rightarrow> kheap \<Rightarrow> kheap \<Rightarrow> bool" where
  "kept L h h' \<longleftrightarrow> (\<forall>x \<in> L. \<forall>a. unat a \<in> bytes x \<longrightarrow> words h' a = words h a)"

lemma not_bytes_page: "unat a \<notin> bytes (b, PAGE_SIZE) \<longleftrightarrow> \<not> (unat b \<le> unat a \<and> unat a < unat b + PAGE_SIZE)"
  by (auto simp: bytes_def)

lemma new_page_core:
  assumes core: "kheap_core h B A F" and k: "k < NSIZES" and run: "free_run_at (kvm h) B 1 f" and room: "length A < NPAGEREFS"
  shows "\<exists>i s' p ws h2. alloc_kpages (kvm h) 1 = Some (kframe (kvm h) i, s') \<and> kframe (kvm h) i \<noteq> 0 \<and>
     allocpageref (h\<lparr>kvm := s'\<rparr>) = Some (Some p, h\<lparr>kvm := s', pagerefs_inuse := ws\<rparr>) \<and>
     init_page (h\<lparr>kvm := s', pagerefs_inuse := ws\<rparr>) p k (kframe (kvm h) i) = Some h2 \<and>
     p \<notin> set A \<and> btype h2 p = k \<and> B i = None \<and> nframes (kvm h2) = nframes (kvm h) \<and>
     kheap_core h2 (B(i \<mapsto> 1)) (p # A) (F(p := rev [0..<PAGE_SIZE div sizes ! k])) \<and>
     live h2 (B(i \<mapsto> 1)) (p # A) (F(p := rev [0..<PAGE_SIZE div sizes ! k])) = live h B A F \<and>
     kept (live h B A F) h h2 \<and> (\<forall>q \<in> set A. pagerefs h2 ! q = pagerefs h ! q)"
proof -
  note D = kheap_coreD [OF core]
  note L = linkedD [OF D(1)]
  let ?n = "4096 div sizes ! k"
  obtain i s' where s': "alloc_kpages (kvm h) (int 1) = Some (kframe (kvm h) i, s')" "B i = None" "i < nframes (kvm h)"
      "cm_rep s' (B(i \<mapsto> 1))" "nframes s' = nframes (kvm h)" "kframe s' = kframe (kvm h)"
    using alloc_kpages_found [OF D(4) zero_less_one run] by blast
  define b where "b = kframe (kvm h) i"
  note bf = kframe_unat [OF D(4) less_imp_le [OF s'(3)], folded b_def]
  let ?h = "h\<lparr>kvm := s'\<rparr>"
  have wf: "length (pagerefs_inuse ?h) = 8" using D(2) by (simp add: refs_wf_def)
  have ru: "refs_used ?h = set A" using D(3) by (simp add: refs_used_def ref_bit_def)
  have "card (set A) < 256" using room L(3) by (simp add: distinct_card)
  then have ne: "set A \<noteq> {..<256}" by (metis card_lessThan less_irrefl)
  obtain p ws where p: "allocpageref ?h = Some (Some p, ?h\<lparr>pagerefs_inuse := ws\<rparr>)" "p = (LEAST p. p \<notin> set A)" "p < 256"
      "length ws = 8" "refs_used (?h\<lparr>pagerefs_inuse := ws\<rparr>) = insert p (set A)"
    using allocpageref_spec(1) [OF wf, unfolded ru, OF ne] by (elim exE conjE) (rule that)
  have pA: "p \<notin> set A"
    unfolding p(2) using \<open>card (set A) < 256\<close> by (metis LeastI_ex ex_new_if_finite infinite_UNIV_nat List.finite_set)
  let ?h1 = "?h\<lparr>pagerefs_inuse := ws\<rparr>"
  have lk1: "linked ?h1 A" using D(1) by (simp add: linked_def)
  obtain m rs sb where ip: "init_page ?h1 p k b = Some (?h1\<lparr>words := m, pagerefs := rs, sizebases := sb, allbase := Some p\<rparr>)"
     "linked (?h1\<lparr>words := m, pagerefs := rs, sizebases := sb, allbase := Some p\<rparr>) (p # A)"
     "page_rep m (rs ! p) (rev [0..<?n])" "PR_PAGEADDR (rs ! p) = b" "unat (PR_BLOCKTYPE (rs ! p)) = k"
     "\<And>q. q \<noteq> p \<Longrightarrow> rs ! q = pagerefs h ! q"
     "\<And>x. \<not> (unat b \<le> unat x \<and> unat x < unat b + 4096) \<Longrightarrow> m x = words h x"
    using init_page_spec [OF lk1 p(3) pA k bf(2,3)] by auto
  define h2 where "h2 = ?h1\<lparr>words := m, pagerefs := rs, sizebases := sb, allbase := Some p\<rparr>"
  have h2: "words h2 = m" "pagerefs h2 = rs" "kvm h2 = s'" "pagerefs_inuse h2 = ws" by (simp_all add: h2_def)
  have rA: "rs ! q = pagerefs h ! q" if "q \<in> set A" for q using that pA ip(6) [of q] by blast
  have Bi: "(B(i \<mapsto> 1)) i = Some 1" by simp
  have away: "bytes (b, 4096) \<inter> bytes x = {}" if x: "x \<in> live h B A F" for x
  proof -
    obtain j l where j: "B j = Some l" "bytes x \<subseteq> bytes (kframe (kvm h) j, l * 4096)" using live_frame [OF core x] by blast
    then have "j \<noteq> i" "(B(i \<mapsto> 1)) j = Some l" using s'(2) by auto
    then show ?thesis using bytes_frames_disjoint [OF s'(4) Bi, of j l] j(2) unfolding s'(6) b_def by auto
  qed
  have pgs: "PR_PAGEADDR (pagerefs h ! q) \<noteq> b" "bytes (PR_PAGEADDR (pagerefs h ! q), 4096) \<inter> bytes (b, 4096) = {}" if q: "q \<in> set A" for q
  proof -
    obtain j where j: "B j = Some 1" "PR_PAGEADDR (pagerefs h ! q) = kframe (kvm h) j" using D(6) [OF q] by blast
    then have ne: "j \<noteq> i" "(B(i \<mapsto> 1)) j = Some 1" using s'(2) by auto
    then show "bytes (PR_PAGEADDR (pagerefs h ! q), 4096) \<inter> bytes (b, 4096) = {}"
      using bytes_frames_disjoint [OF s'(4) ne(2) Bi] unfolding s'(6) b_def j(2) by simp
    then show "PR_PAGEADDR (pagerefs h ! q) \<noteq> b" by (auto simp: bytes_def)
  qed
  have rep: "page_rep m (pagerefs h ! q) (F q)" if q: "q \<in> set A" for q
  proof -
    note R = page_repD [OF D(5) [OF q]]
    have "free_chain m (PR_PAGEADDR (pagerefs h ! q)) (bsize (pagerefs h ! q)) (F q) =
        free_chain (words h) (PR_PAGEADDR (pagerefs h ! q)) (bsize (pagerefs h ! q)) (F q)"
    proof (rule free_chain_cong, rule ip(7))
      fix j assume "j \<in> set (F q)"
      then have "j < nblocks (pagerefs h ! q)" by (rule R(4))
      note block_addr_in(2) [OF D(5) [OF q] this]
      then have "unat (block (PR_PAGEADDR (pagerefs h ! q)) (bsize (pagerefs h ! q)) j) \<notin> bytes (b, 4096)" using pgs(2) [OF q] by blast
      then show "\<not> (unat b \<le> unat (block (PR_PAGEADDR (pagerefs h ! q)) (bsize (pagerefs h ! q)) j) \<and>
          unat (block (PR_PAGEADDR (pagerefs h ! q)) (bsize (pagerefs h ! q)) j) < unat b + 4096)" by (simp only: not_bytes_page) simp
    qed
    then show ?thesis using D(5) [OF q] by (simp add: page_rep_def)
  qed
  have core2: "kheap_core h2 (B(i \<mapsto> 1)) (p # A) (F(p := rev [0..<?n]))"
    unfolding kheap_core_def h2
  proof (intro conjI ballI)
    show "linked h2 (p # A)" unfolding h2_def by (rule ip(2))
    show "refs_wf h2" "refs_used h2 = set (p # A)"
      using p(4,5) by (simp_all add: refs_wf_def refs_used_def ref_bit_def h2)
    show "cm_rep s' (B(i \<mapsto> 1))" by (rule s'(4))
    show "page_rep m (rs ! q) ((F(p := rev [0..<?n])) q)" if "q \<in> set (p # A)" for q
      using that rep [of q] ip(3) rA [of q] by (cases "q = p") auto
    show "\<exists>j. (B(i \<mapsto> 1)) j = Some 1 \<and> PR_PAGEADDR (rs ! q) = kframe s' j" if q: "q \<in> set (p # A)" for q
    proof (cases "q = p")
      case True
      then show ?thesis using ip(4) by (intro exI [of _ i]) (simp add: s'(6) b_def)
    next
      case False
      then have qA: "q \<in> set A" using q by simp
      obtain j where j: "B j = Some 1" "PR_PAGEADDR (pagerefs h ! q) = kframe (kvm h) j" using D(6) [OF qA] by blast
      then have "j \<noteq> i" using s'(2) by auto
      then show ?thesis using j rA [OF qA] by (intro exI [of _ j]) (simp add: s'(6))
    qed
    have "inj_on (\<lambda>p. PR_PAGEADDR (rs ! p)) (set A)"
      using D(7) by (intro inj_onI) (simp add: rA)
    moreover have "PR_PAGEADDR (rs ! p) \<notin> (\<lambda>p. PR_PAGEADDR (rs ! p)) ` set A" using pgs(1) rA ip(4) by force
    ultimately show "inj_on (\<lambda>p. PR_PAGEADDR (rs ! p)) (set (p # A))" using pA by simp
  qed
  have "page_blocks (rs ! p) (rev [0..<?n]) = {}" using ip(5) by (auto simp: page_blocks_def)
  moreover have "(\<Union>q \<in> set A. page_blocks (rs ! q) ((F(p := rev [0..<?n])) q)) = subpage_live h A F"
    unfolding subpage_live_def by (rule SUP_cong [OF refl]) (use rA pA in auto)
  ultimately have sl: "subpage_live h2 (p # A) (F(p := rev [0..<?n])) = subpage_live h A F"
    by (simp add: subpage_live_def h2)
  have im: "(\<lambda>p. PR_PAGEADDR (rs ! p)) ` set (p # A) = insert b ((\<lambda>p. PR_PAGEADDR (pagerefs h ! p)) ` set A)"
    using rA ip(4) by simp
  have ne: "kframe (kvm h) j \<noteq> b" if "B j = Some l" for j l
  proof -
    have "j \<noteq> i" "(B(i \<mapsto> 1)) j = Some l" using that s'(2) by auto
    then show ?thesis using kframe_inj [OF s'(4) _ Bi, of j l] unfolding s'(6) b_def by blast
  qed
  have pl: "page_live h2 (B(i \<mapsto> 1)) (p # A) = page_live h B A"
  proof (rule set_eqI, rule iffI)
    fix x assume "x \<in> page_live h2 (B(i \<mapsto> 1)) (p # A)"
    then obtain j l where "(B(i \<mapsto> 1)) j = Some l" "x = (kframe (kvm h) j, l * 4096)"
        "kframe (kvm h) j \<noteq> b" "kframe (kvm h) j \<notin> (\<lambda>p. PR_PAGEADDR (pagerefs h ! p)) ` set A"
      unfolding page_live_def h2 im s'(6) by blast
    moreover from this have "j \<noteq> i" by (auto simp: b_def)
    ultimately show "x \<in> page_live h B A" unfolding page_live_def by auto
  next
    fix x assume "x \<in> page_live h B A"
    then obtain j l where j: "B j = Some l" "x = (kframe (kvm h) j, l * 4096)"
        "kframe (kvm h) j \<notin> (\<lambda>p. PR_PAGEADDR (pagerefs h ! p)) ` set A"
      unfolding page_live_def by blast
    moreover have "j \<noteq> i" using j(1) s'(2) by auto
    ultimately show "x \<in> page_live h2 (B(i \<mapsto> 1)) (p # A)" using ne [OF j(1)] unfolding page_live_def h2 im s'(6) by auto
  qed
  have "kept (live h B A F) h h2"
    unfolding kept_def
  proof (intro ballI allI impI)
    fix x and a :: u32 assume "x \<in> live h B A F" "unat a \<in> bytes x"
    then have "unat a \<notin> bytes (b, 4096)" using away by blast
    then show "words h2 a = words h a" unfolding not_bytes_page h2 by (rule ip(7))
  qed
  moreover have "live h2 (B(i \<mapsto> 1)) (p # A) (F(p := rev [0..<?n])) = live h B A F" unfolding live_def sl pl ..
  moreover have "init_page (h\<lparr>kvm := s', pagerefs_inuse := ws\<rparr>) p k b = Some h2" using ip(1) by (simp add: h2_def)
  ultimately show ?thesis
    using s'(1,2,5) p(1) pA core2 ip(5) bf(3) rA h2 unfolding b_def
    by (intro exI [of _ i] exI [of _ s'] exI [of _ p] exI [of _ ws] exI [of _ h2] conjI) simp_all
qed
lemma find_samesize_inv:
  assumes "kheap_core h B A F" "k < NSIZES"
  shows "find_samesize h k (sizebases h ! k) = Some (List.find (\<lambda>p. btype h p = k \<and> F p \<noteq> []) A)"
proof -
  note D = kheap_coreD [OF assms(1)]
  note L = linkedD [OF D(1)]
  let ?ps = "filter (\<lambda>p. btype h p = k) A"
  have "find_samesize h k (sizebases h ! k) = Some (List.find (\<lambda>p. nfree (pagerefs h ! p) > 0) ?ps)"
    using L(1,4) by (intro find_samesize_links L(6) [OF assms(2)]) auto
  also have "List.find (\<lambda>p. nfree (pagerefs h ! p) > 0) ?ps = List.find (\<lambda>p. F p \<noteq> []) ?ps"
  proof (rule find_cong [OF refl])
    fix p assume "p \<in> set ?ps"
    then have "unat (nfree (pagerefs h ! p)) = length (F p)" using page_repD(5) [OF D(5)] by simp
    then show "(nfree (pagerefs h ! p) > 0) = (F p \<noteq> [])" by (metis length_0_conv unat_eq_zero unat_gt_0 word_gt_0)
  qed
  also have "\<dots> = List.find (\<lambda>p. btype h p = k \<and> F p \<noteq> []) A" by (induction A) simp_all
  finally show ?thesis .
qed

lemma find_props: "List.find P xs = Some p \<Longrightarrow> p \<in> set xs \<and> P p"
  by (auto simp: find_Some_iff)

text \<open>What an allocation of a block of \<open>n\<close> bytes at \<open>a\<close> has done.\<close>

definition allocated :: "kheap \<Rightarrow> blocks \<Rightarrow> nat list \<Rightarrow> (nat \<Rightarrow> nat list) \<Rightarrow> vaddr \<Rightarrow> nat \<Rightarrow>
    kheap \<Rightarrow> blocks \<Rightarrow> nat list \<Rightarrow> (nat \<Rightarrow> nat list) \<Rightarrow> bool" where
  "allocated h B A F a n h' B' A' F' \<longleftrightarrow>
     kheap_inv h' B' A' F' \<and> live h' B' A' F' = insert (a, n) (live h B A F) \<and> (a, n) \<notin> live h B A F \<and>
     kept (live h B A F) h h' \<and> a \<noteq> 0 \<and> unat a mod 16 = 0 \<and> nframes (kvm h') = nframes (kvm h)"

lemma kept_refl: "words h' = words h \<Longrightarrow> kept L h h'"
  by (simp add: kept_def)

lemma kept_words: "kept L h h' \<Longrightarrow> words h'' = words h' \<Longrightarrow> kept L h h''"
  by (simp add: kept_def)

lemma doalloc_allocated:
  assumes inv: "kheap_core h B A F" and p: "p \<in> set A" and F: "F p = j # js"
    and others: "\<And>q. q \<in> set A \<Longrightarrow> q \<noteq> p \<Longrightarrow> length (F q) < nblocks (pagerefs h ! q)"
    and base: "live h B A F = live h0 B0 A0 F0" "kept (live h0 B0 A0 F0) h0 h" "nframes (kvm h) = nframes (kvm h0)"
  shows "\<exists>a h'. doalloc h p = Some (a, h') \<and> allocated h0 B0 A0 F0 a (bsize (pagerefs h ! p)) h' B A (F(p := js))"
proof -
  note D = kheap_coreD [OF inv]
  note R = page_repD [OF D(5) [OF p], unfolded F]
  let ?r = "pagerefs h ! p"
  let ?a = "block (PR_PAGEADDR ?r) (bsize ?r) j"
  obtain h' where h': "doalloc h p = Some (?a, h')" "kheap_core h' B A (F(p := js))" "words h' = words h"
     "\<And>q. PR_BLOCKTYPE (pagerefs h' ! q) = PR_BLOCKTYPE (pagerefs h ! q)"
     "live h' B A (F(p := js)) = insert (?a, bsize ?r) (live h B A F)" "(?a, bsize ?r) \<notin> live h B A F"
    using doalloc_core [OF inv p F] by blast
  have kv: "kvm h' = kvm h"
    using h'(1) by (auto simp: doalloc_def option_bind_Some_iff set_pageref_def Let_def split: if_splits)
  have j: "j < nblocks ?r" using R(4) by simp
  have "card (set (j # js)) \<le> card {..<nblocks ?r}" using R(4) by (intro card_mono) auto
  then have "length js < nblocks ?r" using R(3) by (simp add: distinct_card)
  then have "kheap_inv h' B A (F(p := js))" using h'(2,4) others by (auto simp: kheap_inv_def)
  moreover have "?a \<noteq> 0" by (rule block_nonzero [OF PR_PAGEADDR_aligned R(2) R(1) j])
  moreover have "unat ?a mod 16 = 0" by (rule block_aligned(1) [OF PR_PAGEADDR_aligned R(1) j])
  moreover have "kept (live h0 B0 A0 F0) h0 h'" by (rule kept_words [OF base(2) h'(3)])
  ultimately show ?thesis using h'(1,5,6) base(1,3) kv unfolding allocated_def by (intro exI [of _ ?a] exI [of _ h']) simp
qed

lemma subpage_kmalloc_ok:
  assumes inv: "kheap_inv h B A F" and sz: "blocktype sz = Some k" "k < NSIZES"
    and room: "(\<exists>p \<in> set A. btype h p = k \<and> F p \<noteq> []) \<or> (\<exists>f. free_run_at (kvm h) B 1 f) \<and> length A < NPAGEREFS"
  shows "\<exists>a h' B' A' F'. subpage_kmalloc h sz = Some (a, h') \<and> allocated h B A F a (sizes ! k) h' B' A' F' \<and>
    (A' = A \<and> B' = B \<or> (\<exists>p i. A' = p # A \<and> B' = B(i \<mapsto> 1) \<and> B i = None))"
proof -
  have core: "kheap_core h B A F" and nf: "\<And>p. p \<in> set A \<Longrightarrow> length (F p) < nblocks (pagerefs h ! p)"
    using inv by (auto simp: kheap_inv_def)
  note D = kheap_coreD [OF core]
  have sb: "idx (sizebases h) k = Some (sizebases h ! k)" using linkedD(2) [OF D(1)] sz(2) by simp
  note fs = find_samesize_inv [OF core sz(2)]
  show ?thesis
  proof (cases "List.find (\<lambda>p. btype h p = k \<and> F p \<noteq> []) A")
    case (Some p)
    then have p: "p \<in> set A" "btype h p = k" "F p \<noteq> []" using find_props by fastforce+
    then obtain j js where F: "F p = j # js" by (cases "F p") auto
    have "subpage_kmalloc h sz = doalloc h p" using sz(1) sb fs Some by (simp add: subpage_kmalloc_def)
    moreover obtain a h' where "doalloc h p = Some (a, h')" "allocated h B A F a (bsize (pagerefs h ! p)) h' B A (F(p := js))"
      using doalloc_allocated [OF core p(1) F nf refl kept_refl [OF refl] refl] by auto
    ultimately show ?thesis using p(2) by (intro exI [of _ a] exI [of _ h'] exI [of _ B] exI [of _ A] exI [of _ "F(p := js)"]) simp
  next
    case None
    then have "\<not> (\<exists>p \<in> set A. btype h p = k \<and> F p \<noteq> [])" by (auto simp: find_None_iff)
    then obtain f where "free_run_at (kvm h) B 1 f" "length A < 256" using room by blast
    from new_page_core [OF core sz(2) this] obtain i s' p ws h2 where n:
      "alloc_kpages (kvm h) 1 = Some (kframe (kvm h) i, s')" "kframe (kvm h) i \<noteq> 0"
      "allocpageref (h\<lparr>kvm := s'\<rparr>) = Some (Some p, h\<lparr>kvm := s', pagerefs_inuse := ws\<rparr>)"
      "init_page (h\<lparr>kvm := s', pagerefs_inuse := ws\<rparr>) p k (kframe (kvm h) i) = Some h2"
      "p \<notin> set A" "btype h2 p = k" "B i = None" "nframes (kvm h2) = nframes (kvm h)"
      "kheap_core h2 (B(i \<mapsto> 1)) (p # A) (F(p := rev [0..<PAGE_SIZE div sizes ! k]))"
      "live h2 (B(i \<mapsto> 1)) (p # A) (F(p := rev [0..<PAGE_SIZE div sizes ! k])) = live h B A F"
      "kept (live h B A F) h h2" "\<forall>q \<in> set A. pagerefs h2 ! q = pagerefs h ! q"
      by blast
    let ?n = "4096 div sizes ! k"
    let ?F = "F(p := rev [0..<?n])"
    have "rev [0..<?n] = (?n - 1) # rev [0..<?n - 1]" using sizes_facts(5) [OF sz(2)] by (cases ?n) simp_all
    then have F: "?F p = (?n - 1) # rev [0..<?n - 1]" by simp
    have oth: "length (?F q) < nblocks (pagerefs h2 ! q)" if "q \<in> set (p # A)" "q \<noteq> p" for q
      using that n(12) nf by simp
    have "subpage_kmalloc h sz = doalloc h2 p" using sz(1) sb fs None n(1-4) by (simp add: subpage_kmalloc_def)
    moreover obtain a h' where "doalloc h2 p = Some (a, h')"
        "allocated h B A F a (bsize (pagerefs h2 ! p)) h' (B(i \<mapsto> 1)) (p # A) (?F(p := rev [0..<?n - 1]))"
      using doalloc_allocated [OF n(9) _ F oth n(10,11,8)] by auto
    ultimately show ?thesis using n(6,7)
      by (intro exI [of _ a] exI [of _ h'] exI [of _ "B(i \<mapsto> 1)"] exI [of _ "p # A"] exI [of _ "?F(p := rev [0..<?n - 1])"])
         (simp del: fun_upd_upd, blast)
  qed
qed

section \<open>Release\<close>

lemma in_page_bytes:
  assumes "kheap_core h B A F" "q \<in> set A"
  shows "in_page a (pagerefs h ! q) \<longleftrightarrow> unat a \<in> bytes (PR_PAGEADDR (pagerefs h ! q), PAGE_SIZE)"
proof -
  note D = kheap_coreD [OF assms(1)]
  obtain i where i: "B i = Some 1" "PR_PAGEADDR (pagerefs h ! q) = kframe (kvm h) i" using D(6) [OF assms(2)] by blast
  note K = kframe_unat [OF D(4) block_frames(2) [OF D(4) i(1)]]
  have "unat (kframe (kvm h) i + 4096) = unat (kframe (kvm h) i) + 4096"
    using K(4) by (simp add: unat_word_ariths)
  then show ?thesis unfolding in_page_def i(2) by (simp add: bytes_def word_le_nat_alt word_less_nat_alt)
qed

lemma find_page_inv:
  assumes core: "kheap_core h B A F"
  shows "find_page h a (allbase h) =
    Some (List.find (\<lambda>q. unat a \<in> bytes (PR_PAGEADDR (pagerefs h ! q), PAGE_SIZE)) A)"
proof -
  note D = kheap_coreD [OF core]
  note L = linkedD [OF D(1)]
  have "find_page h a (allbase h) = Some (List.find (\<lambda>p. in_page a (pagerefs h ! p)) A)"
  proof (rule find_page_links [OF L(5)])
    fix p assume p: "p \<in> set A"
    show "p < length (pagerefs h) \<and> btype h p < 8" using L(1) L(4) [OF p] page_repD(1) [OF D(5) [OF p]] by simp
  qed
  also have "List.find (\<lambda>p. in_page a (pagerefs h ! p)) A =
      List.find (\<lambda>q. unat a \<in> bytes (PR_PAGEADDR (pagerefs h ! q), PAGE_SIZE)) A"
    by (rule find_cong [OF refl]) (rule in_page_bytes [OF core])
  finally show ?thesis .
qed

lemma find_unique:
  assumes "p \<in> set xs" "P p" "\<And>q. q \<in> set xs \<Longrightarrow> P q \<Longrightarrow> q = p"
  shows "List.find P xs = Some p"
proof (cases "List.find P xs")
  case None
  then show ?thesis using assms(1,2) by (auto simp: find_None_iff)
next
  case (Some q)
  then show ?thesis using find_props [OF Some] assms(3) [of q] by blast
qed

text \<open>Putting a block back at the head of the free list of its page.\<close>

lemma free_block_core:
  assumes core: "kheap_core h B A F" and p: "p \<in> set A" and j: "j < nblocks (pagerefs h ! p)" "j \<notin> set (F p)"
    and r: "r = pagerefs h ! p" and a: "a = block (PR_PAGEADDR r) (bsize r) j"
  shows "\<exists>h1 m h3. fill_deadbeef h a (bsize r) = Some h1 \<and>
     store_word h1 (PR_PAGEADDR r + (a - PR_PAGEADDR r))
       (if freelist_offset r = INVALID_OFFSET then 0 else PR_PAGEADDR r + ucast (freelist_offset r)) = Some (h\<lparr>words := m\<rparr>) \<and>
     set_pageref (h\<lparr>words := m\<rparr>) p (r\<lparr>freelist_offset := ucast (a - PR_PAGEADDR r), nfree := nfree r + 1\<rparr>) = Some h3 \<and>
     unat (nfree r + 1) = length (j # F p) \<and>
     kheap_core h3 B A (F(p := j # F p)) \<and> live h3 B A (F(p := j # F p)) = live h B A F - {(a, bsize r)} \<and>
     (a, bsize r) \<in> live h B A F \<and> kept (live h B A F - {(a, bsize r)}) h h3 \<and> kvm h3 = kvm h \<and>
     (\<forall>q. pageaddr_and_blocktype (pagerefs h3 ! q) = pageaddr_and_blocktype (pagerefs h ! q))"
proof -
  note D = kheap_coreD [OF core]
  note L = linkedD [OF D(1)]
  have rep: "page_rep (words h) r (F p)" using D(5) [OF p] r by simp
  note R = page_repD [OF rep]
  have jn: "j < nblocks r" using j(1) r by simp
  have pl: "p < 256" "p < length (pagerefs h)" using L(1,4) p by simp_all
  note b = PR_PAGEADDR_aligned [of r]
  note BO = block_offset [OF b R(1) jn, folded a]
  obtain m1 where m1: "fill_deadbeef h a (bsize r) = Some (h\<lparr>words := m1\<rparr>)"
      "\<forall>x. \<not> (unat a \<le> unat x \<and> unat x < unat a + bsize r) \<longrightarrow> m1 x = words h x"
    using fill_deadbeef_spec [OF b R(1) jn, of h, folded a] by blast
  define link where "link = (if freelist_offset r = INVALID_OFFSET then 0 else PR_PAGEADDR r + ucast (freelist_offset r))"
  define m where "m = m1(a := link)"
  have ain: "unat a \<in> bytes (a, bsize r)" using block_addr_in(1) [OF rep jn] a by simp
  have mout: "m x = words h x" if "unat x \<notin> bytes (a, bsize r)" for x
  proof -
    have "x \<noteq> a" using that ain by auto
    then show ?thesis using m1(2) that by (simp add: m_def bytes_def)
  qed
  have "unat a mod 4 = 0" unfolding a by (rule block_aligned(2) [OF b R(1) jn])
  then have st: "store_word (h\<lparr>words := m1\<rparr>) (PR_PAGEADDR r + (a - PR_PAGEADDR r)) link = Some (h\<lparr>words := m\<rparr>)"
    by (simp add: store_word_def m_def)
  have link: "link = (case F p of [] \<Rightarrow> 0 | i # _ \<Rightarrow> block (PR_PAGEADDR r) (bsize r) i)"
  proof (cases "F p")
    case Nil
    then show ?thesis using R(7) by (simp add: link_def)
  next
    case (Cons i js)
    have i: "i < nblocks r" using R(4) Cons by simp
    note BI = block_offset [OF b R(1) i]
    have "unat (of_nat (i * bsize r) :: u16) < 4096"
      unfolding BI(4) using block_less [OF R(1) i] sizes_facts(2) [OF R(1)] by simp
    then have "(of_nat (i * bsize r) :: u16) \<noteq> INVALID_OFFSET" by (auto simp del: of_nat_mult)
    then show ?thesis using R(8) Cons BI(5) by (simp add: link_def del: of_nat_mult)
  qed
  define r' where "r' = r\<lparr>freelist_offset := ucast (a - PR_PAGEADDR r), nfree := nfree r + 1\<rparr>"
  have same: "same_page r r'" by (simp add: same_page_def r'_def)
  note SP = same_pageD [OF same]
  have "set (F p) \<subseteq> {..<nblocks r}" using R(4) by auto
  then have "length (F p) \<le> nblocks r" using R(3) card_mono [of "{..<nblocks r}" "set (F p)"] by (simp add: distinct_card)
  then have "length (F p) \<le> 256" using sizes_facts(6) [OF R(1)] by simp
  then have n: "unat (nfree r + 1) = length (j # F p)" using R(5) by (simp add: unat_word_ariths)
  have fcm: "free_chain m (PR_PAGEADDR r) (bsize r) (F p) = free_chain (words h) (PR_PAGEADDR r) (bsize r) (F p)"
  proof (rule free_chain_cong, rule mout)
    fix i assume i: "i \<in> set (F p)"
    then have "i < nblocks r" "i \<noteq> j" using R(4) j by auto
    then show "unat (block (PR_PAGEADDR r) (bsize r) i) \<notin> bytes (a, bsize r)"
      using block_bytes(2) [OF rep jn, of i] block_addr_in(1) [OF rep, of i] unfolding a by blast
  qed
  have rep': "page_rep m r' (j # F p)"
    unfolding page_rep_def SP(3,4)
  proof (intro conjI)
    show "unat (PR_BLOCKTYPE r) < 8" "PR_PAGEADDR r \<noteq> 0" by (rule R(1), rule R(2))
    show "distinct (j # F p)" "set (j # F p) \<subseteq> {..<nblocks r}" using R(3,4) j(2) jn by auto
    show "unat (nfree r') = length (j # F p)" using n by (simp add: r'_def)
    show "freelist_offset r' = (if j # F p = [] then INVALID_OFFSET else of_nat (hd (j # F p) * bsize r))"
      using BO(3) by (simp add: r'_def del: of_nat_mult)
    have "m a = link" by (simp add: m_def)
    then show "free_chain m (PR_PAGEADDR r) (bsize r) (j # F p)"
      using fcm R(6) link unfolding a by (cases "F p") simp_all
  qed
  define h3 where "h3 = h\<lparr>words := m, pagerefs := (pagerefs h)[p := r']\<rparr>"
  have sp: "set_pageref (h\<lparr>words := m\<rparr>) p r' = Some h3" using pl by (simp add: set_pageref_def h3_def)
  have h3: "words h3 = m" "kvm h3 = kvm h" "pagerefs h3 ! p = r'" "\<And>q. q \<noteq> p \<Longrightarrow> pagerefs h3 ! q = pagerefs h ! q"
    "pagerefs_inuse h3 = pagerefs_inuse h" using pl by (simp_all add: h3_def)
  have pab: "pageaddr_and_blocktype (pagerefs h3 ! q) = pageaddr_and_blocktype (pagerefs h ! q)" for q
    using h3(3,4) r by (cases "q = p") (simp_all add: r'_def)
  then have P: "PR_PAGEADDR (pagerefs h3 ! q) = PR_PAGEADDR (pagerefs h ! q)" "PR_BLOCKTYPE (pagerefs h3 ! q) = PR_BLOCKTYPE (pagerefs h ! q)"
    for q by (simp_all add: PR_PAGEADDR_def PR_BLOCKTYPE_def)
  have core3: "kheap_core h3 B A (F(p := j # F p))"
    unfolding kheap_core_def
  proof (intro conjI ballI)
    have "linked (h\<lparr>words := m\<rparr>) A" using D(1) by (simp add: linked_def)
    from linked_same_page [OF this pl(1), of r'] same r show "linked h3 A" by (simp add: h3_def)
    show "refs_wf h3" "refs_used h3 = set A" using D(2,3) by (simp_all add: refs_wf_def refs_used_def ref_bit_def h3(5))
    show "cm_rep (kvm h3) B" unfolding h3(2) by (rule D(4))
    show "\<exists>i. B i = Some 1 \<and> PR_PAGEADDR (pagerefs h3 ! q) = kframe (kvm h3) i" if "q \<in> set A" for q
      using D(6) [OF that] unfolding P h3 .
    show "inj_on (\<lambda>p. PR_PAGEADDR (pagerefs h3 ! p)) (set A)" unfolding P using D(7) by (auto intro: inj_onI)
    show "page_rep (words h3) (pagerefs h3 ! q) ((F(p := j # F p)) q)" if q: "q \<in> set A" for q
    proof (cases "q = p")
      case True
      then show ?thesis using rep' h3 by simp
    next
      case False
      have "free_chain m (PR_PAGEADDR (pagerefs h ! q)) (bsize (pagerefs h ! q)) (F q) =
          free_chain (words h) (PR_PAGEADDR (pagerefs h ! q)) (bsize (pagerefs h ! q)) (F q)"
      proof (rule free_chain_cong, rule mout)
        fix i assume "i \<in> set (F q)"
        then have i: "i < nblocks (pagerefs h ! q)" by (rule page_repD(4) [OF D(5) [OF q]])
        show "unat (block (PR_PAGEADDR (pagerefs h ! q)) (bsize (pagerefs h ! q)) i) \<notin> bytes (a, bsize r)"
          using page_bytes_disjoint [OF core q p False] block_addr_in(2) [OF D(5) [OF q] i] block_bytes(1) [OF rep jn] unfolding a r by blast
      qed
      then have "page_rep m (pagerefs h ! q) (F q)" using D(5) [OF q] by (simp add: page_rep_def)
      then show ?thesis using False h3(1,4) by simp
    qed
  qed
  have "live h B A F = insert (a, bsize r) (live h3 B A (F(p := j # F p)))"
  proof -
    have "subpage_live h3 A (F(p := j # F p)) = subpage_live h A (F(p := j # F p))" by (rule subpage_live_cong(1)) (rule pab)
    moreover have "subpage_live h A F = insert (a, bsize r) (subpage_live h A (F(p := j # F p)))"
      unfolding subpage_live_upd(1) [OF p] subpage_live_upd(2) [OF p, of h F] page_blocks_take [OF j] a r by simp
    moreover have "page_live h3 B A = page_live h B A" unfolding page_live_def P h3 ..
    ultimately show ?thesis by (simp add: live_def)
  qed
  moreover have "(a, bsize r) \<notin> live h3 B A (F(p := j # F p))"
    using free_not_live [OF core3 p, of j] unfolding P a r by simp
  ultimately have lv: "live h3 B A (F(p := j # F p)) = live h B A F - {(a, bsize r)}" "(a, bsize r) \<in> live h B A F" by auto
  have "kept (live h B A F - {(a, bsize r)}) h h3"
    unfolding kept_def
  proof (intro ballI allI impI)
    fix x and c :: u32 assume x: "x \<in> live h B A F - {(a, bsize r)}" "unat c \<in> bytes x"
    then have "bytes x \<inter> bytes (a, bsize r) = {}" using live_disjoint [OF core _ lv(2), of x] by blast
    then show "words h3 c = words h c" using x(2) unfolding h3(1) by (intro mout) blast
  qed
  then show ?thesis using m1(1) st sp n core3 lv h3(2) pab unfolding r'_def link_def by blast
qed
text \<open>Giving an entirely free page back.\<close>

lemma drop_page_core:
  assumes core: "kheap_core h B A F" and p: "p \<in> set A" and all: "{..<nblocks (pagerefs h ! p)} \<subseteq> set (F p)"
  shows "\<exists>h4 h5 s' i. remove_lists h p (btype h p) = Some h4 \<and> freepageref h4 p = Some h5 \<and>
     free_kpages (kvm h5) (PR_PAGEADDR (pagerefs h ! p)) = Some s' \<and>
     kheap_core (h5\<lparr>kvm := s'\<rparr>) (B(i := None)) (remove1 p A) F \<and>
     live (h5\<lparr>kvm := s'\<rparr>) (B(i := None)) (remove1 p A) F = live h B A F \<and> words h5 = words h \<and>
     B i = Some 1 \<and> nframes s' = nframes (kvm h) \<and>
     (\<forall>q. PR_BLOCKTYPE (pagerefs h5 ! q) = PR_BLOCKTYPE (pagerefs h ! q))"
proof -
  note D = kheap_coreD [OF core]
  note L = linkedD [OF D(1)]
  note R = page_repD [OF D(5) [OF p]]
  let ?A = "remove1 p A"
  have A': "set ?A = set A - {p}" using L(3) by (rule set_remove1_eq)
  obtain i where i: "B i = Some 1" "PR_PAGEADDR (pagerefs h ! p) = kframe (kvm h) i" using D(6) [OF p] by blast
  obtain rs sb ab where rl: "remove_lists h p (btype h p) = Some (h\<lparr>pagerefs := rs, sizebases := sb, allbase := ab\<rparr>)"
     "\<And>q. payload (rs ! q) = payload (pagerefs h ! q)" "linked (h\<lparr>pagerefs := rs, sizebases := sb, allbase := ab\<rparr>) ?A"
    using remove_lists_spec [OF D(1) p refl R(1)] by blast
  define h4 where "h4 = h\<lparr>pagerefs := rs, sizebases := sb, allbase := ab\<rparr>"
  have ru: "refs_used h4 = set A" "length (pagerefs_inuse h4) = 8"
    using D(2,3) by (simp_all add: h4_def refs_used_def ref_bit_def refs_wf_def)
  then obtain ws where ws: "freepageref h4 p = Some (h4\<lparr>pagerefs_inuse := ws\<rparr>)" "length ws = 8"
      "refs_used (h4\<lparr>pagerefs_inuse := ws\<rparr>) = set A - {p}"
    using freepageref_spec [of h4 p] p by auto
  obtain s' where s': "free_kpages (kvm h) (kframe (kvm h) i) = Some s'" "cm_rep s' (B(i := None))"
      "nframes s' = nframes (kvm h)" "frame_addr s' = frame_addr (kvm h)"
    using free_kpages_rep [OF D(4) i(1)] unfolding kframe_def by blast
  have kf: "kframe s' = kframe (kvm h)" using s'(4) by (simp add: kframe_def fun_eq_iff)
  define h5 where "h5 = h4\<lparr>pagerefs_inuse := ws\<rparr>"
  define h6 where "h6 = h5\<lparr>kvm := s'\<rparr>"
  have h6: "words h6 = words h" "pagerefs h6 = rs" "kvm h6 = s'" "pagerefs_inuse h6 = ws" "kvm h5 = kvm h" "pagerefs h5 = rs"
      "words h5 = words h" by (simp_all add: h6_def h5_def h4_def)
  note P = payloadD [OF rl(2)]
  have other: "kframe (kvm h) j \<noteq> PR_PAGEADDR (pagerefs h ! p)" if "B j = Some l" "j \<noteq> i" for j l
    using kframe_inj [OF D(4) that(1) i(1)] that(2) i(2) by auto
  have core6: "kheap_core h6 (B(i := None)) ?A F"
    unfolding kheap_core_def h6 A'
  proof (intro conjI ballI)
    show "linked h6 ?A" using rl(3) by (simp add: linked_def h6_def h5_def h4_def)
    show "refs_wf h6" "refs_used h6 = set A - {p}"
      using ws(2,3) by (simp_all add: refs_wf_def refs_used_def ref_bit_def h6_def h5_def)
    show "cm_rep s' (B(i := None))" by (rule s'(2))
    show "page_rep (words h) (rs ! q) (F q)" if "q \<in> set A - {p}" for q
      unfolding P(3) using D(5) that by blast
    show "\<exists>j. (B(i := None)) j = Some 1 \<and> PR_PAGEADDR (rs ! q) = kframe s' j" if q: "q \<in> set A - {p}" for q
    proof -
      have qA: "q \<in> set A" "q \<noteq> p" using q by auto
      obtain j where j: "B j = Some 1" "PR_PAGEADDR (pagerefs h ! q) = kframe (kvm h) j" using D(6) [OF qA(1)] by blast
      have "j \<noteq> i" using D(7) [OF qA(1) p] qA(2) i(2) j(2) by auto
      then show ?thesis using j by (intro exI [of _ j]) (simp add: P(1) kf)
    qed
    show "inj_on (\<lambda>p. PR_PAGEADDR (rs ! p)) (set A - {p})" unfolding P(1) using D(7) by (auto intro!: inj_onI)
  qed
  have "page_blocks (pagerefs h ! p) (F p) = {}" using all by (auto simp: page_blocks_def)
  then have "subpage_live h A F = (\<Union>q \<in> set A - {p}. page_blocks (pagerefs h ! q) (F q))"
    using subpage_live_upd(2) [OF p, of h F] by simp
  moreover have "page_blocks (rs ! q) js = page_blocks (pagerefs h ! q) js" for q js by (simp add: page_blocks_def P)
  ultimately have sl: "subpage_live h6 ?A F = subpage_live h A F" by (simp add: subpage_live_def [of h6] h6 A')
  have im: "(\<lambda>p. PR_PAGEADDR (pagerefs h ! p)) ` set A = insert (PR_PAGEADDR (pagerefs h ! p)) ((\<lambda>p. PR_PAGEADDR (rs ! p)) ` (set A - {p}))"
    unfolding P(1) using p by blast
  have pl: "page_live h6 (B(i := None)) ?A = page_live h B A"
  proof (rule set_eqI, rule iffI)
    fix x assume "x \<in> page_live h6 (B(i := None)) ?A"
    then obtain j l where j: "(B(i := None)) j = Some l" "x = (kframe (kvm h) j, l * 4096)"
        "kframe (kvm h) j \<notin> (\<lambda>p. PR_PAGEADDR (rs ! p)) ` (set A - {p})"
      unfolding page_live_def h6 A' kf by blast
    then have b: "B j = Some l" "j \<noteq> i" by (auto split: if_splits)
    have "kframe (kvm h) j \<notin> (\<lambda>p. PR_PAGEADDR (pagerefs h ! p)) ` set A"
      unfolding im insert_iff using j(3) other [OF b] by blast
    then show "x \<in> page_live h B A" unfolding page_live_def using j(2) b(1) by blast
  next
    fix x assume "x \<in> page_live h B A"
    then obtain j l where j: "B j = Some l" "x = (kframe (kvm h) j, l * 4096)"
        "kframe (kvm h) j \<notin> (\<lambda>p. PR_PAGEADDR (pagerefs h ! p)) ` set A"
      unfolding page_live_def by blast
    have "j \<noteq> i" using j(3) i(2) unfolding im by auto
    then have "(B(i := None)) j = Some l" using j(1) by simp
    moreover have "kframe (kvm h) j \<notin> (\<lambda>p. PR_PAGEADDR (rs ! p)) ` (set A - {p})" using j(3) unfolding im by blast
    ultimately show "x \<in> page_live h6 (B(i := None)) ?A" unfolding page_live_def h6 A' kf using j(2) by blast
  qed
  show ?thesis
    using rl(1) ws(1) s'(1,3) core6 sl pl i P(2) h6(5-7) unfolding h6_def [symmetric]
    by (intro exI [of _ h4] exI [of _ h5] exI [of _ s'] exI [of _ i]) (simp add: h4_def [symmetric] h5_def [symmetric] h6_def [symmetric] live_def)
qed

text \<open>What a release of the block of \<open>n\<close> bytes at \<open>a\<close> has done.\<close>

definition released :: "kheap \<Rightarrow> blocks \<Rightarrow> nat list \<Rightarrow> (nat \<Rightarrow> nat list) \<Rightarrow> vaddr \<Rightarrow> nat \<Rightarrow>
    kheap \<Rightarrow> blocks \<Rightarrow> nat list \<Rightarrow> (nat \<Rightarrow> nat list) \<Rightarrow> bool" where
  "released h B A F a n h' B' A' F' \<longleftrightarrow>
     kheap_inv h' B' A' F' \<and> live h' B' A' F' = live h B A F - {(a, n)} \<and>
     kept (live h B A F - {(a, n)}) h h' \<and> nframes (kvm h') = nframes (kvm h) \<and>
     length A' \<le> length A \<and> frames B' \<subseteq> frames B"

lemma frames_drop: "frames (B(i := None)) \<subseteq> frames B"
  by (auto simp: frames_def split: if_splits)

lemma subpage_kfree_ok:
  assumes inv: "kheap_inv h B A F" and x: "(a, n) \<in> subpage_live h A F"
  shows "\<exists>h' B' A' F'. subpage_kfree h a = Some (0, h') \<and> released h B A F a n h' B' A' F'"
proof -
  have core: "kheap_core h B A F" and nf: "\<And>p. p \<in> set A \<Longrightarrow> length (F p) < nblocks (pagerefs h ! p)"
    using inv by (auto simp: kheap_inv_def)
  note D = kheap_coreD [OF core]
  note L = linkedD [OF D(1)]
  obtain p j where p: "p \<in> set A" "j < nblocks (pagerefs h ! p)" "j \<notin> set (F p)"
      and an: "a = block (PR_PAGEADDR (pagerefs h ! p)) (bsize (pagerefs h ! p)) j" "n = bsize (pagerefs h ! p)"
    using x by (elim subpage_liveE) auto
  define r where "r = pagerefs h ! p"
  note R = page_repD [OF D(5) [OF p(1)], folded r_def]
  note b = PR_PAGEADDR_aligned [of r]
  have jn: "j < nblocks r" using p(2) r_def by simp
  have ar: "a = block (PR_PAGEADDR r) (bsize r) j" "n = bsize r" using an r_def by simp_all
  have idx: "idx (pagerefs h) p = Some r" using L(1) L(4) [OF p(1)] by (simp add: r_def)
  have ain: "unat a \<in> bytes (PR_PAGEADDR r, 4096)" using block_addr_in(2) [OF D(5) [OF p(1)] p(2)] an r_def by simp
  have fp: "find_page h a (allbase h) = Some (Some p)"
    unfolding find_page_inv [OF core]
  proof (intro arg_cong [where f = Some] find_unique)
    show "p \<in> set A" by (rule p(1))
    show "unat a \<in> bytes (PR_PAGEADDR (pagerefs h ! p), 4096)" using ain r_def by simp
    fix q assume "q \<in> set A" "unat a \<in> bytes (PR_PAGEADDR (pagerefs h ! q), 4096)"
    then show "q = p" using page_bytes_disjoint [OF core p(1), of q] ain r_def by blast
  qed
  note BO = block_offset [OF b R(1) jn, folded ar(1)]
  have ok: "\<not> (unat (a - PR_PAGEADDR r) \<ge> 4096 \<or> unat (a - PR_PAGEADDR r) mod bsize r \<noteq> 0)"
    using BO(2) unfolding BO(1) by simp
  obtain h1 m h3 where f: "fill_deadbeef h a (bsize r) = Some h1"
     "store_word h1 (PR_PAGEADDR r + (a - PR_PAGEADDR r))
       (if freelist_offset r = INVALID_OFFSET then 0 else PR_PAGEADDR r + ucast (freelist_offset r)) = Some (h\<lparr>words := m\<rparr>)"
     "set_pageref (h\<lparr>words := m\<rparr>) p (r\<lparr>freelist_offset := ucast (a - PR_PAGEADDR r), nfree := nfree r + 1\<rparr>) = Some h3"
     "unat (nfree r + 1) = length (j # F p)" "kheap_core h3 B A (F(p := j # F p))"
     "live h3 B A (F(p := j # F p)) = live h B A F - {(a, bsize r)}"
     "kept (live h B A F - {(a, bsize r)}) h h3" "kvm h3 = kvm h"
     "\<And>q. pageaddr_and_blocktype (pagerefs h3 ! q) = pageaddr_and_blocktype (pagerefs h ! q)"
    using free_block_core [OF core p r_def ar(1)] by (elim exE conjE) (rule that; (assumption | erule spec))
  have P: "PR_PAGEADDR (pagerefs h3 ! q) = PR_PAGEADDR (pagerefs h ! q)" "PR_BLOCKTYPE (pagerefs h3 ! q) = PR_BLOCKTYPE (pagerefs h ! q)"
    for q using f(9) by (simp_all add: PR_PAGEADDR_def PR_BLOCKTYPE_def)
  have le: "length (j # F p) \<le> nblocks r" using nf [OF p(1)] r_def by simp
  have step: "subpage_kfree h a = (if length (j # F p) = nblocks r then do {
        h4 \<leftarrow> remove_lists h3 p (unat (PR_BLOCKTYPE r));
        h5 \<leftarrow> freepageref h4 p;
        s \<leftarrow> free_kpages (kvm h5) (PR_PAGEADDR r);
        Some (0, h5\<lparr>kvm := s\<rparr>) } else Some (0, h3))"
    unfolding subpage_kfree_def using fp idx ok f(1-4) le by (simp add: Let_def)
  show ?thesis
  proof (cases "length (j # F p) = nblocks r")
    case False
    have "kheap_inv h3 B A (F(p := j # F p))"
      using f(5) nf le False unfolding kheap_inv_def P r_def by simp
    then have "released h B A F a n h3 B A (F(p := j # F p))"
      using f(6,7,8) unfolding released_def ar(2) by simp
    then show ?thesis using step False by auto
  next
    case True
    have sub: "set (j # F p) \<subseteq> {..<nblocks r}" "distinct (j # F p)" using R(3,4) p(3) jn by auto
    then have "card (set (j # F p)) = card {..<nblocks r}" using True by (simp only: distinct_card card_lessThan)
    then have "set (j # F p) = {..<nblocks r}" using sub(1) by (metis card_subset_eq finite_lessThan)
    then have "{..<nblocks (pagerefs h3 ! p)} \<subseteq> set ((F(p := j # F p)) p)" unfolding P r_def [symmetric] by simp
    from drop_page_core [OF f(5) p(1) this] obtain h4 h5 s' i where d:
      "remove_lists h3 p (btype h3 p) = Some h4" "freepageref h4 p = Some h5"
      "free_kpages (kvm h5) (PR_PAGEADDR (pagerefs h3 ! p)) = Some s'"
      "kheap_core (h5\<lparr>kvm := s'\<rparr>) (B(i := None)) (remove1 p A) (F(p := j # F p))"
      "live (h5\<lparr>kvm := s'\<rparr>) (B(i := None)) (remove1 p A) (F(p := j # F p)) = live h3 B A (F(p := j # F p))"
      "words h5 = words h3" "nframes s' = nframes (kvm h3)"
      "\<And>q. PR_BLOCKTYPE (pagerefs h5 ! q) = PR_BLOCKTYPE (pagerefs h3 ! q)" by blast
    have "subpage_kfree h a = Some (0, h5\<lparr>kvm := s'\<rparr>)"
      using step True d(1-3) unfolding P r_def [symmetric] by simp
    moreover have "kheap_inv (h5\<lparr>kvm := s'\<rparr>) (B(i := None)) (remove1 p A) (F(p := j # F p))"
      using d(4) nf L(3) unfolding kheap_inv_def by (auto simp: d(8) P set_remove1_eq)
    moreover have "kept (live h B A F - {(a, n)}) h (h5\<lparr>kvm := s'\<rparr>)"
      unfolding ar(2) by (rule kept_words [OF f(7)]) (simp add: d(6))
    moreover have "length (remove1 p A) \<le> length A" by (simp add: length_remove1)
    ultimately show ?thesis
      using d(5,7) f(6,8) frames_drop [of B i] unfolding released_def ar(2)
      by (intro exI [of _ "h5\<lparr>kvm := s'\<rparr>"] exI [of _ "B(i := None)"] exI [of _ "remove1 p A"] exI [of _ "F(p := j # F p)"]) simp
  qed
qed

section \<open>The two entry points\<close>

lemma kmalloc_small:
  assumes inv: "kheap_inv h B A F" and sz: "unat sz < LARGEST_SUBPAGE_SIZE"
    and room: "(\<exists>p \<in> set A. blocktype (unat sz) = Some (btype h p) \<and> F p \<noteq> []) \<or>
      (\<exists>f. free_run_at (kvm h) B 1 f) \<and> length A < NPAGEREFS"
  shows "\<exists>k a h' B' A' F'. k < NSIZES \<and> blocktype (unat sz) = Some k \<and> unat sz \<le> sizes ! k \<and> (\<forall>i < k. sizes ! i < unat sz) \<and>
    kmalloc h sz = Some (a, h') \<and> allocated h B A F a (sizes ! k) h' B' A' F' \<and>
    (A' = A \<and> B' = B \<or> (\<exists>p i. A' = p # A \<and> B' = B(i \<mapsto> 1) \<and> B i = None))"
proof -
  obtain k where k: "k < 8" "blocktype (unat sz) = Some k" "unat sz \<le> sizes ! k" "\<forall>i < k. sizes ! i < unat sz"
    using blocktype_spec [OF sz] by blast
  have room': "(\<exists>p \<in> set A. btype h p = k \<and> F p \<noteq> []) \<or> (\<exists>f. free_run_at (kvm h) B 1 f) \<and> length A < 256"
    using room k(2) by auto
  have "kmalloc h sz = subpage_kmalloc h (unat sz)" using sz by (simp add: kmalloc_def)
  then show ?thesis using subpage_kmalloc_ok [OF inv k(2,1) room'] k by metis
qed

lemma kheap_inv_kvm:
  assumes inv: "kheap_inv h B A F" and rep: "cm_rep s' B'" and kf: "kframe s' = kframe (kvm h)"
    and pages: "\<And>p i. p \<in> set A \<Longrightarrow> B i = Some 1 \<Longrightarrow> PR_PAGEADDR (pagerefs h ! p) = kframe (kvm h) i \<Longrightarrow> B' i = Some 1"
  shows "kheap_inv (h\<lparr>kvm := s'\<rparr>) B' A F"
proof -
  have core: "kheap_core h B A F" using inv by (simp add: kheap_inv_def)
  note D = kheap_coreD [OF core]
  have "kheap_core (h\<lparr>kvm := s'\<rparr>) B' A F"
    unfolding kheap_core_def
  proof (intro conjI ballI)
    show "linked (h\<lparr>kvm := s'\<rparr>) A" using D(1) by (simp add: linked_def)
    show "refs_wf (h\<lparr>kvm := s'\<rparr>)" "refs_used (h\<lparr>kvm := s'\<rparr>) = set A" using D(2,3) by (simp_all add: refs_wf_def refs_used_def ref_bit_def)
    show "cm_rep (kvm (h\<lparr>kvm := s'\<rparr>)) B'" using rep by simp
    show "page_rep (words (h\<lparr>kvm := s'\<rparr>)) (pagerefs (h\<lparr>kvm := s'\<rparr>) ! p) (F p)" if "p \<in> set A" for p using D(5) [OF that] by simp
    show "\<exists>i. B' i = Some 1 \<and> PR_PAGEADDR (pagerefs (h\<lparr>kvm := s'\<rparr>) ! p) = kframe (kvm (h\<lparr>kvm := s'\<rparr>)) i" if p: "p \<in> set A" for p
      using D(6) [OF p] pages [OF p] kf by auto
    show "inj_on (\<lambda>p. PR_PAGEADDR (pagerefs (h\<lparr>kvm := s'\<rparr>) ! p)) (set A)" using D(7) by (auto intro!: inj_onI)
  qed
  then show ?thesis using inv by (simp add: kheap_inv_def)
qed

lemma live_kvm: "kframe s' = kframe (kvm h) \<Longrightarrow> live (h\<lparr>kvm := s'\<rparr>) B' A F = subpage_live h A F \<union>
    {(kframe (kvm h) i, l * PAGE_SIZE) | i l. B' i = Some l \<and> kframe (kvm h) i \<notin> (\<lambda>p. PR_PAGEADDR (pagerefs h ! p)) ` set A}"
  by (simp add: live_def page_live_def subpage_live_def)

lemma kmalloc_large:
  assumes inv: "kheap_inv h B A F" and sz: "LARGEST_SUBPAGE_SIZE \<le> unat sz" and n: "n = (unat sz + 4095) div PAGE_SIZE"
    and run: "free_run_at (kvm h) B n f"
  shows "\<exists>i h'. kmalloc h sz = Some (kframe (kvm h) i, h') \<and> unat sz \<le> n * PAGE_SIZE \<and> B i = None \<and>
    allocated h B A F (kframe (kvm h) i) (n * PAGE_SIZE) h' (B(i \<mapsto> n)) A F"
proof -
  have core: "kheap_core h B A F" using inv by (simp add: kheap_inv_def)
  note D = kheap_coreD [OF core]
  have "n \<le> nframes (kvm h)" using run by (simp add: free_run_at_def)
  then have n31: "n < 131072" using nframes_small [OF D(4)] by simp
  have "unat sz + 4095 < 131072 * 4096" using n31 unfolding n by (metis div_less_iff_less_mult zero_less_numeral)
  then have nw: "unat ((sz + 4096 - 1) div 4096) = n" using n by (simp add: unat_div unat_word_ariths)
  have n0: "0 < n" using sz n by (simp add: div_greater_zero_iff)
  obtain i s' where s': "alloc_kpages (kvm h) (int n) = Some (kframe (kvm h) i, s')" "free_run_at (kvm h) B n i" "B i = None"
      "i < nframes (kvm h)" "cm_rep s' (B(i \<mapsto> n))" "nframes s' = nframes (kvm h)" "kframe s' = kframe (kvm h)"
    using alloc_kpages_found [OF D(4) n0 run] by blast
  define h' where "h' = h\<lparr>kvm := s'\<rparr>"
  note K = kframe_unat [OF D(4) less_imp_le [OF s'(4)]]
  have "uint ((sz + 4096 - 1) div 4096) = int n" using nw by (metis int_nat_eq unat_eq_nat_uint unsigned_greater_eq)
  then have km: "kmalloc h sz = Some (kframe (kvm h) i, h')"
    using sz s'(1) by (simp add: kmalloc_def h'_def Let_def)
  have inv': "kheap_inv h' (B(i \<mapsto> n)) A F"
    unfolding h'_def by (rule kheap_inv_kvm [OF inv s'(5,7)]) (use s'(3) in auto)
  have nin: "kframe (kvm h) i \<notin> (\<lambda>p. PR_PAGEADDR (pagerefs h ! p)) ` set A"
  proof
    assume "kframe (kvm h) i \<in> (\<lambda>p. PR_PAGEADDR (pagerefs h ! p)) ` set A"
    then obtain p where p: "p \<in> set A" "kframe (kvm h) i = PR_PAGEADDR (pagerefs h ! p)" by blast
    obtain j where j: "B j = Some 1" "PR_PAGEADDR (pagerefs h ! p) = kframe (kvm h) j" using D(6) [OF p(1)] by blast
    then have "(B(i \<mapsto> n)) j = Some 1" "i \<noteq> j" using s'(3) by auto
    then show False using kframe_inj [OF s'(5), of i n j 1] p(2) j(2) unfolding s'(7) by simp
  qed
  have lv: "live h' (B(i \<mapsto> n)) A F = insert (kframe (kvm h) i, n * 4096) (live h B A F)"
  proof -
    have "{(kframe (kvm h) j, l * 4096) | j l. (B(i \<mapsto> n)) j = Some l \<and> kframe (kvm h) j \<notin> (\<lambda>p. PR_PAGEADDR (pagerefs h ! p)) ` set A} =
      insert (kframe (kvm h) i, n * 4096)
        {(kframe (kvm h) j, l * 4096) | j l. B j = Some l \<and> kframe (kvm h) j \<notin> (\<lambda>p. PR_PAGEADDR (pagerefs h ! p)) ` set A}"
      using nin s'(3) by (auto split: if_splits)
    then show ?thesis unfolding h'_def live_kvm [OF s'(7)] by (simp add: live_def page_live_def)
  qed
  have fresh: "(kframe (kvm h) i, n * 4096) \<notin> live h B A F"
  proof
    assume x: "(kframe (kvm h) i, n * 4096) \<in> live h B A F"
    obtain j l where j: "B j = Some l" "bytes (kframe (kvm h) i, n * 4096) \<subseteq> bytes (kframe (kvm h) j, l * 4096)"
      using live_frame [OF core x] by blast
    then have "(B(i \<mapsto> n)) j = Some l" "(B(i \<mapsto> n)) i = Some n" "j \<noteq> i" using s'(3) by auto
    from bytes_frames_disjoint [OF s'(5) this(1,2,3)] j(2) have "bytes (kframe (kvm h) i, n * 4096) = {}" unfolding s'(7) by blast
    then show False using n0 by (simp add: bytes_def)
  qed
  have "unat (kframe (kvm h) i) mod 16 = 0" using K(2) dvd_trans [of 16 4096 "unat (kframe (kvm h) i)"] by (simp add: mod_eq_0_iff_dvd)
  moreover have "unat sz \<le> n * 4096"
    using div_mult_mod_eq [of "unat sz + 4095" 4096] mod_less_divisor [of 4096 "unat sz + 4095"] unfolding n by linarith
  ultimately show ?thesis
    using km inv' lv fresh K(3) s'(3,6) unfolding allocated_def
    by (intro exI [of _ i] exI [of _ h']) (simp add: kept_refl h'_def)
qed
lemma kfree_ok:
  assumes inv: "kheap_inv h B A F" and x: "(a, n) \<in> live h B A F"
  shows "\<exists>h' B' A' F'. kfree h a = Some h' \<and> released h B A F a n h' B' A' F'"
proof (cases "(a, n) \<in> subpage_live h A F")
  case True
  have core: "kheap_core h B A F" using inv by (simp add: kheap_inv_def)
  note D = kheap_coreD [OF core]
  obtain p j where p: "p \<in> set A" "j < nblocks (pagerefs h ! p)"
      "a = block (PR_PAGEADDR (pagerefs h ! p)) (bsize (pagerefs h ! p)) j"
    using True by (elim subpage_liveE) auto
  note R = page_repD [OF D(5) [OF p(1)]]
  have "a \<noteq> 0" unfolding p(3) by (rule block_nonzero [OF PR_PAGEADDR_aligned R(2,1) p(2)])
  moreover obtain h' B' A' F' where "subpage_kfree h a = Some (0, h')" "released h B A F a n h' B' A' F'"
    using subpage_kfree_ok [OF inv True] by blast
  ultimately show ?thesis
    by (intro exI [of _ h'] exI [of _ B'] exI [of _ A'] exI [of _ F']) (simp add: kfree_def)
next
  case False
  have core: "kheap_core h B A F" using inv by (simp add: kheap_inv_def)
  note D = kheap_coreD [OF core]
  obtain i l where i: "B i = Some l" "a = kframe (kvm h) i" "n = l * 4096"
      "kframe (kvm h) i \<notin> (\<lambda>p. PR_PAGEADDR (pagerefs h ! p)) ` set A"
    using x False by (auto simp: live_def page_live_def)
  note K = kframe_unat [OF D(4) block_frames(2) [OF D(4) i(1)]]
  have l0: "0 < l" by (rule block_frames(3) [OF D(4) i(1)])
  have "List.find (\<lambda>q. unat a \<in> bytes (PR_PAGEADDR (pagerefs h ! q), 4096)) A = None"
    unfolding find_None_iff
  proof
    assume "\<exists>q. q \<in> set A \<and> unat a \<in> bytes (PR_PAGEADDR (pagerefs h ! q), 4096)"
    then obtain q where q: "q \<in> set A" "unat a \<in> bytes (PR_PAGEADDR (pagerefs h ! q), 4096)" by blast
    have "(a, n) \<in> page_live h B A" using x False by (simp add: live_def)
    then have "bytes (PR_PAGEADDR (pagerefs h ! q), 4096) \<inter> bytes (a, n) = {}" by (rule live_in_frames [OF core q(1)])
    moreover have "unat a \<in> bytes (a, n)" using l0 i(3) by (simp add: bytes_def)
    ultimately show False using q(2) by blast
  qed
  then have sk: "subpage_kfree h a = Some (- 1, h)" using find_page_inv [OF core, of a] by (simp add: subpage_kfree_def)
  obtain s' where s': "free_kpages (kvm h) (kframe (kvm h) i) = Some s'" "cm_rep s' (B(i := None))"
      "nframes s' = nframes (kvm h)" "frame_addr s' = frame_addr (kvm h)"
    using free_kpages_rep [OF D(4) i(1)] unfolding kframe_def by blast
  have kf: "kframe s' = kframe (kvm h)" using s'(4) by (simp add: kframe_def fun_eq_iff)
  have "kfree h a = Some (h\<lparr>kvm := s'\<rparr>)"
    using sk s'(1) K(2,3) i(2) by (simp add: kfree_def)
  moreover have "kheap_inv (h\<lparr>kvm := s'\<rparr>) (B(i := None)) A F"
  proof (rule kheap_inv_kvm [OF inv s'(2) kf])
    fix p j assume p: "p \<in> set A" "B j = Some 1" "PR_PAGEADDR (pagerefs h ! p) = kframe (kvm h) j"
    then have "j \<noteq> i" using i(4) by (metis imageI)
    then show "(B(i := None)) j = Some 1" using p(2) by simp
  qed
  moreover have "live (h\<lparr>kvm := s'\<rparr>) (B(i := None)) A F = live h B A F - {(a, n)}"
  proof -
    have ne: "kframe (kvm h) j \<noteq> a" if "B j = Some m" "j \<noteq> i" for j m
      using kframe_inj [OF D(4) that(1) i(1)] that(2) i(2) by auto
    have "{(kframe (kvm h) j, m * 4096) | j m. (B(i := None)) j = Some m \<and> kframe (kvm h) j \<notin> (\<lambda>p. PR_PAGEADDR (pagerefs h ! p)) ` set A} =
        page_live h B A - {(a, n)}" (is "?L = _")
    proof (rule set_eqI, rule iffI)
      fix y assume "y \<in> ?L"
      then obtain j m where j: "(B(i := None)) j = Some m" "y = (kframe (kvm h) j, m * 4096)"
        "kframe (kvm h) j \<notin> (\<lambda>p. PR_PAGEADDR (pagerefs h ! p)) ` set A" by blast
      then have b: "B j = Some m" "j \<noteq> i" by (auto split: if_splits)
      then show "y \<in> page_live h B A - {(a, n)}" using j(2,3) ne [OF b] unfolding page_live_def by blast
    next
      fix y assume y: "y \<in> page_live h B A - {(a, n)}"
      then obtain j m where j: "B j = Some m" "y = (kframe (kvm h) j, m * 4096)"
        "kframe (kvm h) j \<notin> (\<lambda>p. PR_PAGEADDR (pagerefs h ! p)) ` set A" unfolding page_live_def by blast
      then have "j \<noteq> i" using y i(1-3) by auto
      then show "y \<in> ?L" using j by auto
    qed
    then show ?thesis unfolding live_kvm [OF kf] using False by (auto simp: live_def)
  qed
  ultimately show ?thesis
    using s'(3) frames_drop [of B i] unfolding released_def
    by (intro exI [of _ "h\<lparr>kvm := s'\<rparr>"] exI [of _ "B(i := None)"] exI [of _ A] exI [of _ F]) (simp add: kept_refl)
qed

text \<open>The state right after the core map has been set up.\<close>

definition empty_pageref :: pageref where
  "empty_pageref = \<lparr>next_samesize = None, next_all = None, pageaddr_and_blocktype = 0, freelist_offset = 0, nfree = 0\<rparr>"

definition boot_kheap :: "vm_state \<Rightarrow> kheap" where
  "boot_kheap s = \<lparr>pagerefs = replicate NPAGEREFS empty_pageref, pagerefs_inuse = replicate INUSE_WORDS 0,
     sizebases = replicate NSIZES None, allbase = None, words = (\<lambda>_. 0), kvm = s\<rparr>"

lemma boot_kheap_inv:
  assumes "cm_rep s B"
  shows "kheap_inv (boot_kheap s) B [] (\<lambda>_. [])"
proof -
  have "\<not> ref_bit (boot_kheap s) p" if "p < 256" for p
  proof -
    have "p div 32 < 8" using that by (simp add: less_mult_imp_div_less)
    then have "replicate 8 (0 :: u32) ! (p div 32) = 0" by (rule nth_replicate)
    then show ?thesis by (simp add: ref_bit_def boot_kheap_def)
  qed
  then have "refs_used (boot_kheap s) = {}" by (auto simp: refs_used_def)
  then show ?thesis using assms by (simp add: kheap_inv_def kheap_core_def linked_def refs_wf_def boot_kheap_def)
qed

section \<open>The heap as an interface\<close>

type_synonym kghost = "blocks \<times> nat list \<times> (nat \<Rightarrow> nat list)"

definition kheap_rep :: "kheap \<Rightarrow> kghost \<Rightarrow> bool" where
  "kheap_rep h g = (case g of (B, A, F) \<Rightarrow> kheap_inv h B A F)"

definition kheap_live :: "kheap \<Rightarrow> kghost \<Rightarrow> (vaddr \<times> nat) set" where
  "kheap_live h g = (case g of (B, A, F) \<Rightarrow> live h B A F)"

text \<open>A small allocation takes at most one frame and one \<open>pageref\<close>.\<close>

definition kheap_budget :: "kheap \<Rightarrow> kghost \<Rightarrow> nat" where
  "kheap_budget h g = (case g of (B, A, F) \<Rightarrow> min (nframes (kvm h) - card (frames B)) (NPAGEREFS - length A))"

lemma finite_frames: "cm_rep s B \<Longrightarrow> frames B \<subseteq> {..<nframes s}"
  using frames_used_eq [of s B] by (auto simp: frames_used_def)

lemma free_frame_exists:
  assumes "cm_rep s B" "card (frames B) < nframes s"
  shows "\<exists>f. free_run_at s B 1 f"
proof -
  have "frames B \<noteq> {..<nframes s}" using assms(2) by (metis card_lessThan less_irrefl)
  then obtain f where "f < nframes s" "f \<notin> frames B" using finite_frames [OF assms(1)] by blast
  then show ?thesis by (intro exI [of _ f]) (simp add: free_run_at_def)
qed

interpretation kh: block_heap kheap_rep kheap_live bytes kept kheap_budget "\<lambda>n :: u32. unat n < LARGEST_SUBPAGE_SIZE" kmalloc kfree
proof (unfold_locales, goal_cases)
  case (1 s g x y)
  obtain B A F where g: "g = (B, A, F)" by (cases g)
  show ?case using 1 live_disjoint [of s B A F x y] by (simp add: kheap_rep_def kheap_live_def kheap_inv_def g)
next
  case (2 h g n)
  obtain B A F where g: "g = (B, A, F)" by (cases g)
  have inv: "kheap_inv h B A F" using 2(1) by (simp add: kheap_rep_def g)
  have rep: "cm_rep (kvm h) B" using inv by (simp add: kheap_inv_def kheap_core_def)
  have c: "card (frames B) < nframes (kvm h)" "length A < 256" using 2(3) by (simp_all add: kheap_budget_def g)
  obtain a l h' B' A' F' where k: "kmalloc h n = Some (a, h')" "allocated h B A F a l h' B' A' F'"
      "A' = A \<and> B' = B \<or> (\<exists>p i. A' = p # A \<and> B' = B(i \<mapsto> 1) \<and> B i = None)"
    using kmalloc_small [OF inv 2(2)] free_frame_exists [OF rep c(1)] c(2) by blast
  have fin: "finite (frames B)" using finite_frames [OF rep] by (rule finite_subset) simp
  have "card (frames B') \<le> Suc (card (frames B))"
  proof (cases "B' = B")
    case False
    then obtain i where "B' = B(i \<mapsto> 1)" "B i = None" using k(3) by blast
    then have "frames B' = insert i (frames B)" using frames_upd [of B i 1] by auto
    then show ?thesis using fin by (simp add: card_insert_if)
  qed simp
  moreover have "length A' \<le> Suc (length A)" using k(3) by auto
  ultimately have "kheap_budget h g \<le> Suc (kheap_budget h' (B', A', F'))"
    using k(2) by (auto simp: kheap_budget_def g allocated_def)
  then show ?case
    using k(1,2) unfolding allocated_def g
    by (intro exI [of _ a] exI [of _ l] exI [of _ h'] exI [of _ "(B', A', F')"]) (simp add: kheap_rep_def kheap_live_def)
next
  case (3 h g a l)
  obtain B A F where g: "g = (B, A, F)" by (cases g)
  have inv: "kheap_inv h B A F" using 3(1) by (simp add: kheap_rep_def g)
  have rep: "cm_rep (kvm h) B" using inv by (simp add: kheap_inv_def kheap_core_def)
  have fin: "finite (frames B)" using finite_frames [OF rep] by (rule finite_subset) simp
  have "(a, l) \<in> live h B A F" using 3(2) by (simp add: kheap_live_def g)
  from kfree_ok [OF inv this] obtain h' B' A' F' where k: "kfree h a = Some h'" "released h B A F a l h' B' A' F'" by blast
  have "card (frames B') \<le> card (frames B)" using k(2) card_mono [OF fin] by (simp add: released_def)
  then have "kheap_budget h g \<le> kheap_budget h' (B', A', F')"
    using k(2) by (auto simp: kheap_budget_def g released_def)
  then show ?case
    using k unfolding released_def g
    by (intro exI [of _ h'] exI [of _ "(B', A', F')"]) (simp add: kheap_rep_def kheap_live_def)
qed (auto simp: kept_def)
section \<open>Failures\<close>

lemma find_run_zero:
  assumes "j < nframes s" "i \<le> j" "nframes s \<le> length (inUse (core_map s))" "0 \<le> cm_size (core_map s)"
    and "inUse (core_map s) ! j = 0" "\<And>m. i \<le> m \<Longrightarrow> m < j \<Longrightarrow> inUse (core_map s) ! m \<noteq> 0"
  shows "find_run (core_map s) 0 i = Some (Some j)"
  using assms(2,6)
proof (induction "j - i" arbitrary: i)
  case 0
  have "int j < cm_size (core_map s)" using assms(1,4) by simp
  then show ?case using 0 assms(1,3,5) by (subst find_run.simps) (simp add: count_free.simps)
next
  case (Suc d)
  have "find_run (core_map s) 0 (i + 1) = Some (Some j)" using Suc.hyps(2) Suc.prems by (intro Suc.hyps(1)) auto
  moreover have "int i < cm_size (core_map s)" "i < length (inUse (core_map s))" using Suc.hyps(2) assms(1,3,4) by simp_all
  moreover have "inUse (core_map s) ! i \<noteq> 0" using Suc.prems(2) [of i] Suc.hyps(2) by simp
  ultimately show ?case by (subst find_run.simps) simp
qed

lemma alloc_kpages_zero:
  assumes rep: "cm_rep s B" and run: "free_run_at s B 1 f"
  shows "\<exists>i. free_run_at s B 1 i \<and> alloc_kpages s 0 = Some (kframe s i, s)"
proof -
  note D = cm_repD [OF rep]
  define i where "i = (LEAST i. free_run_at s B 1 i)"
  have i: "free_run_at s B 1 i" unfolding i_def by (rule LeastI, rule run)
  have first: "\<not> free_run_at s B 1 m" if "m < i" for m using that unfolding i_def by (rule not_less_Least)
  have free: "free_run_at s B 1 m \<longleftrightarrow> inUse (core_map s) ! m = 0" if "m < nframes s" for m
    using D(11) [OF that] that by (auto simp: free_run_at_def)
  have il: "i < nframes s" using i by (simp add: free_run_at_def)
  have "find_run (core_map s) 0 0 = Some (Some i)"
    using il D(2,3) free [OF il] i first free by (intro find_run_zero) auto
  moreover have "unat (frame_addr s i) = unat (baseAddr (core_map s)) + i * 4096" using frame_addr_unat [OF rep] il by simp
  then have "frame_addr s i \<le> addr_hi s" "addr_lo s \<le> frame_addr s i" "frame_addr s i \<noteq> 0"
    using D(5,6,8) mult_le_mono1 [OF less_imp_le [OF il], of 4096] by (auto simp: word_le_nat_alt)
  ultimately have "getppages s 0 = Some (frame_addr s i, s)"
    using D(1,2) by (simp add: getppages_def frame_addr_def)
  then show ?thesis using i \<open>frame_addr s i \<noteq> 0\<close> by (intro exI [of _ i]) (simp add: alloc_kpages_def kframe_def)
qed

lemma alloc_kpages_full:
  assumes "cm_rep s B" "0 < n" "n \<le> nframes s" "\<not> (\<exists>i. free_run_at s B n i)"
  shows "alloc_kpages s (int n) = Some (0x80000003, s)"
  using getppages_full [OF assms(1-3)] assms(4) by (simp add: alloc_kpages_def PADDR_TO_KVADDR_def MIPS_KSEG0_def)

lemma subpage_kmalloc_no_block:
  assumes core: "kheap_core h B A F" and sz: "blocktype sz = Some k" "k < NSIZES"
    and none: "\<not> (\<exists>p \<in> set A. btype h p = k \<and> F p \<noteq> [])"
  shows "subpage_kmalloc h sz = do {
     (prpage, s) \<leftarrow> alloc_kpages (kvm h) 1;
     let h = h\<lparr>kvm := s\<rparr>;
     if prpage = 0 then Some (0, h)
     else do {
       (pr, h) \<leftarrow> allocpageref h;
       case pr of
         None \<Rightarrow> do {
           s \<leftarrow> free_kpages (kvm h) prpage;
           Some (0, h\<lparr>kvm := s\<rparr>)
         }
       | Some p \<Rightarrow> do {
           h \<leftarrow> init_page h p k prpage;
           doalloc h p
         }
     }
   }"
proof -
  have "List.find (\<lambda>p. btype h p = k \<and> F p \<noteq> []) A = None" using none by (auto simp: find_None_iff)
  moreover have "idx (sizebases h) k = Some (sizebases h ! k)" using linkedD(2) kheap_coreD(1) [OF core] sz(2) by simp
  ultimately show ?thesis using find_samesize_inv [OF core sz(2)] sz(1) by (simp add: subpage_kmalloc_def)
qed

lemma kmalloc_no_frame:
  assumes inv: "kheap_inv h B A F" and sz: "unat sz < LARGEST_SUBPAGE_SIZE"
    and none: "\<not> (\<exists>p \<in> set A. blocktype (unat sz) = Some (btype h p) \<and> F p \<noteq> [])"
    and full: "\<not> (\<exists>f. free_run_at (kvm h) B 1 f)" "0 < nframes (kvm h)" and refs: "length A < NPAGEREFS"
  shows "kmalloc h sz = None"
proof -
  have core: "kheap_core h B A F" using inv by (simp add: kheap_inv_def)
  note D = kheap_coreD [OF core]
  obtain k where k: "k < 8" "blocktype (unat sz) = Some k" using blocktype_spec [OF sz] by blast
  have "alloc_kpages (kvm h) 1 = Some (0x80000003, kvm h)" using alloc_kpages_full [OF D(4), of 1] full by simp
  moreover have "\<exists>p h'. allocpageref h = Some (Some p, h') \<and> p < 256 \<and> pagerefs h' = pagerefs h"
  proof -
    have "card (set A) < 256" using refs linkedD(3) [OF D(1)] by (simp add: distinct_card)
    then have "refs_used h \<noteq> {..<256}" using D(3) by (metis card_lessThan less_irrefl)
    from allocpageref_spec(1) [OF D(2) [unfolded refs_wf_def] this] show ?thesis by auto
  qed
  moreover have "init_page h' p k 0x80000003 = None" for h' p
    by (cases "idx (pagerefs h') p") (simp_all add: init_page_def store_word_def)
  moreover have "h\<lparr>kvm := kvm h\<rparr> = h" by simp
  ultimately show ?thesis
    using subpage_kmalloc_no_block [OF core k(2,1)] none k(2) sz by (auto simp: kmalloc_def)
qed

lemma kmalloc_no_pageref:
  assumes inv: "kheap_inv h B A F" and sz: "unat sz < LARGEST_SUBPAGE_SIZE"
    and none: "\<not> (\<exists>p \<in> set A. blocktype (unat sz) = Some (btype h p) \<and> F p \<noteq> [])"
    and run: "free_run_at (kvm h) B 1 f" and refs: "length A = NPAGEREFS"
  shows "\<exists>h'. kmalloc h sz = Some (0, h') \<and> kheap_inv h' B A F \<and> live h' B A F = live h B A F \<and> words h' = words h"
proof -
  have core: "kheap_core h B A F" using inv by (simp add: kheap_inv_def)
  note D = kheap_coreD [OF core]
  note L = linkedD [OF D(1)]
  obtain k where k: "k < 8" "blocktype (unat sz) = Some k" using blocktype_spec [OF sz] by blast
  obtain i s' where s': "alloc_kpages (kvm h) (int 1) = Some (kframe (kvm h) i, s')" "B i = None" "i < nframes (kvm h)"
      "cm_rep s' (B(i \<mapsto> 1))" "nframes s' = nframes (kvm h)" "kframe s' = kframe (kvm h)"
    using alloc_kpages_found [OF D(4) zero_less_one run] by blast
  have nz: "kframe (kvm h) i \<noteq> 0" by (rule kframe_unat(3) [OF D(4) less_imp_le [OF s'(3)]])
  have "card (set A) = card {..<256 :: nat}" using refs L(3) by (simp only: distinct_card card_lessThan)
  moreover have "set A \<subseteq> {..<256}" using L(4) by auto
  ultimately have "refs_used h = {..<256}" using D(3) by (metis card_subset_eq finite_lessThan)
  then have "refs_used (h\<lparr>kvm := s'\<rparr>) = {..<256}" by (simp only: refs_used_def ref_bit_def) simp
  moreover have "length (pagerefs_inuse (h\<lparr>kvm := s'\<rparr>)) = 8" using D(2) by (simp add: refs_wf_def)
  ultimately have ap: "allocpageref (h\<lparr>kvm := s'\<rparr>) = Some (None, h\<lparr>kvm := s'\<rparr>)" using allocpageref_spec(2) by blast
  have "(B(i \<mapsto> 1)) i = Some 1" by simp
  from free_kpages_rep [OF s'(4) this] obtain s'' where s'': "free_kpages s' (kframe s' i) = Some s''"
      "cm_rep s'' ((B(i \<mapsto> 1))(i := None))" "frame_addr s'' = frame_addr s'"
    unfolding kframe_def by blast
  have B: "(B(i \<mapsto> 1))(i := None) = B" using s'(2) by (simp add: fun_eq_iff)
  have kf: "kframe s'' = kframe (kvm h)" using s''(3) s'(6) by (simp add: kframe_def fun_eq_iff)
  have "kmalloc h sz = Some (0, h\<lparr>kvm := s''\<rparr>)"
    using subpage_kmalloc_no_block [OF core k(2,1)] none k(2) sz s'(1,6) nz ap s''(1) by (auto simp: kmalloc_def)
  moreover have "kheap_inv (h\<lparr>kvm := s''\<rparr>) B A F"
    using s''(2) unfolding B by (intro kheap_inv_kvm [OF inv _ kf])
  moreover have "live (h\<lparr>kvm := s''\<rparr>) B A F = live h B A F" unfolding live_kvm [OF kf] by (simp add: live_def page_live_def)
  ultimately show ?thesis by auto
qed
section \<open>Properties\<close>

text \<open>C1: \<open>kmalloc\<close> returns a fresh block. When there is room, that is, for a request below 2048 bytes
  a page of the right size with a free block or a free frame and \<open>pageref\<close> for a new one, and for a
  larger request a long enough run of free frames, the call succeeds. The block is at least as long as the
  request, 16-byte aligned and disjoint from all memory in use, to which exactly this block is added; the
  contents of all memory in use stay the same, and the invariant of the heap is kept.\<close>

theorem kmalloc_returns_fresh_block:
  assumes "kheap_inv h B A F"
    and "if unat sz < LARGEST_SUBPAGE_SIZE
         then (\<exists>p \<in> set A. blocktype (unat sz) = Some (btype h p) \<and> F p \<noteq> []) \<or>
              (\<exists>f. free_run_at (kvm h) B 1 f) \<and> length A < NPAGEREFS
         else \<exists>f. free_run_at (kvm h) B ((unat sz + 4095) div PAGE_SIZE) f"
  shows "\<exists>a n h' B' A' F'. kmalloc h sz = Some (a, h') \<and> unat sz \<le> n \<and> a \<noteq> 0 \<and> unat a mod 16 = 0 \<and>
    kheap_inv h' B' A' F' \<and> live h' B' A' F' = insert (a, n) (live h B A F) \<and>
    (\<forall>x \<in> live h B A F. bytes x \<inter> bytes (a, n) = {}) \<and> kept (live h B A F) h h'"
proof -
  have "\<exists>a n h' B' A' F'. kmalloc h sz = Some (a, h') \<and> unat sz \<le> n \<and> allocated h B A F a n h' B' A' F'"
  proof (cases "unat sz < LARGEST_SUBPAGE_SIZE")
    case True
    then have "(\<exists>p \<in> set A. blocktype (unat sz) = Some (btype h p) \<and> F p \<noteq> []) \<or>
        (\<exists>f. free_run_at (kvm h) B 1 f) \<and> length A < NPAGEREFS" using assms(2) by simp
    from kmalloc_small [OF assms(1) True this] show ?thesis by blast
  next
    case False
    then obtain f where "free_run_at (kvm h) B ((unat sz + 4095) div PAGE_SIZE) f" using assms(2) by auto
    from kmalloc_large [OF assms(1) _ refl this] False show ?thesis by (meson not_le)
  qed
  then obtain a n h' B' A' F' where k: "kmalloc h sz = Some (a, h')" "unat sz \<le> n" "allocated h B A F a n h' B' A' F'" by blast
  have "bytes x \<inter> bytes (a, n) = {}" if "x \<in> live h B A F" for x
  proof -
    have "x \<noteq> (a, n)" "x \<in> live h' B' A' F'" "(a, n) \<in> live h' B' A' F'" using that k(3) by (auto simp: allocated_def)
    then show ?thesis using live_disjoint [of h' B' A' F' x "(a, n)"] k(3) by (simp add: allocated_def kheap_inv_def)
  qed
  then show ?thesis
    using k unfolding allocated_def
    by (intro exI [of _ a] exI [of _ n] exI [of _ h'] exI [of _ B'] exI [of _ A'] exI [of _ F']) simp
qed

lemma demo_kheap:
  "kheap_inv (boot_kheap (vm_bootstrap demo_vm)) Map.empty [] (\<lambda>_. [])"
  "live (boot_kheap (vm_bootstrap demo_vm)) Map.empty [] (\<lambda>_. []) = {}"
  "free_run_at (kvm (boot_kheap (vm_bootstrap demo_vm))) Map.empty 1 0"
  "nframes (kvm (boot_kheap (vm_bootstrap demo_vm))) = 6"
proof -
  have "frames Map.empty = {}" by (simp add: frames_def)
  then show "free_run_at (kvm (boot_kheap (vm_bootstrap demo_vm))) Map.empty 1 0"
    by (simp add: free_run_at_def boot_kheap_def demo_vm_rep(2))
  show "live (boot_kheap (vm_bootstrap demo_vm)) Map.empty [] (\<lambda>_. []) = {}"
    by (simp add: live_def subpage_live_def page_live_def)
  show "nframes (kvm (boot_kheap (vm_bootstrap demo_vm))) = 6" by (simp add: boot_kheap_def demo_vm_rep(2))
qed (rule boot_kheap_inv [OF demo_vm_rep(1)])

theorem kmalloc_returns_fresh_block_witness:
  "\<exists>a n h' B' A' F'. kmalloc (boot_kheap (vm_bootstrap demo_vm)) 100 = Some (a, h') \<and> 100 \<le> n \<and> unat a mod 16 = 0 \<and>
    live h' B' A' F' = {(a, n)}"
proof -
  let ?h = "boot_kheap (vm_bootstrap demo_vm)"
  have "if unat (100 :: u32) < LARGEST_SUBPAGE_SIZE
      then (\<exists>p \<in> set []. blocktype (unat (100 :: u32)) = Some (btype ?h p) \<and> (\<lambda>_ :: nat. [] :: nat list) p \<noteq> []) \<or>
        (\<exists>f. free_run_at (kvm ?h) Map.empty 1 f) \<and> length ([] :: nat list) < NPAGEREFS
      else \<exists>f. free_run_at (kvm ?h) Map.empty ((unat (100 :: u32) + 4095) div PAGE_SIZE) f"
    using demo_kheap(3) by auto
  from kmalloc_returns_fresh_block [OF demo_kheap(1) this] obtain a n h' B' A' F' where
    "kmalloc ?h 100 = Some (a, h')" "unat (100 :: u32) \<le> n" "unat a mod 16 = 0"
    "live h' B' A' F' = insert (a, n) (live ?h Map.empty [] (\<lambda>_. []))" by (elim exE conjE) (rule that)
  then show ?thesis unfolding demo_kheap(2)
    by (intro exI [of _ a] exI [of _ n] exI [of _ h'] exI [of _ B'] exI [of _ A'] exI [of _ F']) simp
qed

text \<open>C13: \<open>kfree\<close> takes back exactly one block. Given the address of a block in use, it succeeds, removes
  just this block from the memory in use and does not touch the contents of any other; a page whose last
  block is freed goes back to the frame allocator, so the heap never keeps more frames than before.\<close>

theorem kfree_returns_block:
  assumes "kheap_inv h B A F" "(a, n) \<in> live h B A F"
  shows "\<exists>h' B' A' F'. kfree h a = Some h' \<and> kheap_inv h' B' A' F' \<and> live h' B' A' F' = live h B A F - {(a, n)} \<and>
    kept (live h B A F - {(a, n)}) h h' \<and> frames B' \<subseteq> frames B \<and> length A' \<le> length A \<and>
    (\<forall>p \<in> set A'. length (F' p) < nblocks (pagerefs h' ! p))"
proof -
  obtain h' B' A' F' where "kfree h a = Some h'" "released h B A F a n h' B' A' F'" using kfree_ok [OF assms] by blast
  then show ?thesis
    unfolding released_def by (intro exI [of _ h'] exI [of _ B'] exI [of _ A'] exI [of _ F']) (simp add: kheap_inv_def)
qed

theorem kfree_returns_block_witness:
  "\<exists>a h1 h2 B A F. kmalloc (boot_kheap (vm_bootstrap demo_vm)) 5000 = Some (a, h1) \<and> kfree h1 a = Some h2 \<and> live h2 B A F = {}"
proof -
  have f: "frames Map.empty = {}" by (simp add: frames_def)
  have run: "free_run_at (kvm (boot_kheap (vm_bootstrap demo_vm))) Map.empty 2 0"
    by (simp add: free_run_at_def boot_kheap_def demo_vm_rep(2) f)
  have sz: "LARGEST_SUBPAGE_SIZE \<le> unat (5000 :: u32)" "2 = (unat (5000 :: u32) + 4095) div PAGE_SIZE" by simp_all
  obtain i h1 where k: "kmalloc (boot_kheap (vm_bootstrap demo_vm)) 5000 = Some (kframe (kvm (boot_kheap (vm_bootstrap demo_vm))) i, h1)"
      "allocated (boot_kheap (vm_bootstrap demo_vm)) Map.empty [] (\<lambda>_. []) (kframe (kvm (boot_kheap (vm_bootstrap demo_vm))) i) (2 * PAGE_SIZE)
         h1 [i \<mapsto> 2] [] (\<lambda>_. [])"
    using kmalloc_large [OF demo_kheap(1) sz run] by (elim exE conjE) (rule that)
  have inv: "kheap_inv h1 [i \<mapsto> 2] [] (\<lambda>_. [])" and lv: "live h1 [i \<mapsto> 2] [] (\<lambda>_. []) = {(kframe (kvm (boot_kheap (vm_bootstrap demo_vm))) i, 2 * PAGE_SIZE)}"
    using k(2) demo_kheap(2) unfolding allocated_def by simp_all
  have x: "(kframe (kvm (boot_kheap (vm_bootstrap demo_vm))) i, 2 * PAGE_SIZE) \<in> live h1 [i \<mapsto> 2] [] (\<lambda>_. [])" unfolding lv by simp
  obtain h2 B A F where "kfree h1 (kframe (kvm (boot_kheap (vm_bootstrap demo_vm))) i) = Some h2" "live h2 B A F = {}"
    using kfree_returns_block [OF inv x] unfolding lv by (elim exE conjE) (rule that, assumption, simp)
  then show ?thesis using k(1) by blast
qed

text \<open>C6: any well-behaved use of the heap is safe. A client runs a script of small allocations and of
  releases of blocks it holds, in any order, with at most as many allocations as there are free frames and
  \<open>pageref\<close>s. Every call succeeds, the blocks held at the end are in use and pairwise disjoint, and the
  blocks that others had before are still in use with their contents unchanged.\<close>

theorem kheap_scripts_safe:
  assumes "kheap_inv h B A F" "script_ok (\<lambda>n. unat n < LARGEST_SUBPAGE_SIZE) 0 ops"
    and "gets ops \<le> min (nframes (kvm h) - card (frames B)) (NPAGEREFS - length A)"
  shows "\<exists>bs h' B' A' F'. run_heap kmalloc kfree ops [] h = Some (map fst bs, h') \<and> kheap_inv h' B' A' F' \<and>
    distinct bs \<and> set bs \<subseteq> live h' B' A' F' \<and> (\<forall>x \<in> set bs. \<forall>y \<in> set bs. x \<noteq> y \<longrightarrow> bytes x \<inter> bytes y = {}) \<and>
    live h B A F \<subseteq> live h' B' A' F' - set bs \<and> kept (live h B A F) h h'"
proof -
  have rep: "kheap_rep h (B, A, F)" and bud: "gets ops \<le> kheap_budget h (B, A, F)"
    using assms(1,3) by (simp_all add: kheap_rep_def kheap_budget_def)
  obtain bs h' g' where r: "run_heap kmalloc kfree ops (map fst []) h = Some (map fst bs, h')" "kheap_rep h' g'"
      "distinct bs" "set bs \<subseteq> kheap_live h' g'" "live h B A F \<subseteq> kheap_live h' g' - set bs" "kept (live h B A F) h h'"
    using kh.run_heap_ok [OF rep, of "[]" "live h B A F" ops] assms(2) bud by (auto simp: kheap_live_def)
  obtain B' A' F' where g: "g' = (B', A', F')" by (cases g')
  have dis: "bytes x \<inter> bytes y = {}" if "x \<in> set bs" "y \<in> set bs" "x \<noteq> y" for x y
    using kh.apart [OF r(2)] r(4) that by blast
  show ?thesis
    using r dis unfolding g kheap_rep_def kheap_live_def
    by (intro exI [of _ bs] exI [of _ h'] exI [of _ B'] exI [of _ A'] exI [of _ F']) simp
qed

theorem kheap_scripts_safe_witness:
  "\<exists>(bs :: (vaddr \<times> nat) list) h'. run_heap kmalloc kfree [Get 100, Get 24, Put 0, Get 2000] [] (boot_kheap (vm_bootstrap demo_vm)) = Some (map fst bs, h') \<and>
     distinct bs"
proof -
  let ?ops = "[Get 100, Get 24, Put 0, Get 2000] :: u32 hop list"
  have ok: "script_ok (\<lambda>n. unat n < LARGEST_SUBPAGE_SIZE) 0 ?ops" by simp
  have bud: "gets ?ops \<le> min (nframes (kvm (boot_kheap (vm_bootstrap demo_vm))) - card (frames Map.empty)) (NPAGEREFS - length ([] :: nat list))"
    unfolding demo_kheap(4) by (simp add: frames_def)
  obtain bs :: "(vaddr \<times> nat) list" and h' where "run_heap kmalloc kfree ?ops [] (boot_kheap (vm_bootstrap demo_vm)) = Some (map fst bs, h')" "distinct bs"
    using kheap_scripts_safe [OF demo_kheap(1) ok bud] by (elim exE conjE) (rule that)
  then show ?thesis by (intro exI [of _ bs] exI [of _ h'] conjI)
qed

text \<open>when memory runs out \<open>kmalloc\<close> does not return NULL. With every frame in use, a small request for
  which a new page is needed stops the kernel (the page address \<open>0x80000003\<close> is used as memory), and a
  larger one that the machine could hold returns the address \<open>0x80000003\<close> as a block. Only when the 256
  \<open>pageref\<close>s are all taken does the call return NULL; then the page obtained goes back and the heap is
  as before.\<close>

theorem kmalloc_failures:
  assumes "kheap_inv h B A F" "0 < nframes (kvm h)"
    and "\<not> (\<exists>p \<in> set A. blocktype (unat sz) = Some (btype h p) \<and> F p \<noteq> [])"
  shows "(unat sz < LARGEST_SUBPAGE_SIZE \<longrightarrow> \<not> (\<exists>f. free_run_at (kvm h) B 1 f) \<longrightarrow> length A < NPAGEREFS \<longrightarrow>
      kmalloc h sz = None) \<and>
    (LARGEST_SUBPAGE_SIZE \<le> unat sz \<longrightarrow> (unat sz + 4095) div PAGE_SIZE \<le> nframes (kvm h) \<longrightarrow>
      \<not> (\<exists>f. free_run_at (kvm h) B ((unat sz + 4095) div PAGE_SIZE) f) \<longrightarrow> kmalloc h sz = Some (0x80000003, h)) \<and>
    (unat sz < LARGEST_SUBPAGE_SIZE \<longrightarrow> (\<exists>f. free_run_at (kvm h) B 1 f) \<longrightarrow> length A = NPAGEREFS \<longrightarrow>
      (\<exists>h'. kmalloc h sz = Some (0, h') \<and> kheap_inv h' B A F \<and> live h' B A F = live h B A F \<and> words h' = words h))"
proof (intro conjI impI)
  show "kmalloc h sz = None" if "unat sz < LARGEST_SUBPAGE_SIZE" "\<not> (\<exists>f. free_run_at (kvm h) B 1 f)" "length A < NPAGEREFS"
    by (rule kmalloc_no_frame [OF assms(1) that(1) assms(3) that(2) assms(2) that(3)])
  show "\<exists>h'. kmalloc h sz = Some (0, h') \<and> kheap_inv h' B A F \<and> live h' B A F = live h B A F \<and> words h' = words h"
    if "unat sz < LARGEST_SUBPAGE_SIZE" "\<exists>f. free_run_at (kvm h) B 1 f" "length A = NPAGEREFS"
    using kmalloc_no_pageref [OF assms(1) that(1) assms(3) _ that(3)] that(2) by blast
  assume sz: "LARGEST_SUBPAGE_SIZE \<le> unat sz" and n: "(unat sz + 4095) div PAGE_SIZE \<le> nframes (kvm h)"
    and full: "\<not> (\<exists>f. free_run_at (kvm h) B ((unat sz + 4095) div PAGE_SIZE) f)"
  have rep: "cm_rep (kvm h) B" using assms(1) by (simp add: kheap_inv_def kheap_core_def)
  let ?n = "(unat sz + 4095) div 4096"
  have "?n < 131072" using n nframes_small [OF rep] by simp
  then have "unat sz + 4095 < 131072 * 4096" by (metis div_less_iff_less_mult zero_less_numeral)
  then have "unat ((sz + 4096 - 1) div 4096) = ?n" by (simp add: unat_div unat_word_ariths)
  then have u: "uint ((sz + 4096 - 1) div 4096) = int ?n" by (metis int_nat_eq unat_eq_nat_uint unsigned_greater_eq)
  have "0 < ?n" using sz by (simp add: div_greater_zero_iff)
  then have "alloc_kpages (kvm h) (int ?n) = Some (0x80000003, kvm h)" by (rule alloc_kpages_full [OF rep _ n full])
  then show "kmalloc h sz = Some (0x80000003, h)" using sz u by (simp add: kmalloc_def Let_def)
qed

theorem kmalloc_failures_witness:
  "\<exists>a h'. kmalloc (boot_kheap (vm_bootstrap demo_vm)) 24576 = Some (a, h') \<and> kmalloc h' 100 = None \<and>
     kmalloc h' 5000 = Some (0x80000003, h')"
proof -
  have f: "frames Map.empty = {}" by (simp add: frames_def)
  have run: "free_run_at (kvm (boot_kheap (vm_bootstrap demo_vm))) Map.empty 6 0"
    by (simp add: free_run_at_def boot_kheap_def demo_vm_rep(2) f)
  have sz: "LARGEST_SUBPAGE_SIZE \<le> unat (24576 :: u32)" "6 = (unat (24576 :: u32) + 4095) div PAGE_SIZE" by simp_all
  obtain i h1 where k: "kmalloc (boot_kheap (vm_bootstrap demo_vm)) 24576 = Some (kframe (kvm (boot_kheap (vm_bootstrap demo_vm))) i, h1)"
      "allocated (boot_kheap (vm_bootstrap demo_vm)) Map.empty [] (\<lambda>_. []) (kframe (kvm (boot_kheap (vm_bootstrap demo_vm))) i) (6 * PAGE_SIZE)
         h1 [i \<mapsto> 6] [] (\<lambda>_. [])"
    using kmalloc_large [OF demo_kheap(1) sz run] by (elim exE conjE) (rule that)
  have inv: "kheap_inv h1 [i \<mapsto> 6] [] (\<lambda>_. [])" and nf: "nframes (kvm h1) = 6"
    using k(2) demo_kheap(4) by (simp_all add: allocated_def)
  have rep: "cm_rep (kvm h1) [i \<mapsto> 6]" using inv by (simp add: kheap_inv_def kheap_core_def)
  have "i + 6 \<le> 6" using block_frames(4) [OF rep, of i 6] nf by simp
  then have "frames [i \<mapsto> 6] = {..<6}" by (auto simp: frames_def split: if_splits)
  then have none: "\<not> (\<exists>j. free_run_at (kvm h1) [i \<mapsto> 6] n j)" if "0 < n" for n
    using that nf by (auto simp: free_run_at_def disjoint_iff)
  have "kmalloc h1 100 = None" using kmalloc_failures [OF inv, of 100] none [of 1] nf by simp
  moreover have "kmalloc h1 5000 = Some (0x80000003, h1)" using kmalloc_failures [OF inv, of 5000] none [of 2] nf by simp
  ultimately show ?thesis using k(1) by blast
qed

text \<open>the rounding of a large request wraps around. For a size within 4095 bytes of \<open>2 ^ 32\<close> the number of
  pages comes out as 0, and \<open>kmalloc\<close> returns the address of a free frame without reserving anything: the
  state does not change, and the frame will be handed out again.\<close>

theorem kmalloc_size_wraps:
  assumes "kheap_inv h B A F" "2 ^ 32 - 4096 < unat sz" "free_run_at (kvm h) B 1 f"
  shows "\<exists>i. free_run_at (kvm h) B 1 i \<and> kmalloc h sz = Some (kframe (kvm h) i, h)"
proof -
  have rep: "cm_rep (kvm h) B" using assms(1) by (simp add: kheap_inv_def kheap_core_def)
  have "unat sz < 4294967296" using unsigned_less [of sz, where ?'a = nat] by simp
  then have "unat sz + 4095 - 4294967296 < 4096" "4294967296 \<le> unat sz + 4095" using assms(2) by simp_all
  then have "unat (sz + 4095) < 4096" by (simp add: unat_word_ariths mod_if)
  moreover have "sz + 4096 - 1 = sz + 4095" by simp
  ultimately have "unat ((sz + 4096 - 1) div 4096) = 0" by (simp only: unat_div) simp
  then have "(sz + 4096 - 1) div 4096 = 0" by (simp only: unat_eq_zero)
  moreover obtain i where i: "free_run_at (kvm h) B 1 i" "alloc_kpages (kvm h) 0 = Some (kframe (kvm h) i, kvm h)"
    using alloc_kpages_zero [OF rep assms(3)] by blast
  ultimately show ?thesis using assms(2) by (intro exI [of _ i]) (simp add: kmalloc_def Let_def)
qed

theorem kmalloc_size_wraps_witness:
  "\<exists>i. kmalloc (boot_kheap (vm_bootstrap demo_vm)) 0xfffff800 =
     Some (kframe (kvm (boot_kheap (vm_bootstrap demo_vm))) i, boot_kheap (vm_bootstrap demo_vm))"
  using kmalloc_size_wraps [OF demo_kheap(1) _ demo_kheap(3), of "0xfffff800"] by auto

end
