(* ===== verification/Uio.thy ===== *)
theory Uio
  imports CoreMap
begin

text \<open>
  Moving data between the kernel and a process: \<^verbatim>\<open>kern/vm/copyinout.c\<close> and
  \<^verbatim>\<open>kern/lib/uio.c\<close>. Memory is a map from addresses to bytes together with the addresses a process
  may read and write; touching another user address raises the fault that \<open>copyfail\<close> turns
  into EFAULT, after the bytes before it have been copied. A buffer of the kernel that is the other
  end of a transfer is a list of bytes.
\<close>

section \<open>Data\<close>

record memory =
  mbytes :: "u32 \<Rightarrow> u8"
  ureadable :: "u32 \<Rightarrow> bool"
  uwritable :: "u32 \<Rightarrow> bool"

definition USERSPACETOP :: u32 where
  "USERSPACETOP = MIPS_KSEG0"

datatype uio_rw = UIO_READ | UIO_WRITE

datatype uio_seg = UIO_USERISPACE | UIO_USERSPACE | UIO_SYSSPACE

record iovec =
  iov_base :: u32
  iov_len :: nat

record uio =
  uio_iov :: "iovec list"
  uio_offset :: int
  uio_resid :: nat
  uio_segflg :: uio_seg
  uio_dir :: uio_rw
  uio_space :: "nat option"

section \<open>Copying in and out\<close>

text \<open>The result is the length that can be copied.\<close>

definition copycheck :: "u32 \<Rightarrow> nat \<Rightarrow> errno + nat" where
  "copycheck userptr len =
     (let bot = userptr; top = bot + of_nat len - 1 in
      if top < bot then Inl EFAULT
      else if bot \<ge> USERSPACETOP then Inl EFAULT
      else if top \<ge> USERSPACETOP then Inr (unat (USERSPACETOP - bot))
      else Inr len)"

text \<open>Copying forwards until the first fault. The loads return the bytes copied, the stores how many
  there were.\<close>

fun user_load :: "memory \<Rightarrow> u32 \<Rightarrow> nat \<Rightarrow> u8 list" where
  "user_load m a 0 = []"
| "user_load m a (Suc n) = (if ureadable m a then mbytes m a # user_load m (a + 1) n else [])"

fun user_store :: "memory \<Rightarrow> u32 \<Rightarrow> u8 list \<Rightarrow> nat \<times> memory" where
  "user_store m a [] = (0, m)"
| "user_store m a (x # xs) =
     (if uwritable m a then
        let (n, m') = user_store (m\<lparr>mbytes := (mbytes m)(a := x)\<rparr>) (a + 1) xs in (Suc n, m')
      else (0, m))"

definition copyin :: "memory \<Rightarrow> u32 \<Rightarrow> u8 list \<Rightarrow> nat \<Rightarrow> (errno + unit) \<times> u8 list" where
  "copyin m usersrc dest len =
     (case copycheck usersrc len of
        Inl e \<Rightarrow> (Inl e, dest)
      | Inr stoplen \<Rightarrow>
          if stoplen \<noteq> len then (Inl EFAULT, dest)
          else let xs = user_load m usersrc len in
            (if length xs < len then Inl EFAULT else Inr (), xs @ drop (length xs) dest))"

definition copyout :: "memory \<Rightarrow> u8 list \<Rightarrow> u32 \<Rightarrow> nat \<Rightarrow> (errno + unit) \<times> memory" where
  "copyout m src userdest len =
     (case copycheck userdest len of
        Inl e \<Rightarrow> (Inl e, m)
      | Inr stoplen \<Rightarrow>
          if stoplen \<noteq> len then (Inl EFAULT, m)
          else let (n, m') = user_store m userdest (take len src) in
            (if n < len then Inl EFAULT else Inr (), m'))"

text \<open>The two uses of \<open>copystr\<close>: the string is in user memory or goes there. The list of the copied
  bytes includes the terminator; \<open>i\<close> counts up to the smaller of the two limits.\<close>

function copystr_in :: "memory \<Rightarrow> u32 \<Rightarrow> nat \<Rightarrow> nat \<Rightarrow> nat \<Rightarrow> u8 list \<Rightarrow> (errno + nat) \<times> u8 list" where
  "copystr_in m src maxlen stoplen i acc =
     (if i < maxlen \<and> i < stoplen then
        if \<not> ureadable m (src + of_nat i) then (Inl EFAULT, acc)
        else let c = mbytes m (src + of_nat i) in
          if c = 0 then (Inr (i + 1), acc @ [c])
          else copystr_in m src maxlen stoplen (i + 1) (acc @ [c])
      else (Inl (if stoplen < maxlen then EFAULT else ENAMETOOLONG), acc))"
  by pat_completeness auto
termination by (relation "measure (\<lambda>(m, src, maxlen, stoplen, i, acc). maxlen - i)") auto

declare copystr_in.simps [simp del]

function copystr_out :: "memory \<Rightarrow> u8 list \<Rightarrow> u32 \<Rightarrow> nat \<Rightarrow> nat \<Rightarrow> nat \<Rightarrow> ((errno + nat) \<times> memory) option" where
  "copystr_out m src dest maxlen stoplen i =
     (if i < maxlen \<and> i < stoplen then do {
        c \<leftarrow> idx src i;
        if \<not> uwritable m (dest + of_nat i) then Some (Inl EFAULT, m)
        else do {
          let m = m\<lparr>mbytes := (mbytes m)(dest + of_nat i := c)\<rparr>;
          if c = 0 then Some (Inr (i + 1), m) else copystr_out m src dest maxlen stoplen (i + 1)
        }
      } else Some (Inl (if stoplen < maxlen then EFAULT else ENAMETOOLONG), m))"
  by pat_completeness auto
termination by (relation "measure (\<lambda>(m, src, dest, maxlen, stoplen, i). maxlen - i)") auto

declare copystr_out.simps [simp del]

definition copyinstr :: "memory \<Rightarrow> u32 \<Rightarrow> nat \<Rightarrow> (errno + nat) \<times> u8 list" where
  "copyinstr m usersrc len =
     (case copycheck usersrc len of
        Inl e \<Rightarrow> (Inl e, [])
      | Inr stoplen \<Rightarrow> copystr_in m usersrc len stoplen 0 [])"

definition copyoutstr :: "memory \<Rightarrow> u8 list \<Rightarrow> u32 \<Rightarrow> nat \<Rightarrow> ((errno + nat) \<times> memory) option" where
  "copyoutstr m src userdest len =
     (case copycheck userdest len of
        Inl e \<Rightarrow> Some (Inl e, m)
      | Inr stoplen \<Rightarrow> copystr_out m src userdest len stoplen 0)"

section \<open>Transfers described by a uio\<close>

text \<open>\<^verbatim>\<open>memmove\<close> between a buffer and kernel memory, which never faults.\<close>

definition mem_load :: "memory \<Rightarrow> u32 \<Rightarrow> nat \<Rightarrow> u8 list" where
  "mem_load m a n = map (\<lambda>i. mbytes m (a + of_nat i)) [0..<n]"

fun mem_store :: "memory \<Rightarrow> u32 \<Rightarrow> u8 list \<Rightarrow> memory" where
  "mem_store m a [] = m"
| "mem_store m a (x # xs) = mem_store (m\<lparr>mbytes := (mbytes m)(a := x)\<rparr>) (a + 1) xs"

text \<open>One transfer of \<open>size\<close> bytes to or from the first iovec: the result, the bytes that are in the
  buffer afterwards and the memory.\<close>

definition move_piece :: "memory \<Rightarrow> uio \<Rightarrow> u32 \<Rightarrow> u8 list \<Rightarrow> (errno + unit) \<times> u8 list \<times> memory" where
  "move_piece m u base piece =
     (case uio_segflg u of
        UIO_SYSSPACE \<Rightarrow>
          (case uio_dir u of
             UIO_READ \<Rightarrow> (Inr (), piece, mem_store m base piece)
           | UIO_WRITE \<Rightarrow> (Inr (), mem_load m base (length piece), m))
      | _ \<Rightarrow>
          (case uio_dir u of
             UIO_READ \<Rightarrow> let (r, m') = copyout m piece base (length piece) in (r, piece, m')
           | UIO_WRITE \<Rightarrow> let (r, xs) = copyin m base piece (length piece) in (r, xs, m)))"

text \<open>The loop of \<open>uiomove\<close>: \<open>front\<close> has been transferred, \<open>rest\<close> has not.\<close>

function uiomove_loop :: "memory \<Rightarrow> uio \<Rightarrow> u8 list \<Rightarrow> u8 list \<Rightarrow> ((errno + unit) \<times> u8 list \<times> uio \<times> memory) option" where
  "uiomove_loop m u front rest =
     (if rest \<noteq> [] \<and> uio_resid u > 0 then
        case uio_iov u of
          [] \<Rightarrow> None
        | iov # iovs \<Rightarrow>
            let size = min (iov_len iov) (length rest) in
            if size = 0 then
              if iovs = [] then None else uiomove_loop m (u\<lparr>uio_iov := iovs\<rparr>) front rest
            else
              let (r, piece, m') = move_piece m u (iov_base iov) (take size rest) in
              case r of
                Inl e \<Rightarrow> Some (Inl e, front @ piece @ drop size rest, u, m')
              | Inr _ \<Rightarrow>
                  uiomove_loop m'
                    (u\<lparr>uio_iov := iov\<lparr>iov_base := iov_base iov + of_nat size, iov_len := iov_len iov - size\<rparr> # iovs,
                       uio_resid := sub32 (uio_resid u) size, uio_offset := uio_offset u + int size\<rparr>)
                    (front @ piece) (drop size rest)
      else Some (Inr (), front @ rest, u, m))"
  by pat_completeness auto
termination
  by (relation "measures [\<lambda>(m, u, front, rest). length rest, \<lambda>(m, u, front, rest). length (uio_iov u)]") auto

declare uiomove_loop.simps [simp del]

text \<open>\<open>curas\<close> is the current address space, which a transfer to or from a process must name; \<open>buf\<close> is the
  kernel buffer, of which \<open>n\<close> bytes are to be moved.\<close>

definition uiomove :: "nat option \<Rightarrow> memory \<Rightarrow> u8 list \<Rightarrow> nat \<Rightarrow> uio \<Rightarrow> ((errno + unit) \<times> u8 list \<times> uio \<times> memory) option" where
  "uiomove curas m buf n u = do {
     KASSERT (if uio_segflg u = UIO_SYSSPACE then uio_space u = None else uio_space u = curas);
     KASSERT (n \<le> length buf);
     (r, xs, u, m) \<leftarrow> uiomove_loop m u [] (take n buf);
     Some (r, xs @ drop n buf, u, m)
   }"

function uiomovezeros :: "nat option \<Rightarrow> memory \<Rightarrow> nat \<Rightarrow> uio \<Rightarrow> ((errno + unit) \<times> uio \<times> memory) option" where
  "uiomovezeros curas m n u = do {
     KASSERT (uio_dir u = UIO_READ);
     if n > 0 then do {
       let amt = min 16 n;
       (r, _, u, m) \<leftarrow> uiomove curas m (replicate 16 0) amt u;
       case r of
         Inl e \<Rightarrow> Some (Inl e, u, m)
       | Inr _ \<Rightarrow> uiomovezeros curas m (n - amt) u
     } else Some (Inr (), u, m)
   }"
  by pat_completeness auto
termination by (relation "measure (\<lambda>(curas, m, n, u). n)") auto

declare uiomovezeros.simps [simp del]

definition uio_kinit :: "u32 \<Rightarrow> nat \<Rightarrow> int \<Rightarrow> uio_rw \<Rightarrow> uio" where
  "uio_kinit kbuf len pos rw =
     \<lparr>uio_iov = [\<lparr>iov_base = kbuf, iov_len = len\<rparr>], uio_offset = pos, uio_resid = len,
      uio_segflg = UIO_SYSSPACE, uio_dir = rw, uio_space = None\<rparr>"

section \<open>What a transfer does\<close>

text \<open>Storing bytes at a list of addresses, and the bytes found there.\<close>

fun mem_put :: "memory \<Rightarrow> u32 list \<Rightarrow> u8 list \<Rightarrow> memory" where
  "mem_put m (a # as) (x # xs) = mem_put (m\<lparr>mbytes := (mbytes m)(a := x)\<rparr>) as xs"
| "mem_put m _ _ = m"

definition mem_get :: "memory \<Rightarrow> u32 list \<Rightarrow> u8 list" where
  "mem_get m as = map (mbytes m) as"

definition addrs_from :: "u32 \<Rightarrow> nat \<Rightarrow> u32 list" where
  "addrs_from a n = map (\<lambda>i. a + of_nat i) [0..<n]"

text \<open>The addresses a uio still covers, in order.\<close>

definition uio_addrs :: "uio \<Rightarrow> u32 list" where
  "uio_addrs u = concat (map (\<lambda>iov. addrs_from (iov_base iov) (iov_len iov)) (uio_iov u))"

definition may_touch :: "memory \<Rightarrow> uio \<Rightarrow> u32 \<Rightarrow> bool" where
  "may_touch m u a \<longleftrightarrow> uio_segflg u = UIO_SYSSPACE \<or>
     a < USERSPACETOP \<and> (case uio_dir u of UIO_READ \<Rightarrow> uwritable m a | UIO_WRITE \<Rightarrow> ureadable m a)"

lemma addrs_from_simps [simp]:
  "addrs_from a 0 = []" "addrs_from a (Suc n) = a # addrs_from (a + 1) n" "length (addrs_from a n) = n"
proof -
  show "addrs_from a (Suc n) = a # addrs_from (a + 1) n"
    by (simp add: addrs_from_def upt_conv_Cons map_Suc_upt [symmetric] comp_def add.assoc del: upt_Suc)
qed (simp_all add: addrs_from_def)

lemma addrs_from_split: "n \<le> k \<Longrightarrow> addrs_from a k = addrs_from a n @ addrs_from (a + of_nat n) (k - n)"
proof (induction n arbitrary: a k)
  case (Suc n)
  then obtain k' where "k = Suc k'" by (cases k) auto
  then show ?case using Suc.IH [of k' "a + 1"] Suc.prems by (simp add: add.assoc)
qed simp

lemma mem_put_flags [simp]: "ureadable (mem_put m as xs) = ureadable m" "uwritable (mem_put m as xs) = uwritable m"
  by (induction m as xs rule: mem_put.induct) simp_all

lemma mem_put_append: "length as = length xs \<Longrightarrow> mem_put m (as @ bs) (xs @ ys) = mem_put (mem_put m as xs) bs ys"
  by (induction m as xs rule: mem_put.induct) auto

lemma mem_put_other: "a \<notin> set as \<Longrightarrow> mbytes (mem_put m as xs) a = mbytes m a"
  by (induction m as xs rule: mem_put.induct) auto

lemma mem_put_nth:
  "distinct as \<Longrightarrow> length as = length xs \<Longrightarrow> i < length as \<Longrightarrow> mbytes (mem_put m as xs) (as ! i) = xs ! i"
proof (induction m as xs arbitrary: i rule: mem_put.induct)
  case (1 m a as x xs)
  show ?case
  proof (cases i)
    case 0
    then show ?thesis using 1 by (simp add: mem_put_other)
  next
    case (Suc j)
    then show ?thesis using 1 by simp
  qed
qed simp_all

lemma mem_store_put: "mem_store m a xs = mem_put m (addrs_from a (length xs)) xs"
  by (induction xs arbitrary: m a) simp_all

lemma mem_load_get: "mem_load m a n = mem_get m (addrs_from a n)"
  by (simp add: mem_load_def mem_get_def addrs_from_def)

lemma user_load_get: "\<forall>b \<in> set (addrs_from a n). ureadable m b \<Longrightarrow> user_load m a n = mem_get m (addrs_from a n)"
  by (induction n arbitrary: a) (simp_all add: mem_get_def)

lemma user_store_put:
  "\<forall>b \<in> set (addrs_from a (length xs)). uwritable m b \<Longrightarrow> user_store m a xs = (length xs, mem_put m (addrs_from a (length xs)) xs)"
  by (induction xs arbitrary: m a) simp_all

lemma addrs_below:
  assumes "\<forall>b \<in> set (addrs_from a n). b < USERSPACETOP" "i < n"
  shows "unat (a + of_nat i) = unat a + i" "unat a + i < 2147483648"
proof -
  have lt: "unat (a + of_nat i) < 2147483648" if "i < n" for i
    using assms(1) that by (auto simp: addrs_from_def USERSPACETOP_def MIPS_KSEG0_def word_less_nat_alt)
  have "unat (a + of_nat i) = unat a + i" if "i < n" for i
    using that
  proof (induction i)
    case (Suc i)
    then have "unat (a + of_nat i) = unat a + i" "unat (a + of_nat i) < 2147483648" using lt [of i] by simp_all
    moreover have "a + of_nat (Suc i) = (a + of_nat i) + 1" by simp
    ultimately show ?case by (simp only: unat_word_ariths(1)) simp
  qed simp
  then show "unat (a + of_nat i) = unat a + i" "unat a + i < 2147483648" using assms(2) lt by metis+
qed

lemma copycheck_ok:
  assumes "\<forall>b \<in> set (addrs_from a n). b < USERSPACETOP" "0 < n"
  shows "copycheck a n = Inr n"
proof -
  have i: "n - 1 < n" using assms(2) by simp
  have e: "a + of_nat n - 1 = a + of_nat (n - 1)" using assms(2) by (simp add: of_nat_diff)
  note B = addrs_below [OF assms(1) i]
  have "unat a < 2147483648" using B by simp
  then show ?thesis
    unfolding copycheck_def Let_def e using B by (simp add: word_less_nat_alt word_le_nat_alt USERSPACETOP_def MIPS_KSEG0_def)
qed

text \<open>A piece that may be touched is moved as a whole.\<close>

definition moved :: "memory \<Rightarrow> uio \<Rightarrow> u32 list \<Rightarrow> u8 list \<Rightarrow> u8 list \<times> memory" where
  "moved m u as xs = (case uio_dir u of UIO_READ \<Rightarrow> (xs, mem_put m as xs) | UIO_WRITE \<Rightarrow> (mem_get m as, m))"

lemma move_piece_ok:
  assumes "\<forall>a \<in> set (addrs_from base (length piece)). may_touch m u a" "piece \<noteq> []"
  shows "move_piece m u base piece = (Inr (), moved m u (addrs_from base (length piece)) piece)"
proof (cases "uio_segflg u = UIO_SYSSPACE")
  case True
  then show ?thesis by (cases "uio_dir u") (simp_all add: move_piece_def moved_def mem_store_put mem_load_get)
next
  case False
  then have "\<forall>a \<in> set (addrs_from base (length piece)). a < USERSPACETOP" using assms(1) by (auto simp: may_touch_def)
  then have cc: "copycheck base (length piece) = Inr (length piece)" using assms(2) by (intro copycheck_ok) simp_all
  show ?thesis
  proof (cases "uio_dir u")
    case UIO_READ
    then have "\<forall>a \<in> set (addrs_from base (length piece)). uwritable m a" using assms(1) False by (auto simp: may_touch_def)
    then have "copyout m piece base (length piece) = (Inr (), mem_put m (addrs_from base (length piece)) piece)"
      using cc by (simp add: copyout_def user_store_put)
    then show ?thesis using False UIO_READ by (cases "uio_segflg u") (simp_all add: move_piece_def moved_def)
  next
    case UIO_WRITE
    then have "\<forall>a \<in> set (addrs_from base (length piece)). ureadable m a" using assms(1) False by (auto simp: may_touch_def)
    then have "copyin m base piece (length piece) = (Inr (), mem_get m (addrs_from base (length piece)))"
      using cc by (simp add: copyin_def user_load_get mem_get_def)
    then show ?thesis using False UIO_WRITE by (cases "uio_segflg u") (simp_all add: move_piece_def moved_def)
  qed
qed
lemma uiomove_loop_ok:
  assumes "length rest \<le> length (uio_addrs u)" "length rest \<le> uio_resid u" "uio_resid u < 2 ^ 32"
    and "\<forall>a \<in> set (take (length rest) (uio_addrs u)). may_touch m u a"
  shows "\<exists>u'. uiomove_loop m u front rest =
      (let (xs, m') = moved m u (take (length rest) (uio_addrs u)) rest in Some (Inr (), front @ xs, u', m')) \<and>
    uio_addrs u' = drop (length rest) (uio_addrs u) \<and> uio_resid u' = uio_resid u - length rest \<and>
    uio_offset u' = uio_offset u + int (length rest) \<and> uio_segflg u' = uio_segflg u \<and> uio_dir u' = uio_dir u \<and>
    uio_space u' = uio_space u"
  using assms
proof (induction m u front rest rule: uiomove_loop.induct)
  case (1 m u front rest)
  show ?case
  proof (cases "rest = []")
    case True
    then show ?thesis
      by (intro exI [of _ u]) (subst uiomove_loop.simps, cases "uio_dir u", simp_all add: moved_def mem_get_def)
  next
    case False
    then have go: "rest \<noteq> [] \<and> uio_resid u > 0" using "1.prems"(2) by (cases rest) simp_all
    obtain iov iovs where iov: "uio_iov u = iov # iovs" using "1.prems"(1) False by (cases "uio_iov u") (auto simp: uio_addrs_def)
    define size where "size = min (iov_len iov) (length rest)"
    have addrs: "uio_addrs u = addrs_from (iov_base iov) (iov_len iov) @ uio_addrs (u\<lparr>uio_iov := iovs\<rparr>)"
      using iov by (simp add: uio_addrs_def)
    show ?thesis
    proof (cases "size = 0")
      case True
      then have l: "iov_len iov = 0" using False by (simp add: size_def min_def split: if_splits)
      then have a: "uio_addrs u = uio_addrs (u\<lparr>uio_iov := iovs\<rparr>)" using addrs by simp
      have ne: "iovs \<noteq> []" using a False "1.prems"(1) by (auto simp: uio_addrs_def)
      have step: "uiomove_loop m u front rest = uiomove_loop m (u\<lparr>uio_iov := iovs\<rparr>) front rest"
        using go iov True ne l by (subst uiomove_loop.simps) simp
      have touch: "may_touch m (u\<lparr>uio_iov := iovs\<rparr>) = may_touch m u" by (simp add: may_touch_def fun_eq_iff)
      have mv: "moved m (u\<lparr>uio_iov := iovs\<rparr>) = moved m u" by (simp add: moved_def fun_eq_iff)
      show ?thesis
        using "1.IH"(1) [OF go iov size_def True ne] "1.prems" unfolding step mv touch a [symmetric] by auto
    next
      case pos: False
      have sz: "0 < size" "size \<le> iov_len iov" "size \<le> length rest" using pos by (simp_all add: size_def)
      let ?as = "addrs_from (iov_base iov) size"
      let ?u = "u\<lparr>uio_iov := iov\<lparr>iov_base := iov_base iov + of_nat size, iov_len := iov_len iov - size\<rparr> # iovs,
                   uio_resid := sub32 (uio_resid u) size, uio_offset := uio_offset u + int size\<rparr>"
      have split: "uio_addrs u = ?as @ uio_addrs ?u"
        unfolding addrs using addrs_from_split [OF sz(2)] by (simp add: uio_addrs_def)
      have tk: "take (length rest) (uio_addrs u) = ?as @ take (length rest - size) (uio_addrs ?u)"
        unfolding split using sz by simp
      have resid: "sub32 (uio_resid u) size = uio_resid u - size"
        using "1.prems"(2,3) sz(3) by (intro sub32_small) simp_all
      have len: "length (take size rest) = size" using sz by simp
      have "\<forall>a \<in> set ?as. may_touch m u a" using "1.prems"(4) unfolding tk by simp
      then have mp: "move_piece m u (iov_base iov) (take size rest) = (Inr (), moved m u ?as (take size rest))"
        using move_piece_ok [of "iov_base iov" "take size rest" m u] sz False unfolding len by simp
      obtain xs m' where mv: "moved m u ?as (take size rest) = (xs, m')" by fastforce
      have flags: "ureadable m' = ureadable m" "uwritable m' = uwritable m"
        using mv by (auto simp: moved_def split: uio_rw.splits)
      have touch: "may_touch m' ?u = may_touch m u" by (rule ext) (simp add: may_touch_def flags split: uio_rw.split)
      have dl: "length (drop size rest) = length rest - size" by simp
      have "\<exists>u'. uiomove_loop m' ?u (front @ xs) (drop size rest) =
          (let (ys, m'') = moved m' ?u (take (length (drop size rest)) (uio_addrs ?u)) (drop size rest) in
             Some (Inr (), (front @ xs) @ ys, u', m'')) \<and>
          uio_addrs u' = drop (length (drop size rest)) (uio_addrs ?u) \<and> uio_resid u' = uio_resid ?u - length (drop size rest) \<and>
          uio_offset u' = uio_offset ?u + int (length (drop size rest)) \<and> uio_segflg u' = uio_segflg ?u \<and>
          uio_dir u' = uio_dir ?u \<and> uio_space u' = uio_space ?u"
      proof (rule "1.IH"(2) [OF go iov size_def pos])
        show "(Inr (), xs, m') = move_piece m u (iov_base iov) (take size rest)" using mp mv by simp
        show "(xs, m') = (xs, m')" "Inr () = Inr ()" by simp_all
        show "length (drop size rest) \<le> length (uio_addrs ?u)" using "1.prems"(1) unfolding split by simp
        show "length (drop size rest) \<le> uio_resid ?u" "uio_resid ?u < 2 ^ 32" using "1.prems"(2,3) by (simp_all add: resid)
        show "\<forall>a \<in> set (take (length (drop size rest)) (uio_addrs ?u)). may_touch m' ?u a"
          unfolding touch dl using "1.prems"(4) unfolding tk by simp
      qed simp_all
      moreover have "uiomove_loop m u front rest = uiomove_loop m' ?u (front @ xs) (drop size rest)"
        using go iov pos mp mv by (subst uiomove_loop.simps) (simp add: size_def [symmetric] Let_def)
      moreover have "(let (ys, m'') = moved m' ?u (take (length (drop size rest)) (uio_addrs ?u)) (drop size rest) in
             Some (Inr (), (front @ xs) @ ys, u', m'')) =
          (let (xs, m') = moved m u (take (length rest) (uio_addrs u)) rest in Some (Inr (), front @ xs, u', m'))" for u'
      proof (cases "uio_dir u")
        case UIO_READ
        have "mem_put m (take (length rest) (uio_addrs u)) (take size rest @ drop size rest) =
            mem_put (mem_put m ?as (take size rest)) (take (length rest - size) (uio_addrs ?u)) (drop size rest)"
          unfolding tk by (rule mem_put_append) (simp only: len addrs_from_simps)
        then show ?thesis using mv UIO_READ by (auto simp: moved_def)
      next
        case UIO_WRITE
        then show ?thesis using mv by (auto simp: moved_def tk mem_get_def)
      qed
      ultimately show ?thesis
        using sz "1.prems"(2) by (elim exE) (rule exI, auto simp: resid split drop_append)
    qed
  qed
qed
text \<open>How a transfer of \<open>n\<close> bytes advances the uio.\<close>

definition advanced :: "uio \<Rightarrow> nat \<Rightarrow> uio \<Rightarrow> bool" where
  "advanced u n u' \<longleftrightarrow> uio_addrs u' = drop n (uio_addrs u) \<and> uio_resid u' = uio_resid u - n \<and>
     uio_offset u' = uio_offset u + int n \<and> uio_segflg u' = uio_segflg u \<and> uio_dir u' = uio_dir u \<and> uio_space u' = uio_space u"

definition space_ok :: "nat option \<Rightarrow> uio \<Rightarrow> bool" where
  "space_ok curas u \<longleftrightarrow> (if uio_segflg u = UIO_SYSSPACE then uio_space u = None else uio_space u = curas)"

text \<open>A uio that can take \<open>n\<close> more bytes.\<close>

definition can_move :: "nat option \<Rightarrow> memory \<Rightarrow> uio \<Rightarrow> nat \<Rightarrow> bool" where
  "can_move curas m u n \<longleftrightarrow> space_ok curas u \<and> n \<le> length (uio_addrs u) \<and> n \<le> uio_resid u \<and> uio_resid u < 2 ^ 32 \<and>
     (\<forall>a \<in> set (take n (uio_addrs u)). may_touch m u a)"

lemma uiomove_ok:
  assumes "can_move curas m u n" "n \<le> length buf"
  shows "\<exists>u'. uiomove curas m buf n u =
      Some (Inr (), fst (moved m u (take n (uio_addrs u)) (take n buf)) @ drop n buf, u',
        snd (moved m u (take n (uio_addrs u)) (take n buf))) \<and> advanced u n u'"
proof -
  have l: "length (take n buf) = n" using assms(2) by simp
  obtain u' where u': "uiomove_loop m u [] (take n buf) =
      (let (xs, m') = moved m u (take n (uio_addrs u)) (take n buf) in Some (Inr (), [] @ xs, u', m'))" "advanced u n u'"
    using uiomove_loop_ok [of "take n buf" u m "[]"] assms(1) unfolding l can_move_def advanced_def by auto
  then show ?thesis
    using assms unfolding uiomove_def can_move_def space_ok_def by (intro exI [of _ u']) (simp add: case_prod_beta' Let_def)
qed

lemma can_move_advanced:
  assumes "can_move curas m u n" "advanced u k u'" "k \<le> n" "ureadable m' = ureadable m" "uwritable m' = uwritable m"
  shows "can_move curas m' u' (n - k)"
proof -
  have "may_touch m' u' a = may_touch m u a" for a
    using assms(2,4,5) by (simp add: may_touch_def advanced_def split: uio_rw.split)
  moreover have "set (take (n - k) (drop k (uio_addrs u))) \<subseteq> set (take n (uio_addrs u))"
    using assms(3) by (metis drop_take set_drop_subset)
  ultimately show ?thesis using assms(1-3) by (auto simp: can_move_def advanced_def space_ok_def)
qed

lemma moved_flags [simp]:
  "ureadable (snd (moved m u as xs)) = ureadable m" "uwritable (snd (moved m u as xs)) = uwritable m"
  by (simp_all add: moved_def split: uio_rw.split)

lemma advanced_trans: "advanced u a u' \<Longrightarrow> advanced u' b u'' \<Longrightarrow> advanced u (a + b) u''"
  by (simp add: advanced_def add.commute)

lemma advanced_0 [simp]: "advanced u 0 u"
  by (simp add: advanced_def)

lemma uiomovezeros_ok:
  assumes "can_move curas m u n" "uio_dir u = UIO_READ"
  shows "\<exists>u'. uiomovezeros curas m n u = Some (Inr (), u', mem_put m (take n (uio_addrs u)) (replicate n 0)) \<and> advanced u n u'"
  using assms
proof (induction n arbitrary: m u rule: less_induct)
  case (less n)
  show ?case
  proof (cases "n = 0")
    case True
    then show ?thesis using less.prems by (intro exI [of _ u]) (simp add: uiomovezeros.simps)
  next
    case False
    define k where "k = min 16 n"
    have k: "0 < k" "k \<le> n" "k \<le> 16" using False by (simp_all add: k_def)
    have cm: "can_move curas m u k"
      using less.prems(1) k(2) set_take_subset_set_take [OF k(2), of "uio_addrs u"] by (auto simp: can_move_def)
    have tz: "take k (replicate 16 (0 :: u8)) = replicate k 0" using k(3) by simp
    obtain u1 where u1: "uiomove curas m (replicate 16 0) k u = Some (Inr (), replicate 16 0, u1, mem_put m (take k (uio_addrs u)) (replicate k 0))"
        "advanced u k u1"
      using uiomove_ok [OF cm, of "replicate 16 0"] k less.prems(2) by (auto simp: moved_def tz simp flip: replicate_add)
    let ?m = "mem_put m (take k (uio_addrs u)) (replicate k 0)"
    have cm1: "can_move curas ?m u1 (n - k)" using can_move_advanced [OF less.prems(1) u1(2) k(2)] by simp
    have d1: "uio_dir u1 = UIO_READ" using u1(2) less.prems(2) by (simp add: advanced_def)
    obtain u2 where u2: "uiomovezeros curas ?m (n - k) u1 = Some (Inr (), u2, mem_put ?m (take (n - k) (uio_addrs u1)) (replicate (n - k) 0))"
        "advanced u1 (n - k) u2"
      using less.IH [OF _ cm1 d1] k by auto
    have a1: "uio_addrs u1 = drop k (uio_addrs u)" using u1(2) by (simp add: advanced_def)
    have len: "n \<le> length (uio_addrs u)" using less.prems(1) by (simp add: can_move_def)
    have "take n (uio_addrs u) = take k (uio_addrs u) @ take (n - k) (drop k (uio_addrs u))"
      using k(2) by (metis le_add_diff_inverse take_add)
    moreover have "replicate n (0 :: u8) = replicate k 0 @ replicate (n - k) 0" using k(2) by (simp flip: replicate_add)
    ultimately have "mem_put m (take n (uio_addrs u)) (replicate n 0) = mem_put ?m (take (n - k) (drop k (uio_addrs u))) (replicate (n - k) 0)"
      using mem_put_append [of "take k (uio_addrs u)" "replicate k 0" m] k(2) len by simp
    moreover have "uiomovezeros curas m n u = uiomovezeros curas ?m (n - k) u1"
      using less.prems(2) False u1(1) by (subst uiomovezeros.simps) (simp add: k_def [symmetric] Let_def)
    ultimately show ?thesis
      using u2 advanced_trans [OF u1(2) u2(2)] k(2) unfolding a1 by (intro exI [of _ u2]) simp
  qed
qed

section \<open>Protection of the kernel\<close>

text \<open>Only memory that the process may write has changed.\<close>

definition confined :: "memory \<Rightarrow> memory \<Rightarrow> bool" where
  "confined m m' \<longleftrightarrow> ureadable m' = ureadable m \<and> uwritable m' = uwritable m \<and>
     (\<forall>a. mbytes m' a \<noteq> mbytes m a \<longrightarrow> a < USERSPACETOP \<and> uwritable m a)"

lemma confined_refl [simp]: "confined m m"
  by (simp add: confined_def)

lemma confined_trans: "confined m m' \<Longrightarrow> confined m' m'' \<Longrightarrow> confined m m''"
  unfolding confined_def by metis

lemma copycheck_below:
  assumes "copycheck a n = Inr k" "0 < n" "n < 2 ^ 32"
  shows "unat a + k \<le> 2147483648" "k \<le> n"
proof -
  let ?t = "a + of_nat n - 1"
  have c: "\<not> ?t < a" "\<not> a \<ge> USERSPACETOP" "k = (if ?t \<ge> USERSPACETOP then unat (USERSPACETOP - a) else n)"
    using assms(1) by (auto simp: copycheck_def Let_def split: if_splits)
  have a: "unat a < 2147483648" using c(2) by (simp add: USERSPACETOP_def MIPS_KSEG0_def word_le_nat_alt)
  have top: "unat (USERSPACETOP - a) = 2147483648 - unat a"
    using a by (simp add: USERSPACETOP_def MIPS_KSEG0_def unat_sub word_le_nat_alt)
  have "?t = of_nat (unat a + (n - 1))" using assms(2) by (simp add: of_nat_diff)
  then have "unat ?t = (unat a + (n - 1)) mod 4294967296"
    by (simp only: unsigned_of_nat) (simp add: take_bit_nat_def)
  moreover have "\<not> unat ?t < unat a" using c(1) word_less_nat_alt by blast
  moreover have "(unat a + (n - 1)) mod 4294967296 = unat a + (n - 1) - 4294967296" if "4294967296 \<le> unat a + (n - 1)"
    using that a assms(3) by (simp add: le_mod_geq)
  ultimately have t: "unat ?t = unat a + (n - 1)" using a assms(3) by (cases "4294967296 \<le> unat a + (n - 1)") simp_all
  have "unat a + k \<le> 2147483648 \<and> k \<le> n"
  proof (cases "?t \<ge> USERSPACETOP")
    case True
    then have "2147483648 \<le> unat a + (n - 1)" using t by (simp add: USERSPACETOP_def MIPS_KSEG0_def word_le_nat_alt)
    then show ?thesis using True c(3) top a assms(2) by simp
  next
    case False
    then have "unat a + (n - 1) < 2147483648" using t by (simp add: USERSPACETOP_def MIPS_KSEG0_def word_le_nat_alt)
    then show ?thesis using False c(3) assms(2) by simp
  qed
  then show "unat a + k \<le> 2147483648" "k \<le> n" by simp_all
qed

lemma below_top: "unat a + i < 2147483648 \<Longrightarrow> a + of_nat i < USERSPACETOP"
  by (simp add: USERSPACETOP_def MIPS_KSEG0_def word_less_nat_alt unat_word_ariths unsigned_of_nat take_bit_nat_def mod_add_right_eq)

lemma confined_store:
  "uwritable m a \<Longrightarrow> a < USERSPACETOP \<Longrightarrow> confined m (m\<lparr>mbytes := (mbytes m)(a := x)\<rparr>)"
  by (simp add: confined_def)

lemma user_store_confined: "unat a + length xs \<le> 2147483648 \<Longrightarrow> confined m (snd (user_store m a xs))"
proof (induction xs arbitrary: m a)
  case (Cons x xs)
  have a: "a < USERSPACETOP" using below_top [of a 0] Cons.prems by simp
  show ?case
  proof (cases "xs = [] \<or> \<not> uwritable m a")
    case True
    then show ?thesis using confined_store [OF _ a] by auto
  next
    case False
    then have "unat (a + 1) = unat a + 1" using Cons.prems by (cases xs) (simp_all add: unat_word_ariths)
    then have "confined (m\<lparr>mbytes := (mbytes m)(a := x)\<rparr>) (snd (user_store (m\<lparr>mbytes := (mbytes m)(a := x)\<rparr>) (a + 1) xs))"
      using Cons.prems by (intro Cons.IH) simp
    then show ?thesis using False confined_trans [OF confined_store [OF _ a]] by (simp add: case_prod_beta' Let_def)
  qed
qed simp

lemma copyout_confined:
  assumes "len < 2 ^ 32"
  shows "confined m (snd (copyout m src userdest len))"
proof (cases "copycheck userdest len = Inr len \<and> 0 < len")
  case True
  then have "unat userdest + length (take len src) \<le> 2147483648" using copycheck_below [of userdest len len] assms by simp
  then have "confined m (snd (user_store m userdest (take len src)))" by (rule user_store_confined)
  then show ?thesis using True by (simp add: copyout_def case_prod_beta' Let_def)
next
  case False
  then show ?thesis by (auto simp: copyout_def case_prod_beta' Let_def split: sum.split)
qed

lemma copystr_out_confined:
  "copystr_out m src dest maxlen stoplen i = Some (r, m') \<Longrightarrow> unat dest + stoplen \<le> 2147483648 \<Longrightarrow> confined m m'"
proof (induction m src dest maxlen stoplen i arbitrary: r m' rule: copystr_out.induct)
  case (1 m src dest maxlen stoplen i)
  show ?case
  proof (cases "i < maxlen \<and> i < stoplen")
    case go: True
    then have top: "dest + of_nat i < USERSPACETOP" using "1.prems"(2) by (intro below_top) simp
    obtain c where c: "idx src i = Some c"
      using "1.prems"(1) go by (subst (asm) copystr_out.simps) (auto simp: Option.bind_eq_Some_conv split: if_splits)
    let ?m = "m\<lparr>mbytes := (mbytes m)(dest + of_nat i := c)\<rparr>"
    show ?thesis
    proof (cases "uwritable m (dest + of_nat i)")
      case w: True
      note st = confined_store [OF w top, of c]
      show ?thesis
      proof (cases "c = 0")
        case True
        then show ?thesis using "1.prems"(1) go c w st by (subst (asm) copystr_out.simps) (auto simp: Let_def)
      next
        case False
        then have "copystr_out ?m src dest maxlen stoplen (i + 1) = Some (r, m')"
          using "1.prems"(1) go c w by (subst (asm) copystr_out.simps) (simp add: Let_def)
        then show ?thesis using "1.IH" [OF go c _ refl False] w "1.prems"(2) confined_trans [OF st] by simp
      qed
    next
      case False
      then show ?thesis using "1.prems"(1) go c by (subst (asm) copystr_out.simps) auto
    qed
  next
    case False
    then show ?thesis using "1.prems"(1) by (subst (asm) copystr_out.simps) (auto split: if_splits)
  qed
qed

lemma move_piece_confined:
  "uio_segflg u \<noteq> UIO_SYSSPACE \<Longrightarrow> length piece < 2 ^ 32 \<Longrightarrow> move_piece m u base piece = (r, xs, m') \<Longrightarrow> confined m m'"
  using copyout_confined [of "length piece" m piece base]
  by (cases "uio_segflg u"; cases "uio_dir u"; auto simp: move_piece_def case_prod_beta' Let_def)

lemma uiomove_loop_confined:
  "uiomove_loop m u front rest = Some (r, buf, u', m') \<Longrightarrow> uio_segflg u \<noteq> UIO_SYSSPACE \<Longrightarrow> length rest < 2 ^ 32 \<Longrightarrow> confined m m'"
proof (induction m u front rest arbitrary: r buf u' m' rule: uiomove_loop.induct)
  case (1 m u front rest)
  show ?case
  proof (cases "rest \<noteq> [] \<and> uio_resid u > 0")
    case go: True
    obtain iov iovs where iov: "uio_iov u = iov # iovs"
      using "1.prems"(1) go by (subst (asm) uiomove_loop.simps) (auto split: list.splits)
    define size where "size = min (iov_len iov) (length rest)"
    show ?thesis
    proof (cases "size = 0")
      case True
      then have ne: "iovs \<noteq> []" and "uiomove_loop m (u\<lparr>uio_iov := iovs\<rparr>) front rest = Some (r, buf, u', m')"
        using "1.prems"(1) go iov by (subst (asm) uiomove_loop.simps, auto simp: size_def Let_def split: if_splits)+
      then show ?thesis using "1.IH"(1) [OF go iov size_def True ne] "1.prems"(2,3) by simp
    next
      case pos: False
      obtain r1 xs m1 where mp: "move_piece m u (iov_base iov) (take size rest) = (r1, xs, m1)" by (metis prod_cases3)
      have c1: "confined m m1" using move_piece_confined [OF "1.prems"(2) _ mp] "1.prems"(3) by simp
      show ?thesis
      proof (cases r1)
        case (Inl e)
        then show ?thesis using "1.prems"(1) go iov pos mp c1
          by (subst (asm) uiomove_loop.simps) (simp add: size_def [symmetric] Let_def)
      next
        case (Inr z)
        let ?u = "u\<lparr>uio_iov := iov\<lparr>iov_base := iov_base iov + of_nat size, iov_len := iov_len iov - size\<rparr> # iovs,
                   uio_resid := sub32 (uio_resid u) size, uio_offset := uio_offset u + int size\<rparr>"
        have step: "uiomove_loop m1 ?u (front @ xs) (drop size rest) = Some (r, buf, u', m')"
          using "1.prems"(1) go iov pos mp Inr by (subst (asm) uiomove_loop.simps) (simp add: size_def [symmetric] Let_def)
        have "confined m1 m'"
        proof (rule "1.IH"(2) [OF go iov size_def pos])
          show "(r1, xs, m1) = move_piece m u (iov_base iov) (take size rest)" using mp by simp
          show "uiomove_loop m1 ?u (front @ xs) (drop size rest) = Some (r, buf, u', m')" by (rule step)
          show "(xs, m1) = (xs, m1)" "r1 = Inr z" "uio_segflg ?u \<noteq> UIO_SYSSPACE" "length (drop size rest) < 2 ^ 32"
            using Inr "1.prems"(2,3) by simp_all
        qed simp_all
        then show ?thesis using confined_trans [OF c1] by simp
      qed
    qed
  next
    case False
    then show ?thesis using "1.prems"(1) by (subst (asm) uiomove_loop.simps) (auto split: if_splits)
  qed
qed

text \<open>C22: \<open>uiomove\<close> moves exactly the bytes asked for. For a uio that covers at least \<open>n\<close> more bytes, all of
  which may be touched in its direction, it succeeds: a read stores the first \<open>n\<close> bytes of the buffer at the next
  \<open>n\<close> addresses of the uio, however they are split into iovecs, a write fetches the bytes there into the front of
  the buffer, and the uio has then dropped these addresses, lost \<open>n\<close> of its residue and gained \<open>n\<close> of offset.\<close>

theorem uiomove_moves:
  assumes "can_move curas m u n" "n \<le> length buf"
  shows "\<exists>u'. advanced u n u' \<and> uiomove curas m buf n u =
      Some (case uio_dir u of
          UIO_READ \<Rightarrow> (Inr (), buf, u', mem_put m (take n (uio_addrs u)) (take n buf))
        | UIO_WRITE \<Rightarrow> (Inr (), mem_get m (take n (uio_addrs u)) @ drop n buf, u', m))"
  using uiomove_ok [OF assms] by (elim exE conjE) (rule exI, auto simp: moved_def split: uio_rw.split)

text \<open>Two iovecs, the first of them a single byte, and a transfer of three bytes.\<close>

definition sample_memory :: memory where
  "sample_memory = \<lparr>mbytes = (\<lambda>_. 7), ureadable = (\<lambda>_. True), uwritable = (\<lambda>a. a < 0x1000)\<rparr>"

definition sample_uio :: uio where
  "sample_uio = \<lparr>uio_iov = [\<lparr>iov_base = 0x100, iov_len = 1\<rparr>, \<lparr>iov_base = 0x200, iov_len = 4\<rparr>], uio_offset = 10, uio_resid = 5,
     uio_segflg = UIO_USERSPACE, uio_dir = UIO_READ, uio_space = Some 1\<rparr>"

lemma sample_addrs: "uio_addrs sample_uio = [0x100, 0x200, 0x201, 0x202, 0x203]"
  by (simp add: sample_uio_def uio_addrs_def addrs_from_def upt_rec)

lemma sample_can_move: "can_move (Some 1) sample_memory sample_uio 3"
  unfolding can_move_def sample_addrs
  by (simp add: space_ok_def sample_uio_def sample_memory_def may_touch_def USERSPACETOP_def MIPS_KSEG0_def)

theorem uiomove_moves_witness:
  "\<exists>u'. advanced sample_uio 3 u' \<and> uiomove (Some 1) sample_memory [1, 2, 3, 4] 3 sample_uio =
      Some (Inr (), [1, 2, 3, 4], u', mem_put sample_memory [0x100, 0x200, 0x201] [1, 2, 3])"
proof -
  have d: "uio_dir sample_uio = UIO_READ" by (simp add: sample_uio_def)
  show ?thesis using uiomove_moves [OF sample_can_move, of "[1, 2, 3, 4]"] by (simp add: d sample_addrs)
qed

text \<open>C2: Whatever addresses and lengths a process supplies, a transfer to its memory changes nothing but bytes below
  \<open>USERSPACETOP\<close> that the process may itself write: \<open>copyout\<close>, \<open>copyoutstr\<close> and \<open>uiomove\<close>
  on a user uio, whether they succeed or fail half way, leave all of the kernel's memory and all read-only pages alone.\<close>

theorem user_transfers_confined:
  assumes "len < 2 ^ 32" "uio_segflg u \<noteq> UIO_SYSSPACE"
  shows "confined m (snd (copyout m src p len)) \<and>
    (\<forall>r m'. copyoutstr m src p len = Some (r, m') \<longrightarrow> confined m m') \<and>
    (\<forall>e buf' u' m'. uiomove curas m buf len u = Some (e, buf', u', m') \<longrightarrow> confined m m')"
proof (intro conjI allI impI)
  show "confined m (snd (copyout m src p len))" using assms(1) by (rule copyout_confined)
  show "confined m m'" if "copyoutstr m src p len = Some (r, m')" for r m'
  proof (cases "len = 0")
    case True
    then show ?thesis using that by (auto simp: copyoutstr_def copystr_out.simps split: sum.splits if_splits)
  next
    case False
    then show ?thesis
      using that copycheck_below(1) [of p len] assms(1) copystr_out_confined by (auto simp: copyoutstr_def split: sum.splits)
  qed
  show "confined m m'" if "uiomove curas m buf len u = Some (e, buf', u', m')" for e buf' u' m'
    using that uiomove_loop_confined [of m u "[]" "take len buf" e _ u' m'] assms
    by (auto simp: uiomove_def Option.bind_eq_Some_conv KASSERT_def split: if_splits)
qed

text \<open>A process asks for eight bytes at the last word below the kernel, then for a string that runs into a read-only page.\<close>

theorem user_transfers_confined_witness:
  "confined sample_memory (snd (copyout sample_memory (replicate 8 1) 0x7ffffffc 8)) \<and>
   (\<exists>m'. copyoutstr sample_memory [1, 2, 0] 0xffe 8 = Some (Inl EFAULT, m') \<and> confined sample_memory m') \<and>
   (\<exists>u' m'. uiomove (Some 1) sample_memory [1, 2, 3] 3 sample_uio = Some (Inr (), [1, 2, 3], u', m') \<and> confined sample_memory m')"
proof -
  have a: "(8 :: nat) < 2 ^ 32" "(3 :: nat) < 2 ^ 32" "uio_segflg sample_uio \<noteq> UIO_SYSSPACE" "uio_dir sample_uio = UIO_READ"
    by (simp_all add: sample_uio_def)
  obtain u' m' where u: "uiomove (Some 1) sample_memory [1, 2, 3] 3 sample_uio = Some (Inr (), [1, 2, 3], u', m')"
    using uiomove_ok [OF sample_can_move, of "[1, 2, 3]"] a(4) by (auto simp: moved_def)
  note T = user_transfers_confined [OF _ a(3), where m = sample_memory and curas = "Some 1"]
  have "confined sample_memory (snd (copyout sample_memory (replicate 8 1) 0x7ffffffc 8))"
    using T [OF a(1), where src = "replicate 8 1" and p = "0x7ffffffc" and buf = "[]"] by (rule conjunct1)
  moreover have "\<exists>m'. copyoutstr sample_memory [1, 2, 0] 0xffe 8 = Some (Inl EFAULT, m')"
    by (simp add: copyoutstr_def copycheck_def copystr_out.simps sample_memory_def idx_def USERSPACETOP_def MIPS_KSEG0_def)
  moreover have "\<forall>r m'. copyoutstr sample_memory [1, 2, 0] 0xffe 8 = Some (r, m') \<longrightarrow> confined sample_memory m'"
    using T [OF a(1), where src = "[1, 2, 0]" and p = "0xffe" and buf = "[]"] by (elim conjE)
  moreover have "confined sample_memory m'"
    using T [OF a(2), where src = "[]" and p = "0" and buf = "[1, 2, 3]"] u by metis
  ultimately show ?thesis using u by metis
qed

end
