(* ===== verification/Strings.thy ===== *)
theory Strings
  imports Prelude
begin

text \<open>
  The string functions of \<^verbatim>\<open>common/libc/string\<close> and \<open>atoi\<close>, which the kernel and the user
  programs share. A string is the array of bytes it is stored in, terminator included, and a pointer into it
  is an index; reading or writing outside of the array is \<open>None\<close>. The block functions work on the
  whole memory, because they are used on overlapping blocks.
\<close>

section \<open>Strings\<close>

function strlen_from :: "u8 list \<Rightarrow> nat \<Rightarrow> nat option" where
  "strlen_from str ret = do {
     c \<leftarrow> idx str ret;
     if c \<noteq> 0 then strlen_from str (ret + 1) else Some ret
   }"
  by pat_completeness auto
termination by (relation "measure (\<lambda>(str, ret). length str - ret)") (auto simp: idx_Some_iff)

declare strlen_from.simps [simp del]

definition strlen :: "u8 list \<Rightarrow> nat option" where
  "strlen str = strlen_from str 0"

function strcmp_from :: "u8 list \<Rightarrow> u8 list \<Rightarrow> nat \<Rightarrow> int option" where
  "strcmp_from a b i = do {
     x \<leftarrow> idx a i;
     y \<leftarrow> idx b i;
     if x \<noteq> 0 \<and> x = y then strcmp_from a b (i + 1)
     else Some (if x > y then 1 else if x = y then 0 else - 1)
   }"
  by pat_completeness auto
termination by (relation "measure (\<lambda>(a, b, i). length a - i)") (auto simp: idx_Some_iff)

declare strcmp_from.simps [simp del]

definition strcmp :: "u8 list \<Rightarrow> u8 list \<Rightarrow> int option" where
  "strcmp a b = strcmp_from a b 0"

text \<open>\<open>off\<close> is the index that the destination pointer has in its array.\<close>

function strcpy_from :: "u8 list \<Rightarrow> nat \<Rightarrow> u8 list \<Rightarrow> nat \<Rightarrow> u8 list option" where
  "strcpy_from dest off src i = do {
     c \<leftarrow> idx src i;
     dest \<leftarrow> upd dest (off + i) c;
     if c \<noteq> 0 then strcpy_from dest off src (i + 1) else Some dest
   }"
  by pat_completeness auto
termination by (relation "measure (\<lambda>(dest, off, src, i). length src - i)") (auto simp: idx_Some_iff)

declare strcpy_from.simps [simp del]

definition strcpy :: "u8 list \<Rightarrow> u8 list \<Rightarrow> u8 list option" where
  "strcpy dest src = strcpy_from dest 0 src 0"

definition strcat :: "u8 list \<Rightarrow> u8 list \<Rightarrow> u8 list option" where
  "strcat dest src = do {
     offset \<leftarrow> strlen dest;
     strcpy_from dest offset src 0
   }"

text \<open>The searches return the index found; the inner \<open>None\<close> is NULL.\<close>

function strchr_from :: "u8 list \<Rightarrow> u8 \<Rightarrow> nat \<Rightarrow> nat option option" where
  "strchr_from s ch i = do {
     c \<leftarrow> idx s i;
     if c \<noteq> 0 then
       if c = ch then Some (Some i) else strchr_from s ch (i + 1)
     else if c = ch then Some (Some i)
     else Some None
   }"
  by pat_completeness auto
termination by (relation "measure (\<lambda>(s, ch, i). length s - i)") (auto simp: idx_Some_iff)

declare strchr_from.simps [simp del]

definition strchr :: "u8 list \<Rightarrow> u8 \<Rightarrow> nat option option" where
  "strchr s ch = strchr_from s ch 0"

fun strrchr_from :: "u8 list \<Rightarrow> u8 \<Rightarrow> nat \<Rightarrow> nat option option" where
  "strrchr_from s ch 0 = Some None"
| "strrchr_from s ch (Suc i) = do {
     c \<leftarrow> idx s i;
     if c = ch then Some (Some i) else strrchr_from s ch i
   }"

definition strrchr :: "u8 list \<Rightarrow> u8 \<Rightarrow> nat option option" where
  "strrchr s ch = do {
     n \<leftarrow> strlen s;
     strrchr_from s ch (n + 1)
   }"

section \<open>Words of a string\<close>

text \<open>The two loops of \<open>strtok_r\<close>: \<open>stop\<close> tells whether separators (or else word characters) are skipped.\<close>

function strtok_skip :: "bool \<Rightarrow> u8 list \<Rightarrow> u8 list \<Rightarrow> nat \<Rightarrow> nat option" where
  "strtok_skip sep s seps i = do {
     c \<leftarrow> idx s i;
     if c \<noteq> 0 then do {
       w \<leftarrow> strchr seps c;
       if (w \<noteq> None) = sep then strtok_skip sep s seps (i + 1) else Some i
     } else Some i
   }"
  by pat_completeness auto
termination by (relation "measure (\<lambda>(sep, s, seps, i). length s - i)") (auto simp: idx_Some_iff)

declare strtok_skip.simps [simp del]

text \<open>The result is the word (an index, or NULL), the string, and the new context.\<close>

definition strtok_r :: "u8 list \<Rightarrow> nat option \<Rightarrow> u8 list \<Rightarrow> nat option \<Rightarrow> (nat option \<times> u8 list \<times> nat option) option" where
  "strtok_r s string seps context =
     (let context = (if string \<noteq> None then string else context) in
      case context of
        None \<Rightarrow> Some (None, s, None)
      | Some head \<Rightarrow> do {
          head \<leftarrow> strtok_skip True s seps head;
          c \<leftarrow> idx s head;
          if c = 0 then Some (None, s, None)
          else do {
            tail \<leftarrow> strtok_skip False s seps head;
            c \<leftarrow> idx s tail;
            if c = 0 then Some (Some head, s, None)
            else do {
              s \<leftarrow> upd s tail 0;
              Some (Some head, s, Some (tail + 1))
            }
          }
        })"

text \<open>How the kernel menu splits a command into words: the loop of \<open>cmd_dispatch\<close>.\<close>

definition MAXMENUARGS :: nat where
  "MAXMENUARGS = 16"

function cmd_args :: "u8 list \<Rightarrow> nat option \<Rightarrow> nat option \<Rightarrow> nat list \<Rightarrow> ((errno + nat list) \<times> u8 list) option" where
  "cmd_args s string context args = do {
     (word, s, context) \<leftarrow> strtok_r s string [32, 9, 0] context;
     case word of
       None \<Rightarrow> Some (Inr args, s)
     | Some w \<Rightarrow>
         if length args \<ge> MAXMENUARGS then Some (Inl E2BIG, s)
         else cmd_args s None context (args @ [w])
   }"
  by pat_completeness auto
termination by (relation "measure (\<lambda>(s, string, context, args). Suc MAXMENUARGS - length args)") auto

declare cmd_args.simps [simp del]

section \<open>Blocks of memory\<close>

type_synonym bytemem = "u32 \<Rightarrow> u8"

fun store_bytes :: "bytemem \<Rightarrow> u32 \<Rightarrow> u8 list \<Rightarrow> bytemem" where
  "store_bytes m a [] = m"
| "store_bytes m a (x # xs) = store_bytes (m(a := x)) (a + 1) xs"

text \<open>\<open>d[i] = s[i]\<close> for elements of \<open>w\<close> bytes; a \<^verbatim>\<open>long\<close> has four.\<close>

definition copy_elem :: "nat \<Rightarrow> u32 \<Rightarrow> u32 \<Rightarrow> nat \<Rightarrow> bytemem \<Rightarrow> bytemem" where
  "copy_elem w d s i m =
     store_bytes m (d + of_nat (i * w)) (map (\<lambda>j. m (s + of_nat (i * w) + of_nat j)) [0..<w])"

definition aligned4 :: "u32 \<Rightarrow> bool" where
  "aligned4 a \<longleftrightarrow> unat a mod 4 = 0"

definition memcpy :: "bytemem \<Rightarrow> u32 \<Rightarrow> u32 \<Rightarrow> nat \<Rightarrow> bytemem" where
  "memcpy m dst src len =
     (if aligned4 dst \<and> aligned4 src \<and> len mod 4 = 0 then fold (copy_elem 4 dst src) [0..<len div 4] m
      else fold (copy_elem 1 dst src) [0..<len] m)"

definition memmove :: "bytemem \<Rightarrow> u32 \<Rightarrow> u32 \<Rightarrow> nat \<Rightarrow> bytemem" where
  "memmove m dst src len =
     (if dst < src then memcpy m dst src len
      else if aligned4 dst \<and> aligned4 src \<and> len mod 4 = 0 then
        fold (copy_elem 4 dst src) (rev [0..<len div 4]) m
      else fold (copy_elem 1 dst src) (rev [0..<len]) m)"

definition bzero :: "bytemem \<Rightarrow> u32 \<Rightarrow> nat \<Rightarrow> bytemem" where
  "bzero m block len =
     (if aligned4 block \<and> len mod 4 = 0 then
        fold (\<lambda>i m. store_bytes m (block + of_nat (i * 4)) [0, 0, 0, 0]) [0..<len div 4] m
      else fold (\<lambda>i m. m(block + of_nat i := 0)) [0..<len] m)"

section \<open>Numbers\<close>

definition atoi_digits :: "u8 list" where
  "atoi_digits = [48, 49, 50, 51, 52, 53, 54, 55, 56, 57, 0]"

function atoi_skip :: "u8 list \<Rightarrow> nat \<Rightarrow> nat option" where
  "atoi_skip s i = do {
     c \<leftarrow> idx s i;
     if c = 32 \<or> c = 9 then atoi_skip s (i + 1) else Some i
   }"
  by pat_completeness auto
termination by (relation "measure (\<lambda>(s, i). length s - i)") (auto simp: idx_Some_iff)

declare atoi_skip.simps [simp del]

function atoi_loop :: "u8 list \<Rightarrow> nat \<Rightarrow> u32 \<Rightarrow> u32 option" where
  "atoi_loop s i val = do {
     c \<leftarrow> idx s i;
     if c \<noteq> 0 then do {
       w \<leftarrow> strchr atoi_digits c;
       case w of
         None \<Rightarrow> Some val
       | Some digit \<Rightarrow> atoi_loop s (i + 1) (val * 10 + of_nat digit)
     } else Some val
   }"
  by pat_completeness auto
termination by (relation "measure (\<lambda>(s, i, val). length s - i)") (auto simp: idx_Some_iff)

declare atoi_loop.simps [simp del]

definition atoi :: "u8 list \<Rightarrow> int option" where
  "atoi s = do {
     i \<leftarrow> atoi_skip s 0;
     c \<leftarrow> idx s i;
     let neg = (c = 45);
     let i = (if c = 45 \<or> c = 43 then i + 1 else i);
     val \<leftarrow> atoi_loop s i 0;
     Some (sint (if neg then - val else val))
   }"

section \<open>What the string functions compute\<close>

text \<open>The string that starts at index \<open>i\<close>, without its terminator, and that there is one.\<close>

definition cstr_at :: "u8 list \<Rightarrow> nat \<Rightarrow> u8 list" where
  "cstr_at s i = takeWhile (\<lambda>c. c \<noteq> 0) (drop i s)"

definition terminated_at :: "u8 list \<Rightarrow> nat \<Rightarrow> bool" where
  "terminated_at s i \<longleftrightarrow> 0 \<in> set (drop i s)"

abbreviation cstr :: "u8 list \<Rightarrow> u8 list" where
  "cstr s \<equiv> cstr_at s 0"

abbreviation terminated :: "u8 list \<Rightarrow> bool" where
  "terminated s \<equiv> terminated_at s 0"

text \<open>A pointer into a string either is at its terminator or at its first character.\<close>

lemma cstr_cases:
  assumes "terminated_at s i"
  obtains (end_of) "idx s i = Some 0" "cstr_at s i = []"
  | (char_at) c where "idx s i = Some c" "c \<noteq> 0" "cstr_at s i = c # cstr_at s (Suc i)" "terminated_at s (Suc i)"
proof -
  have i: "i < length s" using assms by (cases "i < length s") (auto simp: terminated_at_def)
  then have d: "drop i s = s ! i # drop (Suc i) s" by (simp add: Cons_nth_drop_Suc)
  show thesis
  proof (cases "s ! i = 0")
    case True
    then show thesis using i d by (intro end_of) (simp_all add: cstr_at_def)
  next
    case False
    then show thesis using i d assms by (intro char_at [of "s ! i"]) (simp_all add: cstr_at_def terminated_at_def)
  qed
qed

lemma strlen_from_spec: "terminated_at s i \<Longrightarrow> strlen_from s i = Some (i + length (cstr_at s i))"
proof (induction s i rule: strlen_from.induct)
  case (1 s i)
  from "1.prems" show ?case
    by (cases rule: cstr_cases) (use "1.IH" in \<open>simp_all add: strlen_from.simps [of s i]\<close>)
qed

lemma strlen_spec: "terminated s \<Longrightarrow> strlen s = Some (length (cstr s))"
  by (simp add: strlen_def strlen_from_spec)

text \<open>The order of strings.\<close>

fun str_order :: "u8 list \<Rightarrow> u8 list \<Rightarrow> int" where
  "str_order [] [] = 0"
| "str_order [] (y # ys) = - 1"
| "str_order (x # xs) [] = 1"
| "str_order (x # xs) (y # ys) = (if x = y then str_order xs ys else if x > y then 1 else - 1)"

lemma strcmp_from_spec:
  "terminated_at a i \<Longrightarrow> terminated_at b i \<Longrightarrow> strcmp_from a b i = Some (str_order (cstr_at a i) (cstr_at b i))"
proof (induction a b i rule: strcmp_from.induct)
  case (1 a b i)
  from "1.prems"(1) show ?case
  proof (cases rule: cstr_cases)
    case end_of
    from "1.prems"(2) show ?thesis
      by (cases rule: cstr_cases) (use end_of in \<open>auto simp: strcmp_from.simps [of a b i] word_neq_0_conv\<close>)
  next
    case (char_at x)
    from "1.prems"(2) show ?thesis
    proof (cases rule: cstr_cases)
      case end_of
      then show ?thesis using char_at by (auto simp: strcmp_from.simps [of a b i] word_neq_0_conv)
    next
      case (char_at y)
      then show ?thesis using \<open>idx a i = Some x\<close> \<open>x \<noteq> 0\<close> \<open>cstr_at a i = _\<close> \<open>terminated_at a (Suc i)\<close> "1.IH"
        by (auto simp: strcmp_from.simps [of a b i])
    qed
  qed
qed

lemma str_order_0_iff: "str_order xs ys = 0 \<longleftrightarrow> xs = ys"
  by (induction xs ys rule: str_order.induct) auto

lemma strcmp_spec: "terminated a \<Longrightarrow> terminated b \<Longrightarrow> strcmp a b = Some (str_order (cstr a) (cstr b))"
  by (simp add: strcmp_def strcmp_from_spec)

lemma strcmp_equal: "terminated a \<Longrightarrow> terminated b \<Longrightarrow> strcmp a b = Some 0 \<longleftrightarrow> cstr a = cstr b"
  by (simp add: strcmp_spec str_order_0_iff)

lemma strcpy_from_spec:
  assumes "terminated_at src i" "off + i + length (cstr_at src i) < length dest"
  shows "strcpy_from dest off src i =
    Some (take (off + i) dest @ cstr_at src i @ [0] @ drop (off + i + length (cstr_at src i) + 1) dest)"
  using assms
proof (induction dest off src i rule: strcpy_from.induct)
  case (1 dest off src i)
  from "1.prems"(1) show ?case
  proof (cases rule: cstr_cases)
    case end_of
    then show ?thesis using "1.prems"(2) by (simp add: strcpy_from.simps [of dest off src i] upd_conv_take_nth_drop)
  next
    case (char_at c)
    have l: "off + i < length dest" using "1.prems"(2) by simp
    have u: "upd dest (off + i) c = Some (dest[off + i := c])" using l by simp
    have "strcpy_from (dest[off + i := c]) off src (i + 1) =
        Some (take (off + (i + 1)) (dest[off + i := c]) @ cstr_at src (i + 1) @ [0] @
          drop (off + (i + 1) + length (cstr_at src (i + 1)) + 1) (dest[off + i := c]))"
      using "1.IH" [OF char_at(1) u char_at(2)] char_at "1.prems"(2) by simp
    moreover have "take (off + (i + 1)) (dest[off + i := c]) = take (off + i) dest @ [c]"
      using l by (simp add: take_Suc_conv_app_nth)
    ultimately show ?thesis using char_at u by (simp add: strcpy_from.simps [of dest off src i])
  qed
qed

lemma strcpy_spec:
  "terminated src \<Longrightarrow> length (cstr src) < length dest \<Longrightarrow>
    strcpy dest src = Some (cstr src @ [0] @ drop (length (cstr src) + 1) dest)"
  by (simp add: strcpy_def strcpy_from_spec)

lemma strcat_spec:
  assumes "terminated dest" "terminated src" "length (cstr dest) + length (cstr src) < length dest"
  shows "\<exists>d. strcat dest src = Some d \<and> length d = length dest \<and> terminated d \<and> cstr d = cstr dest @ cstr src"
proof -
  have t: "take (length (cstr dest)) dest = cstr dest" by (simp add: cstr_at_def takeWhile_eq_take [symmetric])
  have z: "\<forall>x \<in> set (cstr s). x \<noteq> 0" for s by (auto simp: cstr_at_def dest: set_takeWhileD)
  let ?d = "cstr dest @ cstr src @ [0] @ drop (length (cstr dest) + length (cstr src) + 1) dest"
  have "strcat dest src = Some ?d" using assms t by (simp add: strcat_def strlen_spec strcpy_from_spec)
  moreover have "cstr ?d = cstr dest @ cstr src" 
    unfolding cstr_at_def [of ?d] using z [of dest] z [of src] by (simp add: takeWhile_append)
  moreover have "length ?d = length dest" "terminated ?d" using assms(3) by (simp_all add: terminated_at_def)
  ultimately show ?thesis by blast
qed

lemma strchr_from_spec:
  assumes "terminated_at s i" "ch \<noteq> 0"
  shows "strchr_from s ch i = Some (if ch \<in> set (cstr_at s i) then Some (i + length (takeWhile (\<lambda>c. c \<noteq> ch) (cstr_at s i))) else None)"
  using assms
proof (induction s ch i rule: strchr_from.induct)
  case (1 s ch i)
  from "1.prems"(1) show ?case
    by (cases rule: cstr_cases) (use "1.IH" "1.prems"(2) in \<open>auto simp: strchr_from.simps [of s ch i]\<close>)
qed

text \<open>The words of a string: the maximal runs of characters that are not separators.\<close>

function words_by :: "('a \<Rightarrow> bool) \<Rightarrow> 'a list \<Rightarrow> 'a list list" where
  "words_by P xs =
     (case dropWhile P xs of
        [] \<Rightarrow> []
      | y # ys \<Rightarrow> (y # takeWhile (\<lambda>c. \<not> P c) ys) # words_by P (dropWhile (\<lambda>c. \<not> P c) ys))"
  by pat_completeness auto
termination
proof (relation "measure (\<lambda>(P, xs). length xs)")
  fix P :: "'a \<Rightarrow> bool" and xs y ys
  assume "dropWhile P xs = y # ys"
  then have "length (y # ys) \<le> length xs" by (metis length_dropWhile_le)
  then show "((P, dropWhile (\<lambda>c. \<not> P c) ys), P, xs) \<in> measure (\<lambda>(P, xs). length xs)"
    using length_dropWhile_le [of "\<lambda>c. \<not> P c" ys] by simp
qed simp

declare words_by.simps [simp del]

lemma words_by_Nil [simp]: "words_by P [] = []"
  by (simp add: words_by.simps)

lemma words_by_sep: "P x \<Longrightarrow> words_by P (x # xs) = words_by P xs"
  by (simp add: words_by.simps [of P "x # xs"] words_by.simps [of P xs])

lemma words_by_word: "\<not> P x \<Longrightarrow> words_by P (x # xs) = (x # takeWhile (\<lambda>c. \<not> P c) xs) # words_by P (dropWhile (\<lambda>c. \<not> P c) xs)"
  by (simp add: words_by.simps [of P "x # xs"])

definition is_sep :: "u8 list \<Rightarrow> u8 \<Rightarrow> bool" where
  "is_sep seps c \<longleftrightarrow> c \<in> set (cstr seps)"

lemma strtok_skip_spec:
  assumes "terminated_at s i" "terminated seps"
  shows "\<exists>k. strtok_skip sep s seps i = Some (i + k) \<and>
      cstr_at s (i + k) = dropWhile (\<lambda>c. is_sep seps c = sep) (cstr_at s i) \<and>
      take k (drop i s) = takeWhile (\<lambda>c. is_sep seps c = sep) (cstr_at s i) \<and> terminated_at s (i + k)"
  using assms
proof (induction sep s seps i rule: strtok_skip.induct)
  case (1 sep s seps i)
  from "1.prems"(1) show ?case
  proof (cases rule: cstr_cases)
    case end_of
    then show ?thesis using "1.prems" by (intro exI [of _ 0]) (simp add: strtok_skip.simps [of sep s seps i])
  next
    case (char_at c)
    obtain w where w: "strchr seps c = Some w" and sep: "(w \<noteq> None) = is_sep seps c"
      using strchr_from_spec [OF "1.prems"(2) char_at(2)] by (auto simp: strchr_def is_sep_def)
    show ?thesis
    proof (cases "is_sep seps c = sep")
      case True
      obtain k where k: "strtok_skip sep s seps (i + 1) = Some (i + 1 + k)"
        "cstr_at s (i + 1 + k) = dropWhile (\<lambda>c. is_sep seps c = sep) (cstr_at s (i + 1))"
        "take k (drop (i + 1) s) = takeWhile (\<lambda>c. is_sep seps c = sep) (cstr_at s (i + 1))" "terminated_at s (i + 1 + k)"
        using "1.IH" [OF char_at(1,2) w] True sep char_at(4) "1.prems"(2) by auto
      have "i < length s" "s ! i = c" using char_at(1) by (simp_all add: idx_Some_iff)
      then have "take (Suc k) (drop i s) = c # take k (drop (i + 1) s)" by (simp add: Cons_nth_drop_Suc [symmetric])
      then show ?thesis using k char_at w sep True
        by (intro exI [of _ "Suc k"]) (simp add: strtok_skip.simps [of sep s seps i])
    next
      case False
      then show ?thesis using char_at w sep "1.prems"
        by (intro exI [of _ 0]) (simp add: strtok_skip.simps [of sep s seps i])
    qed
  qed
qed
text \<open>The words that are left for a context of \<open>strtok_r\<close>.\<close>

definition ctx_words :: "u8 list \<Rightarrow> u8 list \<Rightarrow> nat option \<Rightarrow> u8 list list" where
  "ctx_words s seps ctx = (case ctx of None \<Rightarrow> [] | Some j \<Rightarrow> words_by (is_sep seps) (cstr_at s j))"

definition ctx_ok :: "u8 list \<Rightarrow> nat option \<Rightarrow> bool" where
  "ctx_ok s ctx \<longleftrightarrow> (case ctx of None \<Rightarrow> True | Some j \<Rightarrow> terminated_at s j)"

lemma ctx_simps [simp]:
  "ctx_words s seps None = []" "ctx_words s seps (Some j) = words_by (is_sep seps) (cstr_at s j)"
  "ctx_ok s None" "ctx_ok s (Some j) = terminated_at s j"
  by (simp_all add: ctx_words_def ctx_ok_def)

lemma words_by_dropWhile: "words_by P (dropWhile P xs) = words_by P xs"
  by (induction xs) (auto simp: words_by_sep)

lemma drop_cong: "take j s = take j s' \<Longrightarrow> take (j - i) (drop i s) = take (j - i) (drop i s')"
  by (metis drop_take)

text \<open>A string is determined by the bytes up to its terminator.\<close>

lemma cstr_at_cong:
  assumes "take j s' = take j s" "terminated_at s h" "h + length (cstr_at s h) < j"
  shows "cstr_at s' h = cstr_at s h"
proof -
  let ?n = "length (cstr_at s h)"
  have "\<exists>zs. drop h s = cstr_at s h @ 0 # zs"
  proof -
    obtain x xs where "dropWhile (\<lambda>c. c \<noteq> 0) (drop h s) = x # xs"
      using assms(2) by (cases "dropWhile (\<lambda>c. c \<noteq> 0) (drop h s)") (auto simp: terminated_at_def)
    moreover from this have "x = 0" by (metis (mono_tags, lifting) dropWhile_eq_Cons_conv)
    ultimately show ?thesis unfolding cstr_at_def by (metis takeWhile_dropWhile_id)
  qed
  then have t: "take (Suc ?n) (drop h s) = cstr_at s h @ [0]" by (elim exE) simp
  have "take (j - h) (drop h s') = take (j - h) (drop h s)" using assms(1) by (rule drop_cong)
  moreover have "take (Suc ?n) xs = take (Suc ?n) (take (j - h) xs)" for xs :: "u8 list"
  proof -
    have "Suc ?n \<le> j - h" using assms(3) by linarith
    then show ?thesis by (simp add: min_def)
  qed
  ultimately have "take (Suc ?n) (drop h s') = take (Suc ?n) (drop h s)" by metis
  then have d: "drop h s' = cstr_at s h @ 0 # drop (Suc ?n) (drop h s')"
    using t by (metis append_Cons append_Nil append_assoc append_take_drop_id)
  have z: "\<forall>x \<in> set (cstr_at s h). x \<noteq> 0" by (auto simp: cstr_at_def dest: set_takeWhileD)
  have "cstr_at s' h = takeWhile (\<lambda>c. c \<noteq> 0) (cstr_at s h @ 0 # drop (Suc ?n) (drop h s'))"
    unfolding cstr_at_def [of s'] using d by simp
  also have "\<dots> = cstr_at s h" using z by (simp add: takeWhile_append)
  finally show ?thesis .
qed

lemma strtok_r_spec:
  assumes "terminated seps" "ctx_ok s ctx" "ctx = (if string \<noteq> None then string else context)"
  shows "case ctx_words s seps ctx of
      [] \<Rightarrow> strtok_r s string seps context = Some (None, s, None)
    | w # ws \<Rightarrow> \<exists>h s' c. strtok_r s string seps context = Some (Some h, s', c) \<and> ctx \<noteq> None \<and> the ctx \<le> h \<and>
        cstr_at s' h = w \<and> terminated_at s' h \<and> ctx_words s' seps c = ws \<and> ctx_ok s' c \<and> length s' = length s \<and>
        take h s' = take h s \<and> (c \<noteq> None \<longrightarrow> h + length w < the c)"
proof (cases ctx)
  case None
  then show ?thesis using assms(3) by (auto simp: strtok_r_def)
next
  case (Some j)
  then have tj: "terminated_at s j" using assms(2) by simp
  let ?P = "is_sep seps"
  obtain k where k: "strtok_skip True s seps j = Some (j + k)" "cstr_at s (j + k) = dropWhile ?P (cstr_at s j)" "terminated_at s (j + k)"
    using strtok_skip_spec [OF tj assms(1), of True] by auto
  have words: "ctx_words s seps ctx = words_by ?P (cstr_at s (j + k))" unfolding Some k(2) by (simp add: words_by_dropWhile)
  have un: "strtok_r s string seps context = do {
      c \<leftarrow> idx s (j + k);
      if c = 0 then Some (None, s, None)
      else do {
        tail \<leftarrow> strtok_skip False s seps (j + k);
        c \<leftarrow> idx s tail;
        if c = 0 then Some (Some (j + k), s, None)
        else do { s \<leftarrow> upd s tail 0; Some (Some (j + k), s, Some (tail + 1)) }
      }}"
    using Some assms(3) k(1) by (simp add: strtok_r_def Let_def)
  from k(3) show ?thesis
  proof (cases rule: cstr_cases)
    case end_of
    then show ?thesis unfolding words un by simp
  next
    case (char_at c)
    have c: "\<not> ?P c" using k(2) char_at(3) by (metis dropWhile_eq_Cons_conv)
    have w: "words_by ?P (cstr_at s (j + k)) =
        takeWhile (\<lambda>c. \<not> ?P c) (cstr_at s (j + k)) # words_by ?P (dropWhile (\<lambda>c. \<not> ?P c) (cstr_at s (j + k)))"
      using char_at(3) c by (simp add: words_by_word)
    obtain l where l: "strtok_skip False s seps (j + k) = Some (j + k + l)"
      "cstr_at s (j + k + l) = dropWhile (\<lambda>c. \<not> ?P c) (cstr_at s (j + k))"
      "take l (drop (j + k) s) = takeWhile (\<lambda>c. \<not> ?P c) (cstr_at s (j + k))" "terminated_at s (j + k + l)"
      using strtok_skip_spec [OF k(3) assms(1), of False] by auto
    have nz: "\<forall>x \<in> set (take l (drop (j + k) s)). x \<noteq> 0"
      unfolding l(3) cstr_at_def by (auto dest!: set_takeWhileD)
    from l(4) show ?thesis
    proof (cases rule: cstr_cases)
      case end_of
      then have T: "takeWhile (\<lambda>c. \<not> ?P c) (cstr_at s (j + k)) = cstr_at s (j + k)" using l(2) by (metis append_Nil2 takeWhile_dropWhile_id)
      have D: "dropWhile (\<lambda>c. \<not> ?P c) (cstr_at s (j + k)) = []" using l(2) end_of by simp
      have "strtok_r s string seps context = Some (Some (j + k), s, None)"
        unfolding un using char_at(1,2) end_of(1) l(1) by simp
      then show ?thesis unfolding words w T D using Some k(3) by simp
    next
      case (char_at d)
      let ?s = "s[j + k + l := 0]" and ?t = "j + k + l"
      have t: "?t < length s" using char_at(1) by (simp add: idx_Some_iff)
      have d: "?P d" using l(2) char_at(3) by (metis dropWhile_eq_Cons_conv)
      have "strtok_r s string seps context = Some (Some (j + k), ?s, Some (?t + 1))"
        unfolding un using \<open>idx s (j + k) = Some c\<close> \<open>c \<noteq> 0\<close> l(1) char_at(1,2) t by simp
      moreover have "cstr_at ?s (j + k) = take l (drop (j + k) s)"
      proof -
        have "drop (j + k) ?s = take l (drop (j + k) s) @ 0 # drop (Suc l) (drop (j + k) s)"
          using t by (simp add: drop_update_swap upd_conv_take_nth_drop drop_take add.commute)
        then show ?thesis unfolding cstr_at_def using nz by (simp add: takeWhile_append)
      qed
      moreover have "terminated_at ?s (j + k)"
        using t by (simp add: terminated_at_def drop_update_swap set_update_memI)
      moreover have "cstr_at ?s (?t + 1) = cstr_at s (?t + 1)" "terminated_at ?s (?t + 1)"
        using char_at(4) by (simp_all add: cstr_at_def terminated_at_def)
      moreover have "words_by ?P (cstr_at s (?t + 1)) = words_by ?P (cstr_at s ?t)" using char_at(3) d by (simp add: words_by_sep)
      moreover have "length (take l (drop (j + k) s)) = l" using t by simp
      ultimately show ?thesis
        unfolding words w l(3) [symmetric] l(2) [symmetric] using Some by simp
    qed
  qed
qed

lemma cmd_args_spec:
  assumes "ctx_ok s ctx" "ctx = (if string \<noteq> None then string else c0)" "length args \<le> MAXMENUARGS"
  shows "if length args + length (ctx_words s [32, 9, 0] ctx) \<le> MAXMENUARGS then
      \<exists>hs s'. cmd_args s string c0 args = Some (Inr (args @ hs), s') \<and> map (cstr_at s') hs = ctx_words s [32, 9, 0] ctx \<and>
        length s' = length s \<and> (if ctx = None then s' = s else take (the ctx) s' = take (the ctx) s)
    else \<exists>s'. cmd_args s string c0 args = Some (Inl E2BIG, s')"
  using assms
proof (induction s string c0 args arbitrary: ctx rule: cmd_args.induct)
  case (1 s string c0 args)
  let ?seps = "[32, 9, 0] :: u8 list"
  have seps: "terminated ?seps" by (simp add: terminated_at_def)
  note S = strtok_r_spec [OF seps "1.prems"(1,2)]
  show ?case
  proof (cases "ctx_words s ?seps ctx")
    case Nil
    then have "strtok_r s string ?seps c0 = Some (None, s, None)" using S by simp
    then show ?thesis using Nil "1.prems"(3) by (simp add: cmd_args.simps [of s string])
  next
    case (Cons w ws)
    then obtain h s1 c where h: "strtok_r s string ?seps c0 = Some (Some h, s1, c)" "ctx \<noteq> None" "the ctx \<le> h"
      "cstr_at s1 h = w" "terminated_at s1 h" "ctx_words s1 ?seps c = ws" "ctx_ok s1 c" "length s1 = length s"
      "take h s1 = take h s" "c \<noteq> None \<longrightarrow> h + length w < the c"
      using S by auto
    show ?thesis
    proof (cases "length args \<ge> MAXMENUARGS")
      case True
      then show ?thesis using h(1) Cons by (simp add: cmd_args.simps [of s string])
    next
      case False
      have step: "cmd_args s string c0 args = cmd_args s1 None c (args @ [h])"
        using h(1) False by (simp add: cmd_args.simps [of s string])
      have IH: "if length (args @ [h]) + length (ctx_words s1 ?seps c) \<le> MAXMENUARGS then
          \<exists>hs s'. cmd_args s1 None c (args @ [h]) = Some (Inr ((args @ [h]) @ hs), s') \<and> map (cstr_at s') hs = ctx_words s1 ?seps c \<and>
            length s' = length s1 \<and> (if c = None then s' = s1 else take (the c) s' = take (the c) s1)
        else \<exists>s'. cmd_args s1 None c (args @ [h]) = Some (Inl E2BIG, s')"
        using "1.IH" [OF h(1) refl refl refl False h(7)] False by simp
      show ?thesis
      proof (cases "length args + length (w # ws) \<le> MAXMENUARGS")
        case True
        then obtain hs s' where s': "cmd_args s1 None c (args @ [h]) = Some (Inr ((args @ [h]) @ hs), s')" "map (cstr_at s') hs = ws"
            "length s' = length s1" "if c = None then s' = s1 else take (the c) s' = take (the c) s1"
          using IH h(6) by auto
        have w: "cstr_at s' h = w"
          using s'(4) cstr_at_cong [of "the c" s' s1 h] h(4,5,10) by (cases "c = None") simp_all
        have "take h s' = take h s1"
        proof (cases "c = None")
          case False
          then have "take h (take (the c) s') = take h (take (the c) s1)" "h \<le> the c" using s'(4) h(10) by simp_all
          then show ?thesis by (simp add: min_def)
        qed (use s'(4) in simp)
        then have "take (the ctx) (take h s') = take (the ctx) (take h s)" using h(9) by simp
        then have "take (the ctx) s' = take (the ctx) s" using h(3) by (simp add: min_def)
        then show ?thesis using s' w True Cons step h(2,8) by auto
      next
        case False
        then show ?thesis using IH h(6) Cons step by simp
      qed
    qed
  qed
qed
section \<open>What the block functions do\<close>

text \<open>The bytes \<open>lo .. hi\<close> of a block have been copied.\<close>

definition copied :: "bytemem \<Rightarrow> u32 \<Rightarrow> u32 \<Rightarrow> nat \<Rightarrow> nat \<Rightarrow> bytemem" where
  "copied m dst src lo hi =
     (\<lambda>a. if unat dst + lo \<le> unat a \<and> unat a < unat dst + hi then m (src + (a - dst)) else m a)"

lemma store_bytes_nth:
  "unat d + length bs \<le> 2 ^ 32 \<Longrightarrow>
    store_bytes m d bs a = (if unat d \<le> unat a \<and> unat a < unat d + length bs then bs ! (unat a - unat d) else m a)"
proof (induction bs arbitrary: m d)
  case (Cons b bs)
  show ?case
  proof (cases "bs = []")
    case True
    then show ?thesis by (auto simp: word_unat_eq_iff)
  next
    case False
    then have n: "unat (d + 1) = unat d + 1" using Cons.prems by (cases bs) (simp_all add: unat_word_ariths)
    have "store_bytes m d (b # bs) a =
        (if unat (d + 1) \<le> unat a \<and> unat a < unat (d + 1) + length bs then bs ! (unat a - unat (d + 1)) else (m(d := b)) a)"
      unfolding store_bytes.simps using n Cons.prems by (intro Cons.IH) simp
    also have "\<dots> = (if unat d \<le> unat a \<and> unat a < unat d + length (b # bs) then (b # bs) ! (unat a - unat d) else m a)"
      unfolding n by (auto simp: nth_Cons' word_unat_eq_iff)
    finally show ?thesis .
  qed
qed auto

lemma unat_offset: "unat d + k < 2 ^ 32 \<Longrightarrow> unat (d + of_nat k :: u32) = unat d + k"
  by (simp add: unat_word_ariths unsigned_of_nat take_bit_nat_def)

lemma copy_elem_eq:
  assumes "unat d + (i + 1) * w \<le> 2 ^ 32" "0 < w"
  shows "copy_elem w d s i m = (\<lambda>a. if unat d + i * w \<le> unat a \<and> unat a < unat d + (i + 1) * w then m (s + (a - d)) else m a)"
proof
  fix a
  have o: "unat (d + of_nat (i * w)) = unat d + i * w" using assms by (intro unat_offset) (simp add: algebra_simps)
  let ?bs = "map (\<lambda>j. m (s + of_nat (i * w) + of_nat j)) [0..<w]"
  have len: "unat (d + of_nat (i * w)) + length ?bs \<le> 2 ^ 32" unfolding o using assms(1) by (simp add: algebra_simps)
  have "?bs ! (unat a - (unat d + i * w)) = m (s + (a - d))" if "unat d + i * w \<le> unat a" "unat a < unat d + (i + 1) * w"
  proof -
    have "unat a - (unat d + i * w) < w" using that by (simp add: algebra_simps)
    then have "?bs ! (unat a - (unat d + i * w)) = m (s + (of_nat (i * w) + of_nat (unat a - (unat d + i * w))))" by (simp add: add.assoc)
    also have "of_nat (i * w) + of_nat (unat a - (unat d + i * w)) = (of_nat (i * w + (unat a - (unat d + i * w))) :: u32)" by simp
    also have "i * w + (unat a - (unat d + i * w)) = unat a - unat d" using that(1) by simp
    also have "(of_nat (unat a - unat d) :: u32) = a - d" using that(1) by (simp add: of_nat_diff)
    finally show ?thesis .
  qed
  then show "copy_elem w d s i m a = (if unat d + i * w \<le> unat a \<and> unat a < unat d + (i + 1) * w then m (s + (a - d)) else m a)"
    unfolding copy_elem_def store_bytes_nth [OF len] o by (auto simp: algebra_simps)
qed

lemma unat_source: "unat d \<le> unat a \<Longrightarrow> unat s + (unat a - unat d) < 2 ^ 32 \<Longrightarrow> unat (s + (a - d) :: u32) = unat s + (unat a - unat d)"
  using unat_offset [of s "unat a - unat d"] by (simp add: of_nat_diff)

lemma copy_up:
  assumes "dst < src" "unat dst + n * w \<le> 2 ^ 32" "unat src + n * w \<le> 2 ^ 32" "0 < w"
  shows "fold (copy_elem w dst src) [0..<n] m = copied m dst src 0 (n * w)"
  using assms
proof (induction n)
  case 0
  then show ?case by (auto simp: copied_def fun_eq_iff)
next
  case (Suc n)
  have e: "fold (copy_elem w dst src) [0..<Suc n] m = copy_elem w dst src n (copied m dst src 0 (n * w))"
    using Suc by simp
  have "copied m dst src 0 (n * w) (src + (a - dst)) = m (src + (a - dst))"
    if "unat dst + n * w \<le> unat a" "unat a < unat dst + (n + 1) * w" for a
  proof -
    have "unat (src + (a - dst)) = unat src + (unat a - unat dst)" using that Suc.prems(3) by (intro unat_source) (simp_all add: algebra_simps)
    then have "\<not> unat (src + (a - dst)) < unat dst + n * w" using that(1) Suc.prems(1) by (simp add: word_less_nat_alt)
    then show ?thesis by (simp add: copied_def)
  qed
  then show ?case unfolding e copy_elem_eq [OF _ assms(4), of dst n, simplified, OF Suc.prems(2) [simplified]]
    by (auto simp: copied_def fun_eq_iff)
qed

lemma copy_down:
  assumes "\<not> dst < src" "unat dst + n * w \<le> 2 ^ 32" "unat src + n * w \<le> 2 ^ 32" "0 < w" "k \<le> n"
  shows "fold (copy_elem w dst src) (rev [0..<k]) (copied m dst src (k * w) (n * w)) = copied m dst src 0 (n * w)"
  using assms(5)
proof (induction k)
  case (Suc k)
  let ?c = "copied m dst src (Suc k * w) (n * w)"
  have kn: "(k + 1) * w \<le> n * w" using Suc.prems by (intro mult_le_mono1) simp
  have b: "unat dst + (k + 1) * w \<le> 2 ^ 32" using kn assms(2) by simp
  have "?c (src + (a - dst)) = m (src + (a - dst))"
    if "unat dst + k * w \<le> unat a" "unat a < unat dst + (k + 1) * w" for a
  proof -
    have "unat (src + (a - dst)) = unat src + (unat a - unat dst)"
      using that kn assms(3) by (intro unat_source) (simp_all add: algebra_simps)
    then have "unat (src + (a - dst)) < unat dst + Suc k * w" using that assms(1) by (simp add: word_less_nat_alt)
    then show ?thesis by (simp add: copied_def)
  qed
  then have "copy_elem w dst src k ?c = copied m dst src (k * w) (n * w)"
    unfolding copy_elem_eq [OF b assms(4)] using kn by (auto simp: copied_def fun_eq_iff)
  then show ?case using Suc by simp
qed simp

lemma bzero_elem: "fold (\<lambda>i m. store_bytes m (d + of_nat (i * w)) (replicate w 0)) [0..<n] m =
    (\<lambda>a. if unat d \<le> unat a \<and> unat a < unat d + n * w then 0 else m a)"
  if "unat d + n * w \<le> 2 ^ 32" "0 < w"
  using that
proof (induction n)
  case (Suc n)
  have o: "unat (d + of_nat (n * w)) = unat d + n * w" using Suc.prems by (intro unat_offset) simp
  have len: "unat (d + of_nat (n * w)) + length (replicate w (0 :: u8)) \<le> 2 ^ 32" unfolding o using Suc.prems by simp
  have "fold (\<lambda>i m. store_bytes m (d + of_nat (i * w)) (replicate w 0)) [0..<Suc n] m =
      store_bytes (\<lambda>a. if unat d \<le> unat a \<and> unat a < unat d + n * w then 0 else m a) (d + of_nat (n * w)) (replicate w 0)"
    using Suc by simp
  then show ?case
    by (simp only: store_bytes_nth [OF len] o fun_eq_iff) auto
qed (auto simp: fun_eq_iff)

lemma bzero_eq:
  assumes "unat d + len \<le> 2 ^ 32"
  shows "bzero m d len = (\<lambda>a. if unat d \<le> unat a \<and> unat a < unat d + len then 0 else m a)"
proof (cases "aligned4 d \<and> len mod 4 = 0")
  case True
  then have "len div 4 * 4 = len" by auto
  moreover have "[0, 0, 0, 0] = replicate 4 (0 :: u8)" by (simp add: numeral_eq_Suc)
  ultimately show ?thesis using True bzero_elem [of d "len div 4" 4 m] assms by (simp add: bzero_def)
next
  case False
  then show ?thesis unfolding bzero_def if_not_P [OF False] using bzero_elem [of d len 1 m] assms by simp
qed

text \<open>C36: \<open>memmove\<close> copies a block correctly whether or not source and destination overlap, in either direction,
  and both in its word-wise and its byte-wise version: each byte of the destination is what the corresponding
  byte of the source was before the call, and no other byte changes. The blocks must not run past the end of memory.\<close>

theorem memmove_overlapping:
  assumes "unat dst + len \<le> 2 ^ 32" "unat src + len \<le> 2 ^ 32"
  shows "memmove m dst src len =
    (\<lambda>a. if unat dst \<le> unat a \<and> unat a < unat dst + len then m (src + (a - dst)) else m a)"
proof -
  have c: "copied m dst src 0 len = (\<lambda>a. if unat dst \<le> unat a \<and> unat a < unat dst + len then m (src + (a - dst)) else m a)"
    by (simp add: copied_def)
  have e: "copied m dst src k k = m" for k by (auto simp: copied_def fun_eq_iff)
  have w: "len div 4 * 4 = len" if "len mod 4 = 0" using that by auto
  show ?thesis
    unfolding c [symmetric]
    using copy_up [of dst src "len div 4" 4 m] copy_up [of dst src len 1 m] copy_down [of dst src "len div 4" 4 "len div 4" m]
      copy_down [of dst src len 1 len m] assms w by (simp add: memmove_def memcpy_def e)
qed

theorem memmove_overlapping_witness:
  "memmove (\<lambda>a. ucast a) 0x1004 0x1000 8 = (\<lambda>a. if 0x1004 \<le> unat a \<and> unat a < 0x100c then ucast (0x1000 + (a - 0x1004)) else ucast a)"
  using memmove_overlapping [of "0x1004" 8 "0x1000" "\<lambda>a. ucast a"] by simp
section \<open>What atoi computes\<close>

definition is_digit :: "u8 \<Rightarrow> bool" where
  "is_digit c \<longleftrightarrow> 48 \<le> unat c \<and> unat c \<le> 57"

definition digits_val :: "u8 list \<Rightarrow> nat \<Rightarrow> nat" where
  "digits_val ds v = foldl (\<lambda>v d. v * 10 + (unat d - 48)) v ds"

lemma digits_val_simps [simp]:
  "digits_val [] v = v" "digits_val (d # ds) v = digits_val ds (v * 10 + (unat d - 48))"
  by (simp_all add: digits_val_def)

lemma strchr_digits: "c \<noteq> 0 \<Longrightarrow> strchr atoi_digits c = Some (if is_digit c then Some (unat c - 48) else None)"
proof -
  assume c: "c \<noteq> 0"
  have s: "cstr atoi_digits = [48, 49, 50, 51, 52, 53, 54, 55, 56, 57]" "terminated atoi_digits"
    by (simp_all add: atoi_digits_def cstr_at_def terminated_at_def)
  have m: "c \<in> set (cstr atoi_digits) \<longleftrightarrow> is_digit c"
  proof -
    have "is_digit c \<longleftrightarrow> unat c \<in> {48, 49, 50, 51, 52, 53, 54, 55, 56, 57}" unfolding is_digit_def insert_iff empty_iff by presburger
    then show ?thesis unfolding s by (simp add: word_unat_eq_iff)
  qed
  moreover have "length (takeWhile (\<lambda>x. x \<noteq> c) (cstr atoi_digits)) = unat c - 48" if "c \<in> set (cstr atoi_digits)"
    using that unfolding s by auto
  ultimately show ?thesis using strchr_from_spec [OF s(2) c] by (simp add: strchr_def)
qed

lemma atoi_skip_spec:
  "terminated_at s i \<Longrightarrow> \<exists>k. atoi_skip s i = Some k \<and> terminated_at s k \<and> cstr_at s k = dropWhile (\<lambda>c. c = 32 \<or> c = 9) (cstr_at s i)"
proof (induction s i rule: atoi_skip.induct)
  case (1 s i)
  from "1.prems" show ?case
  proof (cases rule: cstr_cases)
    case end_of
    then show ?thesis using "1.prems" by (simp add: atoi_skip.simps [of s i])
  next
    case (char_at c)
    then show ?thesis using "1.IH" "1.prems" by (cases "c = 32 \<or> c = 9") (simp_all add: atoi_skip.simps [of s i])
  qed
qed

lemma atoi_loop_spec: "terminated_at s i \<Longrightarrow> atoi_loop s i (of_nat v) = Some (of_nat (digits_val (takeWhile is_digit (cstr_at s i)) v))"
proof (induction s i "of_nat v :: u32" arbitrary: v rule: atoi_loop.induct)
  case (1 s i)
  from "1.prems" show ?case
  proof (cases rule: cstr_cases)
    case end_of
    then show ?thesis by (simp add: atoi_loop.simps [of s i])
  next
    case (char_at c)
    show ?thesis
    proof (cases "is_digit c")
      case True
      have "of_nat v * 10 + of_nat (unat c - 48) = (of_nat (v * 10 + (unat c - 48)) :: u32)" by simp
      then have "atoi_loop s (i + 1) (of_nat v * 10 + of_nat (unat c - 48)) =
          Some (of_nat (digits_val (takeWhile is_digit (cstr_at s (i + 1))) (v * 10 + (unat c - 48))))"
        using "1.hyps" [OF char_at(1,2), of "Some (unat c - 48)" "unat c - 48" "v * 10 + (unat c - 48)"]
          strchr_digits [OF char_at(2)] True char_at(4) by simp
      then show ?thesis using char_at strchr_digits [OF char_at(2)] True by (simp add: atoi_loop.simps [of s i])
    next
      case False
      then show ?thesis using char_at strchr_digits [OF char_at(2)] by (simp add: atoi_loop.simps [of s i])
    qed
  qed
qed

lemma sint_s32: "sint (of_int x :: u32) = s32 x"
  by (simp add: s32_def signed_of_int signed_take_bit_eq_take_bit_shift take_bit_eq_mod)

text \<open>The sign and the digits that follow it, after the blanks.\<close>

definition atoi_parts :: "u8 list \<Rightarrow> bool \<times> u8 list" where
  "atoi_parts xs =
     (case dropWhile (\<lambda>c. c = 32 \<or> c = 9) xs of
        [] \<Rightarrow> (False, [])
      | c # cs \<Rightarrow> (c = 45, takeWhile is_digit (if c = 45 \<or> c = 43 then cs else c # cs)))"

text \<open>\<open>atoi\<close> reads any terminated string without running past its end and returns the value of the decimal
  digits after the blanks and the sign, taken modulo \<open>2 ^ 32\<close> into the range of an \<^verbatim>\<open>int\<close>: exact for numbers
  below \<open>2 ^ 31\<close>, wrapped silently for longer ones, 0 when there are no digits.\<close>

theorem atoi_reads_decimal:
  assumes "terminated s"
  shows "atoi s = (case atoi_parts (cstr s) of (neg, ds) \<Rightarrow>
      Some (s32 (if neg then - int (digits_val ds 0) else int (digits_val ds 0))))"
proof -
  obtain k where k: "atoi_skip s 0 = Some k" "terminated_at s k" "cstr_at s k = dropWhile (\<lambda>c. c = 32 \<or> c = 9) (cstr s)"
    using atoi_skip_spec [OF assms] by blast
  have neg: "sint (- (of_nat n) :: u32) = s32 (- int n)" "sint (of_nat n :: u32) = s32 (int n)" for n
    using sint_s32 [of "- int n"] sint_s32 [of "int n"] by simp_all
  from k(2) show ?thesis
  proof (cases rule: cstr_cases)
    case end_of
    then show ?thesis
      using k(1) atoi_loop_spec [OF k(2), of 0] neg(2) [of 0]
      unfolding atoi_parts_def k(3) [symmetric] by (simp add: atoi_def Let_def)
  next
    case (char_at c)
    then show ?thesis
      using k(1) atoi_loop_spec [OF k(2), of 0] atoi_loop_spec [OF char_at(4), of 0] neg
      unfolding atoi_parts_def k(3) [symmetric] by (simp add: atoi_def Let_def)
  qed
qed

theorem atoi_reads_decimal_witness:
  "atoi [32, 45, 52, 50, 120, 0] = Some (- 42) \<and> atoi [52, 50, 57, 52, 57, 54, 55, 50, 57, 55, 0] = Some 1"
  using atoi_reads_decimal [of "[32, 45, 52, 50, 120, 0]"] atoi_reads_decimal [of "[52, 50, 57, 52, 57, 54, 55, 50, 57, 55, 0]"]
  by (simp add: terminated_at_def cstr_at_def atoi_parts_def is_digit_def s32_def)

text \<open>C37: The menu splits a command into exactly its words, the maximal runs of characters other than blanks and
  tabs: repeated calls of \<open>strtok_r\<close> return pointers to them in order, each terminated in place and left intact by
  the later calls. A command of more than 16 words is refused with E2BIG, before anything is stored past the
  end of the argument array, and no byte outside of the command is read or written.\<close>

theorem menu_splits_command:
  assumes "terminated_at s start"
  shows "let ws = words_by (is_sep [32, 9, 0]) (cstr_at s start) in
    if length ws \<le> MAXMENUARGS then
      \<exists>hs s'. cmd_args s (Some start) c0 [] = Some (Inr hs, s') \<and> map (cstr_at s') hs = ws \<and> length s' = length s \<and>
        take start s' = take start s
    else \<exists>s'. cmd_args s (Some start) c0 [] = Some (Inl E2BIG, s')"
  using cmd_args_spec [of s "Some start" "Some start" c0 "[]"] assms by (auto simp: Let_def split: if_splits)

theorem menu_splits_command_witness:
  "\<exists>hs s'. cmd_args [112, 32, 32, 97, 98, 9, 0] (Some 0) None [] = Some (Inr hs, s') \<and> map (cstr_at s') hs = [[112], [97, 98]]"
proof -
  have w: "words_by (is_sep [32, 9, 0]) (cstr [112, 32, 32, 97, 98, 9, 0]) = [[112], [97, 98]]"
    by (simp add: words_by.simps is_sep_def cstr_at_def)
  show ?thesis
    using menu_splits_command [of "[112, 32, 32, 97, 98, 9, 0]" 0 None]
    unfolding w by (auto simp: terminated_at_def MAXMENUARGS_def)
qed

end
