(* ===== verification/Disk.thy ===== *)
theory Disk
  imports Uio "HOL-Library.Signed_Division"
begin

text \<open>
  The disk driver \<^verbatim>\<open>kern/dev/lamebus/lhd.c\<close> and the block layer of the file system on top of it,
  \<^verbatim>\<open>kern/fs/sfs/sfs_io.c\<close>. The disk itself is its sectors, the buffer on the card and the outcomes
  that its next operations will have: a status code, and what a failed operation leaves behind in the sector or the
  buffer. When no outcomes are left all operations succeed. The calls are made with the big lock of the VFS layer held,
  so that no other thread uses the disk in between.
\<close>

section \<open>The disk driver\<close>

definition LHD_SECTSIZE :: nat where "LHD_SECTSIZE = 512"

definition LHD_IDLE :: u32 where "LHD_IDLE = 0"

definition LHD_WORKING :: u32 where "LHD_WORKING = 1"

definition LHD_OK :: u32 where "LHD_OK = 4"

definition LHD_INVSECT :: u32 where "LHD_INVSECT = 12"

definition LHD_MEDIA :: u32 where "LHD_MEDIA = 20"

definition LHD_STATEMASK :: u32 where "LHD_STATEMASK = 0x1d"

record disk =
  d_blocks :: u32
  sectors :: "u32 \<Rightarrow> u8 list"
  lh_buf :: "u8 list"
  outcomes :: "(u32 \<times> u8 list) list"

definition lhd_code_to_errno :: "u32 \<Rightarrow> errno + unit" where
  "lhd_code_to_errno code =
     (if code AND LHD_STATEMASK = LHD_OK then Inr ()
      else if code AND LHD_STATEMASK = LHD_INVSECT then Inl EINVAL
      else if code AND LHD_STATEMASK = LHD_MEDIA then Inl EIO
      else Inl EAGAIN)"

text \<open>The result that the interrupt handler reports; \<open>None\<close> when it reports nothing and the
  waiting thread goes on waiting.\<close>

definition lhd_irq :: "u32 \<Rightarrow> (errno + unit) option" where
  "lhd_irq val =
     (let state = val AND LHD_STATEMASK in
      if state = LHD_OK \<or> state = LHD_INVSECT \<or> state = LHD_MEDIA then Some (lhd_code_to_errno val) else None)"

text \<open>What the hardware does when an operation is started: the status it ends with, and the disk.\<close>

definition lhd_op :: "bool \<Rightarrow> u32 \<Rightarrow> disk \<Rightarrow> u32 \<times> disk" where
  "lhd_op write sect d =
     (let done = (if write then d\<lparr>sectors := (sectors d)(sect := lh_buf d)\<rparr> else d\<lparr>lh_buf := sectors d sect\<rparr>) in
      case outcomes d of
        [] \<Rightarrow> (LHD_OK, done)
      | (code, junk) # os \<Rightarrow>
          (code,
           (if code AND LHD_STATEMASK = LHD_OK then done
            else if write then d\<lparr>sectors := (sectors d)(sect := junk)\<rparr>
            else d\<lparr>lh_buf := junk\<rparr>)\<lparr>outcomes := os\<rparr>))"

fun lhd_sectors :: "nat option \<Rightarrow> u32 \<Rightarrow> nat list \<Rightarrow> disk \<Rightarrow> memory \<Rightarrow> uio \<Rightarrow> ((errno + unit) \<times> disk \<times> memory \<times> uio) option" where
  "lhd_sectors curas sector [] d m u = Some (Inr (), d, m, u)"
| "lhd_sectors curas sector (i # rest) d m u = do {
     (r, buf, u, m) \<leftarrow>
       (if uio_dir u = UIO_WRITE then uiomove curas m (lh_buf d) LHD_SECTSIZE u else Some (Inr (), lh_buf d, u, m));
     let d = d\<lparr>lh_buf := buf\<rparr>;
     case r of
       Inl e \<Rightarrow> Some (Inl e, d, m, u)
     | Inr _ \<Rightarrow> do {
         let (code, d) = lhd_op (uio_dir u = UIO_WRITE) (sector + of_nat i) d;
         result \<leftarrow> lhd_irq code;
         (result, buf, u, m) \<leftarrow>
           (if result = Inr () \<and> uio_dir u = UIO_READ then uiomove curas m (lh_buf d) LHD_SECTSIZE u
            else Some (result, lh_buf d, u, m));
         let d = d\<lparr>lh_buf := buf\<rparr>;
         case result of
           Inl e \<Rightarrow> Some (Inl e, d, m, u)
         | Inr _ \<Rightarrow> lhd_sectors curas sector rest d m u
       }
   }"

definition lhd_io :: "nat option \<Rightarrow> disk \<Rightarrow> memory \<Rightarrow> uio \<Rightarrow> ((errno + unit) \<times> disk \<times> memory \<times> uio) option" where
  "lhd_io curas d m u =
     (let sector = (of_int (uio_offset u sdiv int LHD_SECTSIZE) :: u32);
          sectoff = (of_int (uio_offset u smod int LHD_SECTSIZE) :: u32);
          len = (of_nat (uio_resid u div LHD_SECTSIZE) :: u32);
          lenoff = (of_nat (uio_resid u mod LHD_SECTSIZE) :: u32) in
      if sectoff \<noteq> 0 \<or> lenoff \<noteq> 0 then Some (Inl EINVAL, d, m, u)
      else if sector + len > d_blocks d then Some (Inl EINVAL, d, m, u)
      else lhd_sectors curas sector [0..<unat len] d m u)"

section \<open>Blocks of the file system\<close>

definition SFS_BLOCKSIZE :: nat where "SFS_BLOCKSIZE = 512"

text \<open>\<open>d_io\<close> of the device is \<open>lhd_io\<close>.\<close>

function rwblock_try :: "nat option \<Rightarrow> disk \<Rightarrow> memory \<Rightarrow> uio \<Rightarrow> nat \<Rightarrow> ((errno + unit) \<times> disk \<times> memory \<times> uio) option" where
  "rwblock_try curas d m u tries = do {
     (result, d, m, u) \<leftarrow> lhd_io curas d m u;
     if result = Inl EINVAL then None
     else if result = Inl EIO then
       if tries = 0 then rwblock_try curas d m u (tries + 1)
       else if tries < 10 then rwblock_try curas d m u (tries + 1)
       else Some (result, d, m, u)
     else Some (result, d, m, u)
   }"
  by pat_completeness auto
termination by (relation "measure (\<lambda>(curas, d, m, u, tries). 10 - tries)") auto

declare rwblock_try.simps [simp del]

definition sfs_rwblock :: "nat option \<Rightarrow> disk \<Rightarrow> memory \<Rightarrow> uio \<Rightarrow> ((errno + unit) \<times> disk \<times> memory \<times> uio) option" where
  "sfs_rwblock curas d m u = rwblock_try curas d m u 0"

text \<open>A block buffer of the kernel is a memory of its own, which holds the buffer from address 0 on.\<close>

definition SFSUIO :: "u32 \<Rightarrow> u32 \<Rightarrow> uio_rw \<Rightarrow> uio" where
  "SFSUIO ptr block rw = uio_kinit ptr SFS_BLOCKSIZE (int (unat block) * int SFS_BLOCKSIZE) rw"

definition buf_memory :: "u8 list \<Rightarrow> memory" where
  "buf_memory data =
     \<lparr>mbytes = (\<lambda>a. if unat a < length data then data ! unat a else 0), ureadable = (\<lambda>_. False), uwritable = (\<lambda>_. False)\<rparr>"

definition sfs_rblock :: "disk \<Rightarrow> u32 \<Rightarrow> ((errno + u8 list) \<times> disk) option" where
  "sfs_rblock d block = do {
     (result, d, m, u) \<leftarrow> sfs_rwblock None d (buf_memory []) (SFSUIO 0 block UIO_READ);
     case result of
       Inl e \<Rightarrow> Some (Inl e, d)
     | Inr _ \<Rightarrow> Some (Inr (mem_load m 0 SFS_BLOCKSIZE), d)
   }"

definition sfs_wblock :: "disk \<Rightarrow> u8 list \<Rightarrow> u32 \<Rightarrow> ((errno + unit) \<times> disk) option" where
  "sfs_wblock d data block = do {
     (result, d, m, u) \<leftarrow> sfs_rwblock None d (buf_memory data) (SFSUIO 0 block UIO_WRITE);
     Some (result, d)
   }"

section \<open>One block transfer\<close>

text \<open>Sectors have the size of a block. A disk without outcomes is in good order.\<close>

definition disk_wf :: "disk \<Rightarrow> bool" where
  "disk_wf d \<longleftrightarrow> (\<forall>b. length (sectors d b) = 512) \<and> length (lh_buf d) = 512 \<and> (\<forall>x \<in> set (outcomes d). length (snd x) = 512)"

definition block_uio :: "uio \<Rightarrow> u32 \<Rightarrow> bool" where
  "block_uio u b \<longleftrightarrow> uio_resid u = 512 \<and> uio_offset u = int (unat b) * 512"

lemmas size_defs = LHD_SECTSIZE_def SFS_BLOCKSIZE_def

lemma succ_block: "b < n \<Longrightarrow> unat (b + 1 :: u32) = unat b + 1" "b < n \<Longrightarrow> \<not> n < (b + 1 :: u32)"
proof -
  assume b: "b < n"
  have "unat n < 2 ^ LENGTH(32)" by (rule unsigned_less)
  then have "unat b + 1 < 4294967296" using b by (simp add: word_less_nat_alt)
  then show s: "unat (b + 1) = unat b + 1" by (simp add: unat_word_ariths)
  show "\<not> n < b + 1" unfolding word_less_nat_alt s using b by (simp add: word_less_nat_alt)
qed

lemma nat_sdiv: "(int n * 512) sdiv 512 = int n" "(int n * 512) smod 512 = 0"
  by (cases "n = 0", simp_all add: signed_divide_int_def signed_modulo_int_def sgn_if)+

lemma lhd_io_block:
  assumes "block_uio u b" "b < d_blocks d"
  shows "lhd_io curas d m u = lhd_sectors curas b [0] d m u"
proof -
  have "uio_offset u sdiv 512 = int (unat b)" "uio_offset u smod 512 = 0"
    using assms(1) nat_sdiv by (simp_all only: block_uio_def)
  then have "(of_int (uio_offset u sdiv int LHD_SECTSIZE) :: u32) = b" "(of_int (uio_offset u smod int LHD_SECTSIZE) :: u32) = 0"
    by (simp_all add: size_defs)
  then show ?thesis
    using assms(1) succ_block(2) [OF assms(2)] by (simp add: lhd_io_def block_uio_def size_defs Let_def)
qed

lemma lhd_op_wf:
  assumes "disk_wf d" "lhd_op w b d = (code, d')"
  shows "disk_wf d'" "d_blocks d' = d_blocks d"
  using assms by (auto simp: lhd_op_def disk_wf_def Let_def split: list.splits if_splits)

lemma lhd_sectors_write:
  assumes "can_move curas m u 512" "uio_dir u = UIO_WRITE" "disk_wf d"
  shows "\<exists>u'. advanced u 512 u' \<and> lhd_sectors curas b [0] d m u =
      (case lhd_op True b (d\<lparr>lh_buf := mem_get m (take 512 (uio_addrs u))\<rparr>) of
         (code, d') \<Rightarrow> lhd_irq code \<bind> (\<lambda>r. Some (r, d', m, u')))"
proof -
  have len: "length (lh_buf d) = 512" using assms(3) by (simp add: disk_wf_def)
  obtain u' where u': "uiomove curas m (lh_buf d) 512 u = Some (Inr (), mem_get m (take 512 (uio_addrs u)), u', m)" "advanced u 512 u'"
    using uiomove_ok [OF assms(1), of "lh_buf d"] assms(2) len by (auto simp: moved_def)
  have d': "uio_dir u' = UIO_WRITE" using u'(2) assms(2) by (simp add: advanced_def)
  show ?thesis
    using u' d' assms(2)
    by (intro exI [of _ u'])
      (auto simp: size_defs Let_def case_prod_beta' intro!: Option.bind_cong split: sum.split)
qed

lemma lhd_sectors_read:
  assumes "can_move curas m u 512" "uio_dir u = UIO_READ" "disk_wf d"
  shows "\<exists>u'. advanced u 512 u' \<and> lhd_sectors curas b [0] d m u =
      (case lhd_op False b d of
         (code, d') \<Rightarrow> lhd_irq code \<bind> (\<lambda>r. case r of
             Inl e \<Rightarrow> Some (Inl e, d', m, u)
           | Inr _ \<Rightarrow> Some (Inr (), d', mem_put m (take 512 (uio_addrs u)) (lh_buf d'), u')))"
proof -
  obtain code d' where op: "lhd_op False b d = (code, d')" by fastforce
  have len: "length (lh_buf d') = 512" using lhd_op_wf [OF assms(3) op] by (simp add: disk_wf_def)
  obtain u' where u': "uiomove curas m (lh_buf d') 512 u = Some (Inr (), lh_buf d', u', mem_put m (take 512 (uio_addrs u)) (lh_buf d'))"
      "advanced u 512 u'"
    using uiomove_ok [OF assms(1), of "lh_buf d'"] assms(2) len by (auto simp: moved_def)
  show ?thesis
    using u' assms(2) op
    by (intro exI [of _ u'])
      (auto simp: size_defs Let_def intro!: Option.bind_cong split: sum.split)
qed
lemma lhd_io_read:
  assumes "block_uio u b" "b < d_blocks d" "disk_wf d" "can_move curas m u 512" "uio_dir u = UIO_READ" "outcomes d = []"
  shows "\<exists>u'. advanced u 512 u' \<and> lhd_io curas d m u =
    Some (Inr (), d\<lparr>lh_buf := sectors d b\<rparr>, mem_put m (take 512 (uio_addrs u)) (sectors d b), u')"
proof -
  obtain u' where u': "advanced u 512 u'" "lhd_sectors curas b [0] d m u =
      Some (Inr (), d\<lparr>lh_buf := sectors d b\<rparr>, mem_put m (take 512 (uio_addrs u)) (sectors d b), u')"
    using lhd_sectors_read [OF assms(4,5,3), of b] assms(6)
    by (auto simp: lhd_op_def lhd_irq_def lhd_code_to_errno_def LHD_OK_def LHD_STATEMASK_def)
  show ?thesis
    using u' lhd_io_block [OF assms(1,2), of curas m] by (intro exI [of _ u']) simp
qed

lemma lhd_io_write:
  assumes "block_uio u b" "b < d_blocks d" "disk_wf d" "can_move curas m u 512" "uio_dir u = UIO_WRITE" "outcomes d = []"
  shows "\<exists>u'. advanced u 512 u' \<and> lhd_io curas d m u =
    Some (Inr (), d\<lparr>lh_buf := mem_get m (take 512 (uio_addrs u)),
      sectors := (sectors d)(b := mem_get m (take 512 (uio_addrs u)))\<rparr>, m, u')"
proof -
  let ?data = "mem_get m (take 512 (uio_addrs u))"
  obtain u' where u': "advanced u 512 u'" "lhd_sectors curas b [0] d m u =
      Some (Inr (), d\<lparr>lh_buf := ?data, sectors := (sectors d)(b := ?data)\<rparr>, m, u')"
    using lhd_sectors_write [OF assms(4,5,3), of b] assms(6)
    by (auto simp: lhd_op_def lhd_irq_def lhd_code_to_errno_def LHD_OK_def LHD_STATEMASK_def)
  show ?thesis
    using u' lhd_io_block [OF assms(1,2), of curas m] by (intro exI [of _ u']) simp
qed

lemma rwblock_success: "lhd_io curas d m u = Some (Inr (), x) \<Longrightarrow> rwblock_try curas d m u tries = Some (Inr (), x)"
  by (cases x) (simp add: rwblock_try.simps)

lemma rwblock_read:
  assumes "block_uio u b" "b < d_blocks d" "disk_wf d" "can_move curas m u 512" "uio_dir u = UIO_READ" "outcomes d = []"
  shows "\<exists>u'. advanced u 512 u' \<and> sfs_rwblock curas d m u =
    Some (Inr (), d\<lparr>lh_buf := sectors d b\<rparr>, mem_put m (take 512 (uio_addrs u)) (sectors d b), u')"
  using lhd_io_read [OF assms] rwblock_success by (auto simp: sfs_rwblock_def)

lemma rwblock_write:
  assumes "block_uio u b" "b < d_blocks d" "disk_wf d" "can_move curas m u 512" "uio_dir u = UIO_WRITE" "outcomes d = []"
  shows "\<exists>u'. advanced u 512 u' \<and> sfs_rwblock curas d m u =
    Some (Inr (), d\<lparr>lh_buf := mem_get m (take 512 (uio_addrs u)),
      sectors := (sectors d)(b := mem_get m (take 512 (uio_addrs u)))\<rparr>, m, u')"
  using lhd_io_write [OF assms] rwblock_success by (auto simp: sfs_rwblock_def)

section \<open>Block buffers\<close>

lemma sfsuio_facts:
  "block_uio (SFSUIO 0 b rw) b" "can_move None m (SFSUIO 0 b rw) 512" "uio_dir (SFSUIO 0 b rw) = rw"
  "uio_addrs (SFSUIO 0 b rw) = addrs_from 0 512"
  by (simp_all add: SFSUIO_def uio_kinit_def block_uio_def can_move_def space_ok_def uio_addrs_def may_touch_def size_defs)

lemma nth_addrs: "i < n \<Longrightarrow> addrs_from a n ! i = a + of_nat i"
  by (simp add: addrs_from_def)

lemma distinct_addrs: "n \<le> 2 ^ 32 \<Longrightarrow> distinct (addrs_from a n)"
  by (auto simp: addrs_from_def distinct_map inj_on_def word_of_nat_eq_iff take_bit_nat_def)

lemma buf_memory_get: "length data = n \<Longrightarrow> n < 2 ^ 32 \<Longrightarrow> mem_get (buf_memory data) (addrs_from 0 n) = data"
  by (intro nth_equalityI) (auto simp: mem_get_def buf_memory_def nth_addrs unsigned_of_nat take_bit_nat_def)

lemma mem_load_put: "length xs = n \<Longrightarrow> n \<le> 2 ^ 32 \<Longrightarrow> mem_load (mem_put m (addrs_from a n) xs) a n = xs"
  unfolding mem_load_get mem_get_def by (intro nth_equalityI) (auto simp: mem_put_nth distinct_addrs)

lemma sfs_rblock_ok:
  assumes "b < d_blocks d" "disk_wf d" "outcomes d = []"
  shows "sfs_rblock d b = Some (Inr (sectors d b), d\<lparr>lh_buf := sectors d b\<rparr>)"
proof -
  have "length (sectors d b) = 512" using assms(2) by (simp add: disk_wf_def)
  then show ?thesis
    using rwblock_read [OF sfsuio_facts(1) assms(1,2) sfsuio_facts(2) _ assms(3), of UIO_READ "buf_memory []"] mem_load_put [of "sectors d b" 512]
    by (auto simp: sfs_rblock_def sfsuio_facts size_defs)
qed

lemma sfs_wblock_ok:
  assumes "b < d_blocks d" "disk_wf d" "outcomes d = []" "length data = 512"
  shows "sfs_wblock d data b = Some (Inr (), d\<lparr>lh_buf := data, sectors := (sectors d)(b := data)\<rparr>)"
  using rwblock_write [OF sfsuio_facts(1) assms(1,2) sfsuio_facts(2) _ assms(3), of UIO_WRITE "buf_memory data"] buf_memory_get [OF assms(4)]
  by (auto simp: sfs_wblock_def sfsuio_facts)

section \<open>Failing operations\<close>

lemma media_irq: "lhd_irq LHD_MEDIA = Some (Inl EIO)"
  by (simp add: lhd_irq_def lhd_code_to_errno_def LHD_MEDIA_def LHD_OK_def LHD_INVSECT_def LHD_STATEMASK_def)

lemma read_media_error:
  assumes "block_uio u b" "b < d_blocks d" "disk_wf d" "can_move curas m u 512" "uio_dir u = UIO_READ" "outcomes d = (LHD_MEDIA, junk) # os"
  shows "lhd_io curas d m u = Some (Inl EIO, d\<lparr>lh_buf := junk, outcomes := os\<rparr>, m, u)"
proof -
  have "LHD_MEDIA AND LHD_STATEMASK \<noteq> LHD_OK" by (simp add: LHD_MEDIA_def LHD_OK_def LHD_STATEMASK_def)
  then show ?thesis
    using lhd_sectors_read [OF assms(4,5,3), of b] assms(6) media_irq
    by (auto simp: lhd_io_block [OF assms(1,2)] lhd_op_def)
qed

text \<open>The reads that are tried again: \<open>js\<close> is what the failing ones leave in the buffer.\<close>

lemma rwblock_read_retries:
  assumes "block_uio u b" "can_move curas m u 512" "uio_dir u = UIO_READ"
    and "b < d_blocks d" "disk_wf d" "outcomes d = map (Pair LHD_MEDIA) js" "tries \<le> 10"
  shows "if tries + length js \<le> 10 then
      \<exists>u'. advanced u 512 u' \<and> rwblock_try curas d m u tries =
        Some (Inr (), d\<lparr>lh_buf := sectors d b, outcomes := []\<rparr>, mem_put m (take 512 (uio_addrs u)) (sectors d b), u')
    else \<exists>buf. rwblock_try curas d m u tries =
        Some (Inl EIO, d\<lparr>lh_buf := buf, outcomes := drop (11 - tries) (outcomes d)\<rparr>, m, u)"
  using assms(4-7)
proof (induction js arbitrary: d tries)
  case Nil
  then have "d\<lparr>lh_buf := sectors d b, outcomes := []\<rparr> = d\<lparr>lh_buf := sectors d b\<rparr>" by simp
  then show ?case
    using Nil lhd_io_read [OF assms(1) Nil(1,2) assms(2,3)] rwblock_success by fastforce
next
  case (Cons j js)
  let ?d = "d\<lparr>lh_buf := j, outcomes := map (Pair LHD_MEDIA) js\<rparr>"
  have fail: "lhd_io curas d m u = Some (Inl EIO, ?d, m, u)"
    using read_media_error [OF assms(1) Cons.prems(1,2) assms(2,3)] Cons.prems(3) by simp
  have wf: "b < d_blocks ?d" "disk_wf ?d" "outcomes ?d = map (Pair LHD_MEDIA) js"
    using Cons.prems by (auto simp: disk_wf_def)
  show ?case
  proof (cases "tries < 10")
    case True
    have step: "rwblock_try curas d m u tries = rwblock_try curas ?d m u (tries + 1)"
      using fail True by (simp add: rwblock_try.simps [of _ d])
    have "drop (11 - tries) (outcomes d) = drop (11 - (tries + 1)) (outcomes ?d)"
      using Cons.prems(3) True by (simp add: Suc_diff_le [of tries 10, simplified])
    then show ?thesis using Cons.IH [OF wf, of "tries + 1"] True unfolding step by (auto split: if_splits)
  next
    case False
    then have t: "tries = 10" using Cons.prems(4) by simp
    then show ?thesis using fail Cons.prems(3) by (auto simp: rwblock_try.simps [of _ d])
  qed
qed
text \<open>A write that fails is reported as done: the transfer has already used up the uio when the disk reports the
  error, so that the second attempt has nothing left to write.\<close>

lemma write_media_error:
  assumes "block_uio u b" "b < d_blocks d" "disk_wf d" "can_move curas m u 512" "uio_dir u = UIO_WRITE"
    and "outcomes d = (LHD_MEDIA, junk) # os"
  shows "\<exists>u'. advanced u 512 u' \<and> sfs_rwblock curas d m u =
    Some (Inr (), d\<lparr>lh_buf := mem_get m (take 512 (uio_addrs u)), sectors := (sectors d)(b := junk), outcomes := os\<rparr>, m, u')"
proof -
  let ?d = "d\<lparr>lh_buf := mem_get m (take 512 (uio_addrs u)), sectors := (sectors d)(b := junk), outcomes := os\<rparr>"
  have "LHD_MEDIA AND LHD_STATEMASK \<noteq> LHD_OK" by (simp add: LHD_MEDIA_def LHD_OK_def LHD_STATEMASK_def)
  then obtain u' where u': "advanced u 512 u'" "lhd_io curas d m u = Some (Inl EIO, ?d, m, u')"
    using lhd_sectors_write [OF assms(4,5,3), of b] assms(6) media_irq
    by (auto simp: lhd_io_block [OF assms(1,2)] lhd_op_def)
  have "uio_resid u' = 0" "uio_offset u' = int (unat (b + 1)) * 512"
    using u'(1) assms(1) succ_block(1) [OF assms(2)] by (simp_all add: advanced_def block_uio_def)
  moreover from this have "uio_offset u' sdiv 512 = int (unat (b + 1))" "uio_offset u' smod 512 = 0"
    using nat_sdiv by (simp_all only:)
  ultimately have "lhd_io curas ?d m u' = Some (Inr (), ?d, m, u')"
    using succ_block(2) [OF assms(2)] by (simp add: lhd_io_def size_defs Let_def)
  then have "rwblock_try curas ?d m u' 1 = Some (Inr (), ?d, m, u')" by (rule rwblock_success)
  then show ?thesis
    using u' by (intro exI [of _ u']) (simp add: sfs_rwblock_def rwblock_try.simps [of _ d])
qed

text \<open>C31: Reading a block survives media errors. The read is tried again after each of them, eleven times at most: if
  at most ten attempts fail before the disk recovers the contents of the block are returned, otherwise
  EIO, after exactly eleven attempts. Nothing on the disk changes.\<close>

theorem sfs_rblock_retries:
  assumes "b < d_blocks d" "disk_wf d" "outcomes d = map (Pair LHD_MEDIA) js"
  shows "\<exists>d'. sfs_rblock d b = Some (if length js \<le> 10 then Inr (sectors d b) else Inl EIO, d') \<and>
    sectors d' = sectors d \<and> outcomes d' = drop 11 (outcomes d)"
proof -
  let ?u = "SFSUIO 0 b UIO_READ" and ?m = "buf_memory []"
  have len: "length (sectors d b) = 512" using assms(2) by (simp add: disk_wf_def)
  note R = rwblock_read_retries [OF sfsuio_facts(1,2,3) assms, where tries = 0 and m = ?m]
  show ?thesis
  proof (cases "length js \<le> 10")
    case True
    then obtain u' where "sfs_rwblock None d ?m ?u =
        Some (Inr (), d\<lparr>lh_buf := sectors d b, outcomes := []\<rparr>, mem_put ?m (addrs_from 0 512) (sectors d b), u')"
      using R by (auto simp: sfs_rwblock_def sfsuio_facts(4))
    then show ?thesis using True assms(3) mem_load_put [OF len] by (simp add: sfs_rblock_def size_defs)
  next
    case False
    then show ?thesis using R by (auto simp: sfs_rblock_def sfs_rwblock_def)
  qed
qed

definition sample_disk :: "(u32 \<times> u8 list) list \<Rightarrow> disk" where
  "sample_disk os = \<lparr>d_blocks = 4096, sectors = (\<lambda>b. replicate 512 (ucast b)), lh_buf = replicate 512 0, outcomes = os\<rparr>"

theorem sfs_rblock_retries_witness:
  "(\<exists>d'. sfs_rblock (sample_disk (replicate 10 (LHD_MEDIA, replicate 512 0))) 7 = Some (Inr (replicate 512 7), d')) \<and>
   (\<exists>d'. sfs_rblock (sample_disk (replicate 12 (LHD_MEDIA, replicate 512 0))) 7 = Some (Inl EIO, d') \<and> length (outcomes d') = 1)"
proof -
  have wf: "disk_wf (sample_disk (replicate n (LHD_MEDIA, replicate 512 0)))" for n by (simp add: disk_wf_def sample_disk_def)
  have o: "outcomes (sample_disk (replicate n (LHD_MEDIA, replicate 512 0))) = map (Pair LHD_MEDIA) (replicate n (replicate 512 0))" for n
    by (simp add: sample_disk_def)
  have b: "(7 :: u32) < d_blocks (sample_disk os)" "sectors (sample_disk os) 7 = replicate 512 7" for os by (simp_all add: sample_disk_def)
  show ?thesis
    using sfs_rblock_retries [OF b(1) wf o, of 10] sfs_rblock_retries [OF b(1) wf o, of 12]
    by (auto simp: o b(2))
qed

text \<open>C30: A write that the disk fails is reported as a success. When the first attempt to write a block ends in a
  media error the data have already been taken from the uio; \<open>sfs_rwblock\<close> then calls the driver again with nothing
  left to write, which succeeds without touching the disk. So \<open>sfs_wblock\<close> returns 0, and what the block holds
  is whatever the failed write left there.\<close>

theorem sfs_wblock_loses_write:
  assumes "b < d_blocks d" "disk_wf d" "outcomes d = (LHD_MEDIA, junk) # os"
  shows "\<exists>d'. sfs_wblock d data b = Some (Inr (), d') \<and> sectors d' = (sectors d)(b := junk) \<and> outcomes d' = os"
  using write_media_error [OF sfsuio_facts(1) assms(1,2) sfsuio_facts(2) _ assms(3), of UIO_WRITE "buf_memory data"]
  by (auto simp: sfs_wblock_def sfsuio_facts)

theorem sfs_wblock_loses_write_witness:
  "\<exists>d'. sfs_wblock (sample_disk [(LHD_MEDIA, replicate 512 7)]) (replicate 512 1) 7 = Some (Inr (), d') \<and> sectors d' 7 = replicate 512 7"
proof -
  have "(7 :: u32) < d_blocks (sample_disk [(LHD_MEDIA, replicate 512 7)])" "disk_wf (sample_disk [(LHD_MEDIA, replicate 512 7)])"
    "outcomes (sample_disk [(LHD_MEDIA, replicate 512 7)]) = (LHD_MEDIA, replicate 512 7) # []"
    by (simp_all add: sample_disk_def disk_wf_def)
  then show ?thesis using sfs_wblock_loses_write [of 7 "sample_disk [(LHD_MEDIA, replicate 512 7)]" "replicate 512 7" "[]" "replicate 512 1"] by auto
qed

end
