(* ===== verification/SfsFile.thy ===== *)
theory SfsFile
  imports Disk Bitmap
begin

text \<open>
  SFS, the file system on disk: its structures (\<^verbatim>\<open>kern/include/kern/sfs.h\<close>,
  \<^verbatim>\<open>kern/include/sfs.h\<close>) and the part of \<^verbatim>\<open>kern/fs/sfs/sfs_vnode.c\<close> that deals with
  a single file: allocation of blocks, the map from file blocks to disk blocks, reading, writing and truncating.
  The functions take and return the file system and the vnode they work on. All of them run with the big lock of the
  VFS layer held.
\<close>

section \<open>Structures\<close>

definition SFS_MAGIC :: u32 where "SFS_MAGIC = 0xabadf001"

definition SFS_VOLNAME_SIZE :: nat where "SFS_VOLNAME_SIZE = 32"

definition SFS_NDIRECT :: nat where "SFS_NDIRECT = 15"

definition SFS_DBPERIDB :: nat where "SFS_DBPERIDB = 128"

definition SFS_NAMELEN :: nat where "SFS_NAMELEN = 60"

definition SFS_SB_LOCATION :: u32 where "SFS_SB_LOCATION = 0"

definition SFS_ROOT_LOCATION :: u32 where "SFS_ROOT_LOCATION = 1"

definition SFS_MAP_LOCATION :: u32 where "SFS_MAP_LOCATION = 2"

definition SFS_NOINO :: u32 where "SFS_NOINO = 0"

definition SFS_TYPE_INVAL :: u16 where "SFS_TYPE_INVAL = 0"

definition SFS_TYPE_FILE :: u16 where "SFS_TYPE_FILE = 1"

definition SFS_TYPE_DIR :: u16 where "SFS_TYPE_DIR = 2"

record sfs_super =
  sp_magic :: u32
  sp_nblocks :: u32
  sp_volname :: "u8 list"
  sp_reserved :: "u32 list"

record sfs_inode =
  sfi_size :: u32
  sfi_type :: u16
  sfi_linkcount :: u16
  sfi_direct :: "u32 list"
  sfi_indirect :: u32
  sfi_waste :: "u32 list"

record sfs_dir =
  sfd_ino :: u32
  sfd_name :: "u8 list"

text \<open>The two tables of vnode operations.\<close>

datatype sfs_ops = Sfs_fileops | Sfs_dirops

record sfs_vnode =
  vn_refcount :: int
  vn_opencount :: int
  vn_ops :: sfs_ops
  sv_i :: sfs_inode
  sv_ino :: u32
  sv_dirty :: bool

text \<open>The vnodes in memory are in a store of their own; \<open>sfs_vnodes\<close> is the table of pointers to them.\<close>

record sfs_fs =
  sfs_superblock :: sfs_super
  sfs_superdirty :: bool
  sfs_device :: disk
  sfs_vnodes :: "nat list"
  sfs_freemap :: bitmap
  sfs_freemapdirty :: bool
  vnode_store :: "nat \<rightharpoonup> sfs_vnode"

section \<open>Structures as bytes\<close>

text \<open>The machine is big-endian.\<close>

definition put32 :: "u32 \<Rightarrow> u8 list" where
  "put32 w = [ucast (drop_bit 24 w), ucast (drop_bit 16 w), ucast (drop_bit 8 w), ucast w]"

definition get32 :: "u8 \<Rightarrow> u8 \<Rightarrow> u8 \<Rightarrow> u8 \<Rightarrow> u32" where
  "get32 a b c d = push_bit 24 (ucast a) OR push_bit 16 (ucast b) OR push_bit 8 (ucast c) OR ucast d"

definition bytes32 :: "u32 list \<Rightarrow> u8 list" where
  "bytes32 ws = concat (map put32 ws)"

fun words32 :: "u8 list \<Rightarrow> u32 list" where
  "words32 (a # b # c # d # xs) = get32 a b c d # words32 xs"
| "words32 _ = []"

definition inode_bytes :: "sfs_inode \<Rightarrow> u8 list" where
  "inode_bytes i =
     bytes32 ([sfi_size i, push_bit 16 (ucast (sfi_type i)) OR ucast (sfi_linkcount i)] @
       sfi_direct i @ [sfi_indirect i] @ sfi_waste i)"

definition inode_of :: "u8 list \<Rightarrow> sfs_inode" where
  "inode_of xs =
     (let ws = words32 xs in
      \<lparr>sfi_size = ws ! 0, sfi_type = ucast (drop_bit 16 (ws ! 1)), sfi_linkcount = ucast (ws ! 1),
       sfi_direct = take SFS_NDIRECT (drop 2 ws), sfi_indirect = ws ! 17, sfi_waste = drop 18 ws\<rparr>)"

definition dir_bytes :: "sfs_dir \<Rightarrow> u8 list" where
  "dir_bytes sd = put32 (sfd_ino sd) @ sfd_name sd"

definition dir_of :: "u8 list \<Rightarrow> sfs_dir" where
  "dir_of xs = \<lparr>sfd_ino = words32 (take 4 xs) ! 0, sfd_name = drop 4 xs\<rparr>"

definition super_bytes :: "sfs_super \<Rightarrow> u8 list" where
  "super_bytes s = bytes32 [sp_magic s, sp_nblocks s] @ sp_volname s @ bytes32 (sp_reserved s)"

definition super_of :: "u8 list \<Rightarrow> sfs_super" where
  "super_of xs =
     \<lparr>sp_magic = words32 xs ! 0, sp_nblocks = words32 xs ! 1, sp_volname = take SFS_VOLNAME_SIZE (drop 8 xs),
      sp_reserved = words32 (drop 40 xs)\<rparr>"

section \<open>Blocks\<close>

definition sfs_clearblock :: "sfs_fs \<Rightarrow> u32 \<Rightarrow> ((errno + unit) \<times> sfs_fs) option" where
  "sfs_clearblock fs block = do {
     (r, d) \<leftarrow> sfs_wblock (sfs_device fs) (replicate SFS_BLOCKSIZE 0) block;
     Some (r, fs\<lparr>sfs_device := d\<rparr>)
   }"

definition sfs_sync_inode :: "sfs_fs \<Rightarrow> sfs_vnode \<Rightarrow> ((errno + unit) \<times> sfs_fs \<times> sfs_vnode) option" where
  "sfs_sync_inode fs sv =
     (if sv_dirty sv then do {
        (r, d) \<leftarrow> sfs_wblock (sfs_device fs) (inode_bytes (sv_i sv)) (sv_ino sv);
        case r of
          Inl e \<Rightarrow> Some (Inl e, fs\<lparr>sfs_device := d\<rparr>, sv)
        | Inr _ \<Rightarrow> Some (Inr (), fs\<lparr>sfs_device := d\<rparr>, sv\<lparr>sv_dirty := False\<rparr>)
      } else Some (Inr (), fs, sv))"

definition sfs_balloc :: "sfs_fs \<Rightarrow> ((errno + u32) \<times> sfs_fs) option" where
  "sfs_balloc fs = do {
     (r, fm) \<leftarrow> bitmap_alloc (sfs_freemap fs);
     case r of
       Inl e \<Rightarrow> Some (Inl e, fs\<lparr>sfs_freemap := fm\<rparr>)
     | Inr n \<Rightarrow> do {
         let diskblock = (of_nat n :: u32);
         let fs = fs\<lparr>sfs_freemap := fm, sfs_freemapdirty := True\<rparr>;
         KASSERT (\<not> diskblock \<ge> sp_nblocks (sfs_superblock fs));
         (r, fs) \<leftarrow> sfs_clearblock fs diskblock;
         case r of
           Inl e \<Rightarrow> Some (Inl e, fs)
         | Inr _ \<Rightarrow> Some (Inr diskblock, fs)
       }
   }"

definition sfs_bfree :: "sfs_fs \<Rightarrow> u32 \<Rightarrow> sfs_fs option" where
  "sfs_bfree fs diskblock = do {
     fm \<leftarrow> bitmap_unmark (sfs_freemap fs) (unat diskblock);
     Some (fs\<lparr>sfs_freemap := fm, sfs_freemapdirty := True\<rparr>)
   }"

definition sfs_bused :: "sfs_fs \<Rightarrow> u32 \<Rightarrow> bool option" where
  "sfs_bused fs diskblock = do {
     KASSERT (\<not> diskblock \<ge> sp_nblocks (sfs_superblock fs));
     w \<leftarrow> bitmap_isset (sfs_freemap fs) (unat diskblock);
     Some (w \<noteq> 0)
   }"

section \<open>The blocks of a file\<close>

text \<open>The end of both branches of \<open>sfs_bmap\<close>: a block handed back must be in use.\<close>

definition bmap_check :: "sfs_fs \<Rightarrow> sfs_vnode \<Rightarrow> u32 \<Rightarrow> ((errno + u32) \<times> sfs_fs \<times> sfs_vnode) option" where
  "bmap_check fs sv block =
     (if block \<noteq> 0 then do {
        used \<leftarrow> sfs_bused fs block;
        KASSERT used;
        Some (Inr block, fs, sv)
      } else Some (Inr block, fs, sv))"

definition bmap_direct :: "sfs_fs \<Rightarrow> sfs_vnode \<Rightarrow> nat \<Rightarrow> bool \<Rightarrow> ((errno + u32) \<times> sfs_fs \<times> sfs_vnode) option" where
  "bmap_direct fs sv fileblock doalloc = do {
     block \<leftarrow> idx (sfi_direct (sv_i sv)) fileblock;
     if block = 0 \<and> doalloc then do {
       (r, fs) \<leftarrow> sfs_balloc fs;
       case r of
         Inl e \<Rightarrow> Some (Inl e, fs, sv)
       | Inr block \<Rightarrow>
           bmap_check fs
             (sv\<lparr>sv_i := (sv_i sv)\<lparr>sfi_direct := (sfi_direct (sv_i sv))[fileblock := block]\<rparr>, sv_dirty := True\<rparr>) block
     } else bmap_check fs sv block
   }"

text \<open>The indirect block: its number and its contents, allocating it if need be.\<close>

definition bmap_idbuf :: "sfs_fs \<Rightarrow> sfs_vnode \<Rightarrow> ((errno + (u32 \<times> u32 list)) \<times> sfs_fs \<times> sfs_vnode) option" where
  "bmap_idbuf fs sv =
     (let idblock = sfi_indirect (sv_i sv) in
      if idblock = 0 then do {
        (r, fs) \<leftarrow> sfs_balloc fs;
        case r of
          Inl e \<Rightarrow> Some (Inl e, fs, sv)
        | Inr idblock \<Rightarrow>
            Some (Inr (idblock, replicate SFS_DBPERIDB 0), fs,
              sv\<lparr>sv_i := (sv_i sv)\<lparr>sfi_indirect := idblock\<rparr>, sv_dirty := True\<rparr>)
      } else do {
        (r, d) \<leftarrow> sfs_rblock (sfs_device fs) idblock;
        case r of
          Inl e \<Rightarrow> Some (Inl e, fs\<lparr>sfs_device := d\<rparr>, sv)
        | Inr bytes \<Rightarrow> Some (Inr (idblock, words32 bytes), fs\<lparr>sfs_device := d\<rparr>, sv)
      })"

definition bmap_indirect :: "sfs_fs \<Rightarrow> sfs_vnode \<Rightarrow> nat \<Rightarrow> bool \<Rightarrow> ((errno + u32) \<times> sfs_fs \<times> sfs_vnode) option" where
  "bmap_indirect fs sv idoff doalloc =
     (if sfi_indirect (sv_i sv) = 0 \<and> \<not> doalloc then Some (Inr 0, fs, sv)
      else do {
        (r, fs, sv) \<leftarrow> bmap_idbuf fs sv;
        case r of
          Inl e \<Rightarrow> Some (Inl e, fs, sv)
        | Inr (idblock, idbuf) \<Rightarrow> do {
            block \<leftarrow> idx idbuf idoff;
            if block = 0 \<and> doalloc then do {
              (r, fs) \<leftarrow> sfs_balloc fs;
              case r of
                Inl e \<Rightarrow> Some (Inl e, fs, sv)
              | Inr block \<Rightarrow> do {
                  (r, d) \<leftarrow> sfs_wblock (sfs_device fs) (bytes32 (idbuf[idoff := block])) idblock;
                  case r of
                    Inl e \<Rightarrow> Some (Inl e, fs\<lparr>sfs_device := d\<rparr>, sv)
                  | Inr _ \<Rightarrow> bmap_check (fs\<lparr>sfs_device := d\<rparr>) sv block
                }
            } else bmap_check fs sv block
          }
      })"

definition sfs_bmap :: "sfs_fs \<Rightarrow> sfs_vnode \<Rightarrow> u32 \<Rightarrow> bool \<Rightarrow> ((errno + u32) \<times> sfs_fs \<times> sfs_vnode) option" where
  "sfs_bmap fs sv fileblock doalloc =
     (if unat fileblock < SFS_NDIRECT then bmap_direct fs sv (unat fileblock) doalloc
      else
        let fileblock = unat fileblock - SFS_NDIRECT;
            idnum = fileblock div SFS_DBPERIDB;
            idoff = fileblock mod SFS_DBPERIDB in
        if idnum > 0 then Some (Inl EFBIG, fs, sv) else bmap_indirect fs sv idoff doalloc)"

section \<open>Reading and writing\<close>

text \<open>The file block that an offset is in, as the 32-bit number that it is stored in.\<close>

definition file_block_of :: "int \<Rightarrow> u32" where
  "file_block_of off = of_int (off sdiv int SFS_BLOCKSIZE)"

definition sfs_partialio :: "nat option \<Rightarrow> sfs_fs \<Rightarrow> sfs_vnode \<Rightarrow> memory \<Rightarrow> uio \<Rightarrow> nat \<Rightarrow> nat \<Rightarrow>
    ((errno + unit) \<times> sfs_fs \<times> sfs_vnode \<times> memory \<times> uio) option" where
  "sfs_partialio curas fs sv m u skipstart len = do {
     let doalloc = (uio_dir u = UIO_WRITE);
     KASSERT (skipstart + len \<le> SFS_BLOCKSIZE);
     (r, fs, sv) \<leftarrow> sfs_bmap fs sv (file_block_of (uio_offset u)) doalloc;
     case r of
       Inl e \<Rightarrow> Some (Inl e, fs, sv, m, u)
     | Inr diskblock \<Rightarrow> do {
         (r, fs) \<leftarrow>
           (if diskblock = 0 then do {
              KASSERT (uio_dir u = UIO_READ);
              Some (Inr (replicate SFS_BLOCKSIZE 0), fs)
            } else do {
              (r, d) \<leftarrow> sfs_rblock (sfs_device fs) diskblock;
              Some (r, fs\<lparr>sfs_device := d\<rparr>)
            });
         case r of
           Inl e \<Rightarrow> Some (Inl e, fs, sv, m, u)
         | Inr iobuf \<Rightarrow> do {
             (r, part, u, m) \<leftarrow> uiomove curas m (drop skipstart iobuf) len u;
             case r of
               Inl e \<Rightarrow> Some (Inl e, fs, sv, m, u)
             | Inr _ \<Rightarrow>
                 if uio_dir u = UIO_WRITE then do {
                   (r, d) \<leftarrow> sfs_wblock (sfs_device fs) (take skipstart iobuf @ part) diskblock;
                   Some (r, fs\<lparr>sfs_device := d\<rparr>, sv, m, u)
                 } else Some (Inr (), fs, sv, m, u)
           }
       }
   }"

text \<open>The byte offset on the disk is computed in 32 bits.\<close>

definition sfs_blockio :: "nat option \<Rightarrow> sfs_fs \<Rightarrow> sfs_vnode \<Rightarrow> memory \<Rightarrow> uio \<Rightarrow>
    ((errno + unit) \<times> sfs_fs \<times> sfs_vnode \<times> memory \<times> uio) option" where
  "sfs_blockio curas fs sv m u = do {
     let doalloc = (uio_dir u = UIO_WRITE);
     (r, fs, sv) \<leftarrow> sfs_bmap fs sv (file_block_of (uio_offset u)) doalloc;
     case r of
       Inl e \<Rightarrow> Some (Inl e, fs, sv, m, u)
     | Inr diskblock \<Rightarrow>
         if diskblock = 0 then do {
           KASSERT (uio_dir u = UIO_READ);
           (r, u, m) \<leftarrow> uiomovezeros curas m SFS_BLOCKSIZE u;
           Some (r, fs, sv, m, u)
         } else do {
           let saveoff = uio_offset u;
           let diskoff = int (unat (diskblock * of_nat SFS_BLOCKSIZE));
           KASSERT (uio_resid u \<ge> SFS_BLOCKSIZE);
           let saveres = int (uio_resid u);
           let diskres = int SFS_BLOCKSIZE;
           (r, d, m, u) \<leftarrow> sfs_rwblock curas (sfs_device fs) m (u\<lparr>uio_offset := diskoff, uio_resid := SFS_BLOCKSIZE\<rparr>);
           Some (r, fs\<lparr>sfs_device := d\<rparr>, sv, m,
             u\<lparr>uio_offset := (uio_offset u - diskoff) + saveoff, uio_resid := nat ((int (uio_resid u) - diskres) + saveres)\<rparr>)
         }
   }"

fun io_blocks :: "nat option \<Rightarrow> nat \<Rightarrow> sfs_fs \<Rightarrow> sfs_vnode \<Rightarrow> memory \<Rightarrow> uio \<Rightarrow>
    ((errno + unit) \<times> sfs_fs \<times> sfs_vnode \<times> memory \<times> uio) option" where
  "io_blocks curas 0 fs sv m u = Some (Inr (), fs, sv, m, u)"
| "io_blocks curas (Suc n) fs sv m u = do {
     (r, fs, sv, m, u) \<leftarrow> sfs_blockio curas fs sv m u;
     case r of
       Inl e \<Rightarrow> Some (Inl e, fs, sv, m, u)
     | Inr _ \<Rightarrow> io_blocks curas n fs sv m u
   }"

text \<open>The transfer between the end-of-file check and the label \<open>out\<close>.\<close>

definition io_transfer :: "nat option \<Rightarrow> sfs_fs \<Rightarrow> sfs_vnode \<Rightarrow> memory \<Rightarrow> uio \<Rightarrow>
    ((errno + unit) \<times> sfs_fs \<times> sfs_vnode \<times> memory \<times> uio) option" where
  "io_transfer curas fs sv m u = do {
     let blkoff = unat (of_int (uio_offset u smod int SFS_BLOCKSIZE) :: u32);
     (r, fs, sv, m, u) \<leftarrow>
       (if blkoff \<noteq> 0 then
          sfs_partialio curas fs sv m u blkoff (min (SFS_BLOCKSIZE - blkoff) (uio_resid u))
        else Some (Inr (), fs, sv, m, u));
     case r of
       Inl e \<Rightarrow> Some (Inl e, fs, sv, m, u)
     | Inr _ \<Rightarrow>
         if uio_resid u = 0 then Some (Inr (), fs, sv, m, u)
         else do {
           KASSERT (uio_offset u smod int SFS_BLOCKSIZE = 0);
           (r, fs, sv, m, u) \<leftarrow> io_blocks curas (uio_resid u div SFS_BLOCKSIZE) fs sv m u;
           case r of
             Inl e \<Rightarrow> Some (Inl e, fs, sv, m, u)
           | Inr _ \<Rightarrow> do {
               KASSERT (uio_resid u < SFS_BLOCKSIZE);
               if uio_resid u > 0 then sfs_partialio curas fs sv m u 0 (uio_resid u)
               else Some (Inr (), fs, sv, m, u)
             }
         }
   }"

definition sfs_io :: "nat option \<Rightarrow> sfs_fs \<Rightarrow> sfs_vnode \<Rightarrow> memory \<Rightarrow> uio \<Rightarrow>
    ((errno + unit) \<times> sfs_fs \<times> sfs_vnode \<times> memory \<times> uio) option" where
  "sfs_io curas fs sv m u =
     (let size = int (unat (sfi_size (sv_i sv)));
          endpos = uio_offset u + int (uio_resid u) in
      if uio_dir u = UIO_READ \<and> uio_offset u \<ge> size then Some (Inr (), fs, sv, m, u)
      else do {
        let extraresid = (if uio_dir u = UIO_READ \<and> endpos > size then unat (of_int (endpos - size) :: u32) else 0);
        KASSERT (uio_dir u = UIO_READ \<and> endpos > size \<longrightarrow> uio_resid u > extraresid);
        (r, fs, sv, m, u) \<leftarrow> io_transfer curas fs sv m (u\<lparr>uio_resid := uio_resid u - extraresid\<rparr>);
        let sv = (if uio_dir u = UIO_WRITE \<and> uio_offset u > int (unat (sfi_size (sv_i sv))) then
            sv\<lparr>sv_i := (sv_i sv)\<lparr>sfi_size := of_int (uio_offset u)\<rparr>, sv_dirty := True\<rparr> else sv);
        Some (r, fs, sv, m, u\<lparr>uio_resid := uio_resid u + extraresid\<rparr>)
      })"

section \<open>Truncating\<close>

text \<open>\<open>DIVROUNDUP\<close> of a file offset, stored in 32 bits.\<close>

definition block_length :: "int \<Rightarrow> u32" where
  "block_length len = of_int ((len + int SFS_BLOCKSIZE - 1) sdiv int SFS_BLOCKSIZE)"

fun truncate_direct :: "nat list \<Rightarrow> u32 \<Rightarrow> sfs_fs \<Rightarrow> sfs_vnode \<Rightarrow> (sfs_fs \<times> sfs_vnode) option" where
  "truncate_direct [] blocklen fs sv = Some (fs, sv)"
| "truncate_direct (i # rest) blocklen fs sv = do {
     block \<leftarrow> idx (sfi_direct (sv_i sv)) i;
     if of_nat i \<ge> blocklen \<and> block \<noteq> 0 then do {
       fs \<leftarrow> sfs_bfree fs block;
       truncate_direct rest blocklen fs
         (sv\<lparr>sv_i := (sv_i sv)\<lparr>sfi_direct := (sfi_direct (sv_i sv))[i := 0]\<rparr>, sv_dirty := True\<rparr>)
     } else truncate_direct rest blocklen fs sv
   }"

text \<open>The loop over the indirect block returns the file system, the buffer, \<open>hasnonzero\<close> and \<open>iddirty\<close>.\<close>

fun truncate_indirect :: "nat list \<Rightarrow> u32 \<Rightarrow> sfs_fs \<Rightarrow> u32 list \<Rightarrow> bool \<Rightarrow> bool \<Rightarrow> (sfs_fs \<times> u32 list \<times> bool \<times> bool) option" where
  "truncate_indirect [] blocklen fs idbuf hasnonzero iddirty = Some (fs, idbuf, hasnonzero, iddirty)"
| "truncate_indirect (j # rest) blocklen fs idbuf hasnonzero iddirty = do {
     block \<leftarrow> idx idbuf j;
     if blocklen < of_nat (SFS_NDIRECT + j) \<and> block \<noteq> 0 then do {
       fs \<leftarrow> sfs_bfree fs block;
       truncate_indirect rest blocklen fs (idbuf[j := 0]) hasnonzero True
     } else truncate_indirect rest blocklen fs idbuf (hasnonzero \<or> block \<noteq> 0) iddirty
   }"

definition sfs_truncate :: "sfs_fs \<Rightarrow> sfs_vnode \<Rightarrow> int \<Rightarrow> ((errno + unit) \<times> sfs_fs \<times> sfs_vnode) option" where
  "sfs_truncate fs sv len = do {
     let blocklen = block_length len;
     (fs, sv) \<leftarrow> truncate_direct [0..<SFS_NDIRECT] blocklen fs sv;
     let idblock = sfi_indirect (sv_i sv);
     let highblock = (of_nat (SFS_NDIRECT + SFS_DBPERIDB - 1) :: u32);
     (r, fs, sv) \<leftarrow>
       (if blocklen < highblock \<and> idblock \<noteq> 0 then do {
          (r, d) \<leftarrow> sfs_rblock (sfs_device fs) idblock;
          let fs = fs\<lparr>sfs_device := d\<rparr>;
          case r of
            Inl e \<Rightarrow> Some (Inl e, fs, sv)
          | Inr bytes \<Rightarrow> do {
              (fs, idbuf, hasnonzero, iddirty) \<leftarrow> truncate_indirect [0..<SFS_DBPERIDB] blocklen fs (words32 bytes) False False;
              if \<not> hasnonzero then do {
                fs \<leftarrow> sfs_bfree fs idblock;
                Some (Inr (), fs, sv\<lparr>sv_i := (sv_i sv)\<lparr>sfi_indirect := 0\<rparr>, sv_dirty := True\<rparr>)
              } else if iddirty then do {
                (r, d) \<leftarrow> sfs_wblock (sfs_device fs) (bytes32 idbuf) idblock;
                Some (r, fs\<lparr>sfs_device := d\<rparr>, sv)
              } else Some (Inr (), fs, sv)
            }
        } else Some (Inr (), fs, sv));
     case r of
       Inl e \<Rightarrow> Some (Inl e, fs, sv)
     | Inr _ \<Rightarrow> Some (Inr (), fs, sv\<lparr>sv_i := (sv_i sv)\<lparr>sfi_size := of_int len\<rparr>, sv_dirty := True\<rparr>)
   }"

section \<open>Round trips of the structures\<close>

lemma get32_put32: "get32 (ucast (drop_bit 24 w)) (ucast (drop_bit 16 w)) (ucast (drop_bit 8 w)) (ucast w) = w"
  apply (rule bit_word_eqI)
  apply (auto simp: get32_def bit_simps)
  subgoal for n by (cases "16 \<le> n") auto
  subgoal for n by (cases "24 \<le> n"; cases "16 \<le> n") auto
  done

lemma put32_get32: "put32 (get32 a b c d) = [a, b, c, d]"
  unfolding put32_def get32_def by (intro list.inject [THEN iffD2] conjI refl; rule bit_word_eqI) (auto simp: bit_simps dest: bit_imp_le_length)

lemma length_put32 [simp]: "length (put32 w) = 4"
  by (simp add: put32_def)

lemma bytes32_simps [simp]:
  "bytes32 [] = []" "bytes32 (w # ws) = put32 w @ bytes32 ws" "bytes32 (ws @ ws') = bytes32 ws @ bytes32 ws'"
  by (simp_all add: bytes32_def)

lemma length_bytes32 [simp]: "length (bytes32 ws) = 4 * length ws"
  by (induction ws) simp_all

lemma words32_put32 [simp]: "words32 (put32 w @ xs) = w # words32 xs"
  by (simp add: put32_def get32_put32)

lemma words32_bytes32 [simp]: "words32 (bytes32 ws) = ws"
  by (induction ws) simp_all

lemma words32_append: "words32 (bytes32 ws @ xs) = ws @ words32 xs"
  by (induction ws) simp_all

lemma length_words32: "length (words32 xs) = length xs div 4"
  by (induction xs rule: words32.induct) simp_all

lemma four_dvd: "4 dvd Suc (Suc (Suc (Suc n))) \<longleftrightarrow> 4 dvd n" "\<not> 4 dvd Suc (Suc 0)" "\<not> 4 dvd Suc (Suc (Suc 0))"
  by presburger+

lemma bytes32_words32: "4 dvd length xs \<Longrightarrow> bytes32 (words32 xs) = xs"
  by (induction xs rule: words32.induct) (simp_all add: put32_get32 four_dvd)

definition inode_shape :: "sfs_inode \<Rightarrow> bool" where
  "inode_shape i \<longleftrightarrow> length (sfi_direct i) = 15 \<and> length (sfi_waste i) = 110"

lemma halves16: "ucast (drop_bit 16 (push_bit 16 (ucast a)) OR drop_bit 16 (ucast b) :: u32) = (a :: u16)"
    "ucast (push_bit 16 (ucast a) OR ucast b :: u32) = (b :: u16)"
  by (rule bit_word_eqI; auto simp: bit_simps dest: bit_imp_le_length)+

lemma inode_of_bytes: "inode_shape i \<Longrightarrow> inode_of (inode_bytes i) = i"
  by (cases i) (simp add: inode_of_def inode_bytes_def inode_shape_def words32_append SFS_NDIRECT_def halves16 nth_append)

lemma length_inode_bytes: "inode_shape i \<Longrightarrow> length (inode_bytes i) = 512"
  by (simp add: inode_bytes_def inode_shape_def)

lemma inode_of_shape: "length xs = 512 \<Longrightarrow> inode_shape (inode_of xs)"
  by (simp add: inode_of_def inode_shape_def length_words32 SFS_NDIRECT_def Let_def)

lemma dir_of_bytes: "dir_of (dir_bytes sd) = sd"
  using words32_put32 [of "sfd_ino sd" "[]"] by (cases sd) (simp add: dir_of_def dir_bytes_def)

lemma super_of_bytes:
  "length (sp_volname s) = 32 \<Longrightarrow> super_of (super_bytes s) = s"
  by (cases s) (simp add: super_of_def super_bytes_def SFS_VOLNAME_SIZE_def words32_append)
section \<open>The free map\<close>

abbreviation nblocks :: "sfs_fs \<Rightarrow> u32" where
  "nblocks fs \<equiv> sp_nblocks (sfs_superblock fs)"

abbreviation sect :: "sfs_fs \<Rightarrow> u32 \<Rightarrow> u8 list" where
  "sect fs \<equiv> sectors (sfs_device fs)"

definition blocks_used :: "sfs_fs \<Rightarrow> u32 set" where
  "blocks_used fs = {b. unat b \<in> bitmap_used (sfs_freemap fs)}"

text \<open>The disk works, the free map covers the file system, and neither the superblock nor a block past the end
  of the file system is free.\<close>

definition fs_ok :: "sfs_fs \<Rightarrow> bool" where
  "fs_ok fs \<longleftrightarrow>
     disk_wf (sfs_device fs) \<and> outcomes (sfs_device fs) = [] \<and> nblocks fs \<le> d_blocks (sfs_device fs) \<and>
     bitmap_wf (sfs_freemap fs) \<and> unat (nblocks fs) \<le> nbits (sfs_freemap fs) \<and>
     (\<forall>i. unat (nblocks fs) \<le> i \<and> i < nbits (sfs_freemap fs) \<longrightarrow> i \<in> bitmap_used (sfs_freemap fs)) \<and>
     0 \<in> blocks_used fs"

lemma fs_okD:
  assumes "fs_ok fs"
  shows "0 \<in> blocks_used fs" "bitmap_wf (sfs_freemap fs)" "disk_wf (sfs_device fs)" "outcomes (sfs_device fs) = []"
    "unat (nblocks fs) \<le> i \<Longrightarrow> i < nbits (sfs_freemap fs) \<Longrightarrow> i \<in> bitmap_used (sfs_freemap fs)"
  using assms by (simp_all add: fs_ok_def)

text \<open>Everything but blocks, the free map and the disk buffer is the same.\<close>

definition same_rest :: "sfs_fs \<Rightarrow> sfs_fs \<Rightarrow> bool" where
  "same_rest fs fs' \<longleftrightarrow> sfs_superblock fs' = sfs_superblock fs \<and> sfs_superdirty fs' = sfs_superdirty fs \<and>
     sfs_vnodes fs' = sfs_vnodes fs \<and> vnode_store fs' = vnode_store fs \<and>
     d_blocks (sfs_device fs') = d_blocks (sfs_device fs)"

lemma same_rest_refl [simp]: "same_rest fs fs"
  by (simp add: same_rest_def)

lemma same_rest_trans: "same_rest fs fs' \<Longrightarrow> same_rest fs' fs'' \<Longrightarrow> same_rest fs fs''"
  by (simp add: same_rest_def)

lemma fs_ok_buf: "length buf = 512 \<Longrightarrow> fs_ok (fs\<lparr>sfs_device := (sfs_device fs)\<lparr>lh_buf := buf\<rparr>\<rparr>) = fs_ok fs"
  if "fs_ok fs" for fs
  using that by (auto simp: fs_ok_def disk_wf_def blocks_used_def)

lemma length_sect [simp]: "fs_ok fs \<Longrightarrow> length (sect fs b) = 512"
  by (simp add: fs_ok_def disk_wf_def)

text \<open>Reading and writing a block of the file system.\<close>

lemma read_sect:
  assumes "fs_ok fs" "b < nblocks fs"
  shows "sfs_rblock (sfs_device fs) b = Some (Inr (sect fs b), (sfs_device fs)\<lparr>lh_buf := sect fs b\<rparr>)"
  using assms by (intro sfs_rblock_ok) (auto simp: fs_ok_def)

lemma write_sect:
  assumes "fs_ok fs" "b < nblocks fs" "length data = 512"
  shows "sfs_wblock (sfs_device fs) data b = Some (Inr (), (sfs_device fs)\<lparr>lh_buf := data, sectors := (sect fs)(b := data)\<rparr>)"
  using assms by (intro sfs_wblock_ok) (auto simp: fs_ok_def)

lemma fs_ok_write:
  assumes "fs_ok fs" "length data = 512"
  shows "fs_ok (fs\<lparr>sfs_device := (sfs_device fs)\<lparr>lh_buf := data, sectors := (sect fs)(b := data)\<rparr>\<rparr>)"
  using assms by (auto simp: fs_ok_def disk_wf_def blocks_used_def)

lemma used_nat: "unat (of_nat n :: u32) = n" if "n < nbits (sfs_freemap fs)" "fs_ok fs"
proof -
  have "n < 2 ^ 32 - 8" using that by (simp add: fs_ok_def bitmap_wf_def)
  then show ?thesis by (simp add: unsigned_of_nat take_bit_nat_def)
qed

lemma unat_eq_iff_w: "unat a = unat b \<longleftrightarrow> a = (b :: u32)"
  by (simp add: word_unat_eq_iff)

lemma sfs_bused_ok: "fs_ok fs \<Longrightarrow> b < nblocks fs \<Longrightarrow> sfs_bused fs b = Some (b \<in> blocks_used fs)"
  using bitmap_isset_iff [of "sfs_freemap fs" "unat b"]
  by (auto simp: sfs_bused_def fs_ok_def blocks_used_def word_less_nat_alt word_le_nat_alt)

lemma sfs_bfree_ok:
  assumes "fs_ok fs" "b \<in> blocks_used fs" "b < nblocks fs" "b \<noteq> 0"
  shows "\<exists>fs'. sfs_bfree fs b = Some fs' \<and> fs_ok fs' \<and> same_rest fs fs' \<and> sfs_device fs' = sfs_device fs \<and>
    blocks_used fs' = blocks_used fs - {b}"
proof -
  have wf: "bitmap_wf (sfs_freemap fs)" "unat b \<in> bitmap_used (sfs_freemap fs)"
    using assms by (simp_all add: fs_ok_def blocks_used_def)
  obtain fm where fm: "bitmap_unmark (sfs_freemap fs) (unat b) = Some fm" "bitmap_wf fm" "nbits fm = nbits (sfs_freemap fs)"
      "bitmap_used fm = bitmap_used (sfs_freemap fs) - {unat b}"
    using bm.release_used [OF wf] by blast
  let ?fs = "fs\<lparr>sfs_freemap := fm, sfs_freemapdirty := True\<rparr>"
  have "blocks_used ?fs = blocks_used fs - {b}" by (simp add: set_eq_iff blocks_used_def fm(4) unat_eq_iff_w)
  moreover have "fs_ok ?fs"
    using assms fm calculation by (auto simp: fs_ok_def word_less_nat_alt)
  ultimately show ?thesis using fm(1) by (simp add: sfs_bfree_def same_rest_def)
qed

lemma sfs_balloc_ok:
  assumes "fs_ok fs"
  shows "sfs_balloc fs = Some (Inl ENOSPC, fs) \<and> {b. b < nblocks fs} \<subseteq> blocks_used fs \<or>
    (\<exists>b fs'. sfs_balloc fs = Some (Inr b, fs') \<and> b \<notin> blocks_used fs \<and> b < nblocks fs \<and> b \<noteq> 0 \<and> fs_ok fs' \<and> same_rest fs fs' \<and>
      blocks_used fs' = insert b (blocks_used fs) \<and> sect fs' = (sect fs)(b := replicate 512 0))"
proof -
  let ?fm = "sfs_freemap fs" and ?n = "LEAST i. i \<notin> bitmap_used (sfs_freemap fs)"
  have wf: "bitmap_wf ?fm" using assms by (simp add: fs_ok_def)
  from bitmap_alloc_cases [OF wf] show ?thesis
  proof
    assume full: "bitmap_used ?fm = {..<nbits ?fm} \<and> bitmap_alloc ?fm = Some (Inl ENOSPC, ?fm)"
    have "unat (nblocks fs) \<le> nbits ?fm" using assms by (simp add: fs_ok_def)
    then have "{b. b < nblocks fs} \<subseteq> blocks_used fs" using full by (simp add: subset_iff blocks_used_def word_less_nat_alt)
    then show ?thesis using full by (simp add: sfs_balloc_def)
  next
    assume room: "bitmap_used ?fm \<noteq> {..<nbits ?fm} \<and> (\<exists>b'. bitmap_alloc ?fm = Some (Inr ?n, b') \<and>
      bitmap_wf b' \<and> nbits b' = nbits ?fm \<and> bitmap_used b' = insert ?n (bitmap_used ?fm))"
    then obtain fm where fm: "bitmap_alloc ?fm = Some (Inr ?n, fm)" "bitmap_wf fm" "nbits fm = nbits ?fm"
        "bitmap_used fm = insert ?n (bitmap_used ?fm)" by blast
    have n: "?n \<notin> bitmap_used ?fm" "?n < nbits ?fm" using bm.least_free [OF wf] room by auto
    let ?b = "of_nat ?n :: u32"
    have un: "unat ?b = ?n" using used_nat [OF n(2) assms] .
    have b: "?b \<notin> blocks_used fs" using n(1) by (simp add: blocks_used_def un)
    have b0: "?b \<noteq> 0" using b fs_okD(1) [OF assms] by auto
    have bn: "?b < nblocks fs" using n fs_okD(5) [OF assms, of ?n] by (simp add: word_less_nat_alt un) (meson not_le)
    let ?fs = "fs\<lparr>sfs_freemap := fm, sfs_freemapdirty := True\<rparr>"
    have used: "blocks_used ?fs = insert ?b (blocks_used fs)" 
    proof -
      have "unat x = ?n \<longleftrightarrow> x = ?b" for x :: u32 using unat_eq_iff_w [of x ?b] un by simp
      then show ?thesis using fm(4) by (simp add: set_eq_iff blocks_used_def)
    qed
    have ok: "fs_ok ?fs" using assms fm used by (auto simp: fs_ok_def)
    have "sfs_clearblock ?fs ?b = Some (Inr (), ?fs\<lparr>sfs_device := (sfs_device fs)\<lparr>lh_buf := replicate 512 0, sectors := (sect fs)(?b := replicate 512 0)\<rparr>\<rparr>)"
      using write_sect [OF ok, of ?b "replicate 512 0"] bn by (simp add: sfs_clearblock_def SFS_BLOCKSIZE_def)
    then have "sfs_balloc fs = Some (Inr ?b, ?fs\<lparr>sfs_device := (sfs_device fs)\<lparr>lh_buf := replicate 512 0, sectors := (sect fs)(?b := replicate 512 0)\<rparr>\<rparr>)"
      using fm(1) bn by (simp add: sfs_balloc_def not_le Let_def)
    moreover have "fs_ok (?fs\<lparr>sfs_device := (sfs_device fs)\<lparr>lh_buf := replicate 512 0, sectors := (sect fs)(?b := replicate 512 0)\<rparr>\<rparr>)"
      using fs_ok_write [OF ok, of "replicate 512 0" ?b] by simp
    ultimately show ?thesis using b bn b0 used by (auto simp: same_rest_def blocks_used_def)
  qed
qed
section \<open>The blocks of a file\<close>

text \<open>The block map of a file: the disk blocks of its 15 + 128 file blocks, 0 where there is none.\<close>

definition idwords :: "sfs_fs \<Rightarrow> sfs_inode \<Rightarrow> u32 list" where
  "idwords fs i = (if sfi_indirect i = 0 then replicate 128 0 else words32 (sect fs (sfi_indirect i)))"

definition block_map :: "sfs_fs \<Rightarrow> sfs_inode \<Rightarrow> u32 list" where
  "block_map fs i = sfi_direct i @ idwords fs i"

definition owned :: "sfs_fs \<Rightarrow> sfs_inode \<Rightarrow> u32 set" where
  "owned fs i = insert (sfi_indirect i) (set (block_map fs i)) - {0}"

text \<open>The contents of a file block; a hole reads as zeros.\<close>

definition fblock :: "sfs_fs \<Rightarrow> sfs_inode \<Rightarrow> nat \<Rightarrow> u8 list" where
  "fblock fs i k = (if block_map fs i ! k = 0 then replicate 512 0 else sect fs (block_map fs i ! k))"

text \<open>The blocks of a well-formed file are in use, inside of the file system, and used only once.\<close>

definition inode_ok :: "sfs_fs \<Rightarrow> sfs_inode \<Rightarrow> bool" where
  "inode_ok fs i \<longleftrightarrow>
     inode_shape i \<and> owned fs i \<subseteq> blocks_used fs \<and> (\<forall>b \<in> owned fs i. b < nblocks fs) \<and>
     (\<forall>j < 143. \<forall>k < 143. block_map fs i ! j \<noteq> 0 \<and> block_map fs i ! j = block_map fs i ! k \<longrightarrow> j = k) \<and>
     (\<forall>j < 143. block_map fs i ! j \<noteq> 0 \<longrightarrow> block_map fs i ! j \<noteq> sfi_indirect i)"

text \<open>What an operation on one file may do to the file system: it may take free blocks into the file and
  change the blocks of the file, nothing else.\<close>

definition file_step :: "sfs_fs \<Rightarrow> sfs_inode \<Rightarrow> sfs_fs \<Rightarrow> sfs_inode \<Rightarrow> bool" where
  "file_step fs i fs' i' \<longleftrightarrow>
     fs_ok fs' \<and> inode_ok fs' i' \<and> same_rest fs fs' \<and>
     sfi_type i' = sfi_type i \<and> sfi_linkcount i' = sfi_linkcount i \<and> sfi_waste i' = sfi_waste i \<and>
     blocks_used fs' = blocks_used fs \<union> owned fs' i' \<and> owned fs i \<subseteq> owned fs' i' \<and>
     owned fs' i' \<inter> blocks_used fs \<subseteq> owned fs i \<and>
     (\<forall>b \<in> blocks_used fs - owned fs i. sect fs' b = sect fs b)"

lemma file_step_refl: "fs_ok fs \<Longrightarrow> inode_ok fs i \<Longrightarrow> file_step fs i fs i"
  by (auto simp: file_step_def inode_ok_def)

lemma file_step_trans: "file_step fs i fs' i' \<Longrightarrow> file_step fs' i' fs'' i'' \<Longrightarrow> file_step fs i fs'' i''"
proof -
  assume a: "file_step fs i fs' i'" and b: "file_step fs' i' fs'' i''"
  note A = a [unfolded file_step_def] and B = b [unfolded file_step_def]
  have "blocks_used fs'' = blocks_used fs \<union> owned fs'' i''" using A B by (elim conjE) auto
  moreover have "owned fs i \<subseteq> owned fs'' i''" using A B by (elim conjE) (rule subset_trans)
  moreover have "owned fs'' i'' \<inter> blocks_used fs \<subseteq> owned fs i" using A B by (elim conjE) blast
  moreover have "sect fs'' c = sect fs c" if "c \<in> blocks_used fs - owned fs i" for c
  proof -
    have "c \<in> blocks_used fs' - owned fs' i'" using A that by (elim conjE) blast
    then have "sect fs'' c = sect fs' c" using B by (elim conjE) blast
    also have "\<dots> = sect fs c" using A that by (elim conjE) blast
    finally show ?thesis .
  qed
  moreover have "same_rest fs fs''" using A B same_rest_trans by (elim conjE) blast
  ultimately show ?thesis using A B unfolding file_step_def by (elim conjE) (intro conjI ballI; simp)
qed

lemma file_stepD: "file_step fs i fs' i' \<Longrightarrow> fs_ok fs'" "file_step fs i fs' i' \<Longrightarrow> inode_ok fs' i'"
  by (simp_all add: file_step_def)

lemma put32_0: "put32 0 = replicate 4 0"
  by (simp add: put32_def numeral_eq_Suc)

lemma bytes32_zeros: "bytes32 (replicate n 0) = replicate (n * 4) 0"
  by (induction n) (simp_all add: put32_0 replicate_add)

lemma words32_zeros: "words32 (replicate 512 0) = replicate 128 0"
  using words32_bytes32 [of "replicate 128 0"] by (simp add: bytes32_zeros)

lemma length_idwords [simp]: "fs_ok fs \<Longrightarrow> length (idwords fs i) = 128"
  by (simp add: idwords_def length_words32)

lemma length_block_map: "fs_ok fs \<Longrightarrow> inode_shape i \<Longrightarrow> length (block_map fs i) = 143"
  by (simp add: block_map_def inode_shape_def)

lemma block_map_owned: "fs_ok fs \<Longrightarrow> inode_shape i \<Longrightarrow> k < 143 \<Longrightarrow> block_map fs i ! k \<noteq> 0 \<Longrightarrow> block_map fs i ! k \<in> owned fs i"
  by (simp add: owned_def length_block_map)

lemma owned_iff:
  "fs_ok fs \<Longrightarrow> inode_shape i \<Longrightarrow> b \<in> owned fs i \<longleftrightarrow> b \<noteq> 0 \<and> (b = sfi_indirect i \<or> (\<exists>k < 143. block_map fs i ! k = b))"
  using length_block_map [of fs i] by (auto simp: owned_def in_set_conv_nth)

lemma inode_okD:
  assumes "fs_ok fs" "inode_ok fs i" "k < 143" "block_map fs i ! k \<noteq> 0"
  shows "block_map fs i ! k \<in> blocks_used fs" "block_map fs i ! k < nblocks fs" "block_map fs i ! k \<noteq> sfi_indirect i"
    "j < 143 \<Longrightarrow> block_map fs i ! j = block_map fs i ! k \<Longrightarrow> j = k"
  using assms block_map_owned [of fs i k] unfolding inode_ok_def by (blast, blast, blast, metis)

lemma indirect_ok:
  "inode_ok fs i \<Longrightarrow> sfi_indirect i \<noteq> 0 \<Longrightarrow> sfi_indirect i \<in> blocks_used fs \<and> sfi_indirect i < nblocks fs"
  by (auto simp: inode_ok_def owned_def)

text \<open>The block map depends on the disk through the indirect block only.\<close>

lemma block_map_cong:
  "sfi_direct i' = sfi_direct i \<Longrightarrow> sfi_indirect i' = sfi_indirect i \<Longrightarrow>
    sfi_indirect i \<noteq> 0 \<longrightarrow> sect fs' (sfi_indirect i) = sect fs (sfi_indirect i) \<Longrightarrow> block_map fs' i' = block_map fs i"
  by (simp add: block_map_def idwords_def)

lemma block_map_frame:
  assumes "inode_ok fs i" "\<forall>b \<in> blocks_used fs. sect fs' b = sect fs b"
  shows "block_map fs' i = block_map fs i"
  using assms indirect_ok [OF assms(1)] by (intro block_map_cong) auto

text \<open>Overwriting one block of a file.\<close>

lemma write_block:
  assumes "fs_ok fs" "inode_ok fs i" "k < 143" "block_map fs i ! k \<noteq> 0" "length data = 512"
  defines "fs' \<equiv> fs\<lparr>sfs_device := (sfs_device fs)\<lparr>lh_buf := data, sectors := (sect fs)(block_map fs i ! k := data)\<rparr>\<rparr>"
  shows "file_step fs i fs' i" "block_map fs' i = block_map fs i"
    "j < 143 \<Longrightarrow> fblock fs' i j = (if j = k then data else fblock fs i j)"
proof -
  note ok = inode_okD [OF assms(1-4)]
  show bm: "block_map fs' i = block_map fs i"
    using ok(3) by (intro block_map_cong) (auto simp: fs'_def)
  have own: "owned fs' i = owned fs i" by (simp add: owned_def bm)
  have used: "blocks_used fs' = blocks_used fs" by (simp add: blocks_used_def fs'_def)
  have mem: "block_map fs i ! k \<in> owned fs i" using assms(1-4) by (intro block_map_owned) (simp_all add: inode_ok_def)
  have sub: "owned fs i \<subseteq> blocks_used fs" using assms(2) by (simp add: inode_ok_def)
  show "file_step fs i fs' i"
    unfolding file_step_def own used
    using assms(2) fs_ok_write [OF assms(1,5)] mem sub
    by (auto simp: fs'_def inode_ok_def same_rest_def own [unfolded fs'_def] bm [unfolded fs'_def] used [unfolded fs'_def])
  show "fblock fs' i j = (if j = k then data else fblock fs i j)" if "j < 143"
    using ok(4) [OF that] assms(4) unfolding fblock_def bm by (auto simp: fs'_def)
qed

text \<open>Taking a fresh block, filled with zeros, into a hole of a file.\<close>

lemma fresh_block:
  assumes "fs_ok fs" "inode_ok fs i" "k < 143" "block_map fs i ! k = 0"
    and "fs_ok fs'" "same_rest fs fs'" "b \<notin> blocks_used fs" "b < nblocks fs" "b \<noteq> 0"
    and "blocks_used fs' = insert b (blocks_used fs)" "sect fs' b = replicate 512 0"
    and "\<forall>c \<in> blocks_used fs. c \<noteq> sfi_indirect i \<or> c = 0 \<longrightarrow> sect fs' c = sect fs c"
    and "inode_shape i'" "sfi_indirect i' = sfi_indirect i" "block_map fs' i' = (block_map fs i)[k := b]"
    and "sfi_type i' = sfi_type i" "sfi_linkcount i' = sfi_linkcount i" "sfi_waste i' = sfi_waste i"
  shows "file_step fs i fs' i'" "\<forall>j < 143. fblock fs' i' j = fblock fs i j"
proof -
  have shape: "inode_shape i" and sub: "owned fs i \<subseteq> blocks_used fs" using assms(2) by (simp_all add: inode_ok_def)
  have len: "length (block_map fs i) = 143" using length_block_map [OF assms(1) shape] .
  have nth: "block_map fs' i' ! j = (if j = k then b else block_map fs i ! j)" if "j < 143" for j
    using that len assms(3,15) by simp
  have own: "owned fs' i' = insert b (owned fs i)"
  proof -
    have "c \<in> owned fs' i' \<longleftrightarrow> c = b \<or> c \<in> owned fs i" for c
      unfolding owned_iff [OF assms(5,13)] owned_iff [OF assms(1) shape] assms(14) using nth assms(3,4,9) by metis
    then show ?thesis by blast
  qed
  have nb: "b \<noteq> block_map fs i ! j" if "j < 143" for j
    using inode_okD(1) [OF assms(1,2) that] assms(7,9) by auto
  have ni: "b \<noteq> sfi_indirect i" using indirect_ok [OF assms(2)] assms(7,9) by auto
  have "inode_ok fs' i'"
    unfolding inode_ok_def own assms(10,14)
  proof (intro conjI ballI allI impI)
    show "inode_shape i'" "insert b (owned fs i) \<subseteq> insert b (blocks_used fs)" using assms(13) sub by auto
    show "c < nblocks fs'" if "c \<in> insert b (owned fs i)" for c
      using that assms(2,6,8) by (auto simp: inode_ok_def same_rest_def)
    show "j = l" if "j < 143" "l < 143" "block_map fs' i' ! j \<noteq> 0 \<and> block_map fs' i' ! j = block_map fs' i' ! l" for j l
      using that nb [OF that(1)] nb [OF that(2)] inode_okD(4) [OF assms(1,2) that(2) _ that(1)]
      unfolding nth [OF that(1)] nth [OF that(2)] by (auto split: if_splits)
    show "block_map fs' i' ! j \<noteq> sfi_indirect i" if "j < 143" "block_map fs' i' ! j \<noteq> 0" for j
      using that inode_okD(3) [OF assms(1,2) that(1)] ni unfolding nth [OF that(1)] by (auto split: if_splits)
  qed
  moreover have "sect fs' c = sect fs c" if "c \<in> blocks_used fs - owned fs i" for c
    using that assms(12) by (auto simp: owned_def)
  ultimately show "file_step fs i fs' i'"
    using assms sub unfolding file_step_def own by auto
  show "\<forall>j < 143. fblock fs' i' j = fblock fs i j"
  proof (intro allI impI)
    fix j :: nat
    assume j: "j < 143"
    show "fblock fs' i' j = fblock fs i j"
      using assms(4,9,11,12) inode_okD(1,3) [OF assms(1,2) j] unfolding fblock_def nth [OF j] by auto
  qed
qed
text \<open>A file system that differs in the buffer of the disk only.\<close>

definition same_blocks :: "sfs_fs \<Rightarrow> sfs_fs \<Rightarrow> bool" where
  "same_blocks fs fs' \<longleftrightarrow> (\<exists>buf. length buf = 512 \<and> fs' = fs\<lparr>sfs_device := (sfs_device fs)\<lparr>lh_buf := buf\<rparr>\<rparr>)"

lemma same_blocks_refl: "fs_ok fs \<Longrightarrow> same_blocks fs fs"
  unfolding same_blocks_def by (intro exI [of _ "lh_buf (sfs_device fs)"]) (simp add: fs_ok_def disk_wf_def)

lemma same_blocks_trans: "same_blocks fs fs' \<Longrightarrow> same_blocks fs' fs'' \<Longrightarrow> same_blocks fs fs''"
  unfolding same_blocks_def by auto

lemma same_blocksD:
  assumes "same_blocks fs fs'"
  shows "sect fs' = sect fs" "blocks_used fs' = blocks_used fs" "same_rest fs fs'" "block_map fs' i = block_map fs i"
    "owned fs' i = owned fs i" "fblock fs' i = fblock fs i" "fs_ok fs \<Longrightarrow> fs_ok fs'" "inode_ok fs i \<Longrightarrow> inode_ok fs' i"
proof -
  obtain buf where b: "length buf = 512" "fs' = fs\<lparr>sfs_device := (sfs_device fs)\<lparr>lh_buf := buf\<rparr>\<rparr>" using assms by (auto simp: same_blocks_def)
  show s: "sect fs' = sect fs" and u: "blocks_used fs' = blocks_used fs" and r: "same_rest fs fs'"
    by (simp_all add: b(2) blocks_used_def same_rest_def)
  show bm: "block_map fs' i = block_map fs i" for i by (simp add: block_map_def idwords_def s)
  show o: "owned fs' i = owned fs i" for i by (simp add: owned_def bm)
  show "fblock fs' i = fblock fs i" by (simp add: fblock_def bm s fun_eq_iff)
  show "fs_ok fs \<Longrightarrow> fs_ok fs'" using fs_ok_buf [of fs buf] b by simp
  have n: "nblocks fs' = nblocks fs" using r by (simp add: same_rest_def)
  show "inode_ok fs i \<Longrightarrow> inode_ok fs' i" unfolding inode_ok_def o u bm n .
qed

lemma same_blocks_step: "fs_ok fs \<Longrightarrow> inode_ok fs i \<Longrightarrow> same_blocks fs fs' \<Longrightarrow> file_step fs i fs' i"
  using same_blocksD [of fs fs'] by (auto simp: file_step_def inode_ok_def [of fs])

definition disk_full :: "sfs_fs \<Rightarrow> bool" where
  "disk_full fs \<longleftrightarrow> (\<forall>b < nblocks fs. b \<in> blocks_used fs)"

text \<open>The vnode is the same but for the inode, and a changed inode is marked dirty.\<close>

definition same_vnode :: "sfs_vnode \<Rightarrow> sfs_vnode \<Rightarrow> bool" where
  "same_vnode sv sv' \<longleftrightarrow> vn_refcount sv' = vn_refcount sv \<and> vn_opencount sv' = vn_opencount sv \<and> vn_ops sv' = vn_ops sv \<and>
     sv_ino sv' = sv_ino sv \<and> (sv_dirty sv \<longrightarrow> sv_dirty sv') \<and> (sv_i sv' = sv_i sv \<or> sv_dirty sv')"

lemma same_vnode_refl [simp]: "same_vnode sv sv"
  by (simp add: same_vnode_def)

lemma same_vnode_trans: "same_vnode sv sv' \<Longrightarrow> same_vnode sv' sv'' \<Longrightarrow> same_vnode sv sv''"
  unfolding same_vnode_def by auto

lemma read_same_blocks:
  assumes "fs_ok fs" "b < nblocks fs"
  obtains d where "sfs_rblock (sfs_device fs) b = Some (Inr (sect fs b), d)" "same_blocks fs (fs\<lparr>sfs_device := d\<rparr>)"
  using read_sect [OF assms] length_sect [OF assms(1), of b] by (auto simp: same_blocks_def)

lemma bmap_check_ok:
  assumes "fs_ok fs" "b \<noteq> 0 \<Longrightarrow> b \<in> blocks_used fs \<and> b < nblocks fs"
  shows "bmap_check fs sv b = Some (Inr b, fs, sv)"
  using assms sfs_bused_ok [OF assms(1), of b] by (auto simp: bmap_check_def)

lemma bmap_lookup:
  assumes "fs_ok fs" "inode_ok fs (sv_i sv)" "k < 143"
  shows "\<exists>fs'. sfs_bmap fs sv (of_nat k) False = Some (Inr (block_map fs (sv_i sv) ! k), fs', sv) \<and> same_blocks fs fs'"
proof -
  have shape: "inode_shape (sv_i sv)" using assms(2) by (simp add: inode_ok_def)
  have k: "unat (of_nat k :: u32) = k" using assms(3) by (simp add: unsigned_of_nat take_bit_nat_def)
  let ?b = "block_map fs (sv_i sv) ! k"
  have b: "?b \<noteq> 0 \<Longrightarrow> ?b \<in> blocks_used fs \<and> ?b < nblocks fs" using inode_okD [OF assms] by blast
  show ?thesis
  proof (cases "k < 15")
    case True
    then have "?b = sfi_direct (sv_i sv) ! k" "k < length (sfi_direct (sv_i sv))"
      using shape by (simp_all add: block_map_def inode_shape_def nth_append)
    then show ?thesis using True k bmap_check_ok [OF assms(1) b] same_blocks_refl [OF assms(1)]
      by (simp add: sfs_bmap_def bmap_direct_def SFS_NDIRECT_def)
  next
    case False
    then have w: "?b = idwords fs (sv_i sv) ! (k - 15)" using shape by (simp add: block_map_def inode_shape_def nth_append)
    have off: "(k - 15) mod 128 = k - 15" "(k - 15) div 128 = 0" using False assms(3) by simp_all
    have un: "sfs_bmap fs sv (of_nat k) False = bmap_indirect fs sv (k - 15) False"
      using False k off by (simp add: sfs_bmap_def SFS_NDIRECT_def SFS_DBPERIDB_def Let_def)
    show ?thesis
    proof (cases "sfi_indirect (sv_i sv) = 0")
      case True
      then have "?b = 0" using w False assms(3) by (simp add: idwords_def)
      then show ?thesis unfolding un using True same_blocks_refl [OF assms(1)] by (simp add: bmap_indirect_def)
    next
      case ind: False
      obtain d where d: "sfs_rblock (sfs_device fs) (sfi_indirect (sv_i sv)) = Some (Inr (sect fs (sfi_indirect (sv_i sv))), d)"
          "same_blocks fs (fs\<lparr>sfs_device := d\<rparr>)"
        using read_same_blocks [OF assms(1), of "sfi_indirect (sv_i sv)"] indirect_ok [OF assms(2) ind] by blast
      have "idx (words32 (sect fs (sfi_indirect (sv_i sv)))) (k - 15) = Some ?b"
        using w ind False assms(3) length_idwords [OF assms(1), of "sv_i sv"] by (simp add: idwords_def)
      moreover have "bmap_check (fs\<lparr>sfs_device := d\<rparr>) sv ?b = Some (Inr ?b, fs\<lparr>sfs_device := d\<rparr>, sv)"
        using b same_blocksD [OF d(2)] assms(1) by (intro bmap_check_ok) (simp_all add: same_rest_def)
      ultimately show ?thesis
        unfolding un using ind d by (simp add: bmap_indirect_def bmap_idbuf_def Let_def)
    qed
  qed
qed

lemma bmap_too_big:
  "143 \<le> unat k \<Longrightarrow> sfs_bmap fs sv k doalloc = Some (Inl EFBIG, fs, sv)"
proof -
  assume k: "143 \<le> unat k"
  then have "128 \<le> unat k - 15" by linarith
  then show ?thesis using k by (simp add: sfs_bmap_def SFS_NDIRECT_def SFS_DBPERIDB_def Let_def div_greater_zero_iff)
qed
text \<open>The file may have more blocks, but its contents are the same.\<close>

definition grew :: "sfs_fs \<Rightarrow> sfs_vnode \<Rightarrow> sfs_fs \<Rightarrow> sfs_vnode \<Rightarrow> bool" where
  "grew fs sv fs' sv' \<longleftrightarrow> file_step fs (sv_i sv) fs' (sv_i sv') \<and> same_vnode sv sv' \<and>
     sfi_size (sv_i sv') = sfi_size (sv_i sv) \<and> (\<forall>j < 143. fblock fs' (sv_i sv') j = fblock fs (sv_i sv) j)"

lemma grew_trans: "grew fs sv fs' sv' \<Longrightarrow> grew fs' sv' fs'' sv'' \<Longrightarrow> grew fs sv fs'' sv''"
  unfolding grew_def by (metis file_step_trans same_vnode_trans)

lemma grew_same: "fs_ok fs \<Longrightarrow> inode_ok fs (sv_i sv) \<Longrightarrow> same_blocks fs fs' \<Longrightarrow> grew fs sv fs' sv"
  using same_blocks_step same_blocksD(6) by (simp add: grew_def)

lemma grewD: "grew fs sv fs' sv' \<Longrightarrow> fs_ok fs'" "grew fs sv fs' sv' \<Longrightarrow> inode_ok fs' (sv_i sv')"
  by (simp_all add: grew_def file_step_def)

text \<open>What \<open>sfs_bmap\<close> promises when it may allocate.\<close>

definition bmap_post :: "sfs_fs \<Rightarrow> sfs_vnode \<Rightarrow> nat \<Rightarrow> ((errno + u32) \<times> sfs_fs \<times> sfs_vnode) option \<Rightarrow> bool" where
  "bmap_post fs sv k res \<longleftrightarrow> (\<exists>r fs' sv'. res = Some (r, fs', sv') \<and> grew fs sv fs' sv' \<and>
     (case r of
        Inl e \<Rightarrow> e = ENOSPC \<and> disk_full fs'
      | Inr b \<Rightarrow> b \<noteq> 0 \<and> block_map fs' (sv_i sv') ! k = b))"

lemma bmap_postI_full:
  assumes "fs_ok fs" "inode_ok fs (sv_i sv)" "{b. b < nblocks fs} \<subseteq> blocks_used fs"
  shows "bmap_post fs sv k (Some (Inl ENOSPC, fs, sv))"
  using assms grew_same [OF assms(1,2) same_blocks_refl [OF assms(1)]] by (auto simp: bmap_post_def disk_full_def)

lemma bmap_postI_found:
  assumes "grew fs sv fs' sv'" "k < 143" "block_map fs' (sv_i sv') ! k = b" "b \<noteq> 0"
  shows "bmap_post fs sv k (bmap_check fs' sv' b)"
proof -
  note ok = grewD [OF assms(1)]
  have "b \<in> blocks_used fs' \<and> b < nblocks fs'" using inode_okD [OF ok assms(2)] assms(3,4) by blast
  then have "bmap_check fs' sv' b = Some (Inr b, fs', sv')" by (intro bmap_check_ok [OF ok(1)])
  then show ?thesis using assms by (simp add: bmap_post_def)
qed

lemma bmap_post_trans:
  "grew fs sv fs' sv' \<Longrightarrow> bmap_post fs' sv' k res \<Longrightarrow> bmap_post fs sv k res"
  unfolding bmap_post_def using grew_trans by blast

lemma bmap_direct_post:
  assumes "fs_ok fs" "inode_ok fs (sv_i sv)" "k < 15"
  shows "bmap_post fs sv k (bmap_direct fs sv k True)"
proof -
  let ?i = "sv_i sv"
  have shape: "inode_shape ?i" using assms(2) by (simp add: inode_ok_def)
  then have len: "length (sfi_direct ?i) = 15" by (simp add: inode_shape_def)
  have bk: "block_map fs ?i ! k = sfi_direct ?i ! k" using assms(3) len by (simp add: block_map_def nth_append)
  show ?thesis
  proof (cases "sfi_direct ?i ! k = 0")
    case False
    then show ?thesis
      using bmap_postI_found [OF grew_same [OF assms(1,2) same_blocks_refl [OF assms(1)]], of k] bk assms(3) len by (simp add: bmap_direct_def)
  next
    case hole: True
    from sfs_balloc_ok [OF assms(1)] show ?thesis
    proof (elim disjE exE conjE)
      assume "sfs_balloc fs = Some (Inl ENOSPC, fs)" "{b. b < nblocks fs} \<subseteq> blocks_used fs"
      then show ?thesis using bmap_postI_full [OF assms(1,2)] hole len assms(3) by (simp add: bmap_direct_def)
    next
      fix b fs'
      assume al: "sfs_balloc fs = Some (Inr b, fs')" and b: "b \<notin> blocks_used fs" "b < nblocks fs" "b \<noteq> 0"
        and ok: "fs_ok fs'" "same_rest fs fs'" and u: "blocks_used fs' = insert b (blocks_used fs)"
        and s: "sect fs' = (sect fs)(b := replicate 512 0)"
      let ?i' = "?i\<lparr>sfi_direct := (sfi_direct ?i)[k := b]\<rparr>" and ?sv = "sv\<lparr>sv_i := ?i\<lparr>sfi_direct := (sfi_direct ?i)[k := b]\<rparr>, sv_dirty := True\<rparr>"
      have kept: "\<forall>c \<in> blocks_used fs. sect fs' c = sect fs c" using s b(1) by auto
      have "idwords fs' ?i' = idwords fs ?i" using kept indirect_ok [OF assms(2)] by (auto simp: idwords_def)
      then have bm: "block_map fs' ?i' = (block_map fs ?i)[k := b]" using len assms(3) by (simp add: block_map_def list_update_append)
      have F: "file_step fs ?i fs' ?i'" "\<forall>j < 143. fblock fs' ?i' j = fblock fs ?i j"
        using fresh_block [OF assms(1,2) _ _ ok b u _ _ _ _ bm] hole bk assms(3) shape s kept by (simp_all add: inode_shape_def)
      then have "grew fs sv fs' ?sv" by (simp add: grew_def same_vnode_def)
      moreover have "block_map fs' (sv_i ?sv) ! k = b" using bm length_block_map [OF assms(1) shape] assms(3) by simp
      ultimately have "bmap_post fs sv k (bmap_check fs' ?sv b)" using assms(3) b(3) by (intro bmap_postI_found) simp_all
      then show ?thesis using al hole len assms(3) by (simp add: bmap_direct_def)
    qed
  qed
qed

lemma bmap_idbuf_ok:
  assumes "fs_ok fs" "inode_ok fs (sv_i sv)"
  shows "bmap_idbuf fs sv = Some (Inl ENOSPC, fs, sv) \<and> {b. b < nblocks fs} \<subseteq> blocks_used fs \<or>
    (\<exists>fs' sv'. bmap_idbuf fs sv = Some (Inr (sfi_indirect (sv_i sv'), idwords fs' (sv_i sv')), fs', sv') \<and>
      sfi_indirect (sv_i sv') \<noteq> 0 \<and> grew fs sv fs' sv')"
proof (cases "sfi_indirect (sv_i sv) = 0")
  case False
  obtain d where d: "sfs_rblock (sfs_device fs) (sfi_indirect (sv_i sv)) = Some (Inr (sect fs (sfi_indirect (sv_i sv))), d)"
      "same_blocks fs (fs\<lparr>sfs_device := d\<rparr>)"
    using read_same_blocks [OF assms(1), of "sfi_indirect (sv_i sv)"] indirect_ok [OF assms(2) False] by blast
  have "idwords (fs\<lparr>sfs_device := d\<rparr>) (sv_i sv) = words32 (sect fs (sfi_indirect (sv_i sv)))"
    using same_blocksD(1) [OF d(2)] False by (simp add: idwords_def)
  then show ?thesis using d False grew_same [OF assms d(2)] by (intro disjI2 exI [of _ "fs\<lparr>sfs_device := d\<rparr>"] exI [of _ sv]) (simp add: bmap_idbuf_def Let_def)
next
  case zero: True
  let ?i = "sv_i sv"
  have shape: "inode_shape ?i" using assms(2) by (simp add: inode_ok_def)
  from sfs_balloc_ok [OF assms(1)] show ?thesis
  proof (elim disjE exE conjE)
    assume "sfs_balloc fs = Some (Inl ENOSPC, fs)" "{b. b < nblocks fs} \<subseteq> blocks_used fs"
    then show ?thesis using zero by (simp add: bmap_idbuf_def Let_def)
  next
    fix b fs'
    assume al: "sfs_balloc fs = Some (Inr b, fs')" and b: "b \<notin> blocks_used fs" "b < nblocks fs" "b \<noteq> 0"
      and ok: "fs_ok fs'" "same_rest fs fs'" and u: "blocks_used fs' = insert b (blocks_used fs)"
      and s: "sect fs' = (sect fs)(b := replicate 512 0)"
    let ?i' = "?i\<lparr>sfi_indirect := b\<rparr>" and ?sv = "sv\<lparr>sv_i := ?i\<lparr>sfi_indirect := b\<rparr>, sv_dirty := True\<rparr>"
    have iw: "idwords fs' ?i' = replicate 128 0" using b(3) s by (simp add: idwords_def words32_zeros)
    then have bm: "block_map fs' ?i' = block_map fs ?i" using zero by (simp add: block_map_def idwords_def)
    have own: "owned fs' ?i' = insert b (owned fs ?i)" using zero b(3) by (auto simp: owned_def bm)
    have sub: "owned fs ?i \<subseteq> blocks_used fs" using assms(2) by (simp add: inode_ok_def)
    have nth: "block_map fs ?i ! j \<noteq> b" if "j < 143" for j
      using inode_okD(1) [OF assms that] b(1,3) by auto
    have nb: "nblocks fs' = nblocks fs" using ok(2) by (simp add: same_rest_def)
    have "inode_ok fs' ?i'"
      using assms(2) nth sub b(2) unfolding inode_ok_def own u bm nb by (auto simp: inode_shape_def)
    moreover have "fblock fs' ?i' j = fblock fs ?i j" if "j < 143" for j
      using nth [OF that] s by (simp add: fblock_def bm)
    ultimately have "grew fs sv fs' ?sv"
      using ok u own s b(1) sub by (auto simp: grew_def file_step_def same_vnode_def)
    then show ?thesis using al zero b(3) iw
      by (intro disjI2 exI [of _ fs'] exI [of _ ?sv]) (simp add: bmap_idbuf_def Let_def SFS_DBPERIDB_def)
  qed
qed
lemma bmap_indirect_post:
  assumes "fs_ok fs" "inode_ok fs (sv_i sv)" "idoff < 128"
  shows "bmap_post fs sv (15 + idoff) (bmap_indirect fs sv idoff True)"
  using bmap_idbuf_ok [OF assms(1,2)]
proof (elim disjE exE conjE)
  assume "bmap_idbuf fs sv = Some (Inl ENOSPC, fs, sv)" "{b. b < nblocks fs} \<subseteq> blocks_used fs"
  then show ?thesis using bmap_postI_full [OF assms(1,2)] by (simp add: bmap_indirect_def)
next
  fix fs1 and sv1 :: sfs_vnode
  let ?i = "sv_i sv1" and ?k = "15 + idoff"
  let ?c = "sfi_indirect ?i" and ?ws = "idwords fs1 ?i"
  assume idb: "bmap_idbuf fs sv = Some (Inr (?c, ?ws), fs1, sv1)" and c0: "?c \<noteq> 0" and g: "grew fs sv fs1 sv1"
  note ok = grewD [OF g]
  have shape: "inode_shape ?i" using ok(2) by (simp add: inode_ok_def)
  have k: "?k < 143" using assms(3) by simp
  have ws: "idx ?ws idoff = Some (block_map fs1 ?i ! ?k)"
    using assms(3) shape length_idwords [OF ok(1), of ?i] by (simp add: block_map_def inode_shape_def nth_append)
  have "bmap_post fs1 sv1 ?k (bmap_indirect fs sv idoff True)"
  proof (cases "block_map fs1 ?i ! ?k = 0")
    case False
    then show ?thesis
      using bmap_postI_found [OF grew_same [OF ok same_blocks_refl [OF ok(1)]] k refl] idb ws by (simp add: bmap_indirect_def)
  next
    case hole: True
    from sfs_balloc_ok [OF ok(1)] show ?thesis
    proof (elim disjE exE conjE)
      assume "sfs_balloc fs1 = Some (Inl ENOSPC, fs1)" "{b. b < nblocks fs1} \<subseteq> blocks_used fs1"
      then show ?thesis using bmap_postI_full [OF ok] hole idb ws by (simp add: bmap_indirect_def)
    next
      fix b fs2
      assume al: "sfs_balloc fs1 = Some (Inr b, fs2)" and b: "b \<notin> blocks_used fs1" "b < nblocks fs1" "b \<noteq> 0"
        and ok2: "fs_ok fs2" "same_rest fs1 fs2" and u: "blocks_used fs2 = insert b (blocks_used fs1)"
        and s: "sect fs2 = (sect fs1)(b := replicate 512 0)"
      let ?data = "bytes32 (?ws[idoff := b])"
      let ?fs = "fs2\<lparr>sfs_device := (sfs_device fs2)\<lparr>lh_buf := ?data, sectors := (sect fs2)(?c := ?data)\<rparr>\<rparr>"
      have c: "?c \<in> blocks_used fs1" "?c < nblocks fs2"
        using indirect_ok [OF ok(2) c0] ok2(2) by (simp_all add: same_rest_def)
      have len: "length ?data = 512" using length_idwords [OF ok(1), of ?i] by simp
      have w: "sfs_wblock (sfs_device fs2) ?data ?c = Some (Inr (), sfs_device ?fs)"
        using write_sect [OF ok2(1) c(2) len] by simp
      have okf: "fs_ok ?fs" using fs_ok_write [OF ok2(1) len] .
      have rest: "same_rest fs1 ?fs" using ok2(2) by (simp add: same_rest_def)
      have uf: "blocks_used ?fs = insert b (blocks_used fs1)" using u by (simp add: blocks_used_def)
      have bm: "block_map ?fs ?i = (block_map fs1 ?i)[?k := b]"
        using c0 shape by (simp add: block_map_def [of ?fs] idwords_def [of ?fs] block_map_def [of fs1] list_update_append inode_shape_def)
      have "b \<noteq> ?c" using b(1) c(1) by auto
      then have sf: "sect ?fs b = replicate 512 0" "\<forall>a \<in> blocks_used fs1. a \<noteq> ?c \<or> a = 0 \<longrightarrow> sect ?fs a = sect fs1 a"
        using s b(1) c0 by auto
      note F = fresh_block [OF ok k hole okf rest b uf sf shape refl bm refl refl refl]
      have "grew fs1 sv1 ?fs sv1" using F by (simp add: grew_def)
      moreover have "block_map ?fs ?i ! ?k = b" using bm length_block_map [OF ok(1) shape] k by simp
      ultimately have "bmap_post fs1 sv1 ?k (bmap_check ?fs sv1 b)" using k b(3) by (intro bmap_postI_found) simp_all
      then show ?thesis using al hole idb ws w by (simp add: bmap_indirect_def)
    qed
  qed
  then show ?thesis using bmap_post_trans [OF g] by simp
qed

lemma bmap_alloc:
  assumes "fs_ok fs" "inode_ok fs (sv_i sv)" "k < 143"
  shows "bmap_post fs sv k (sfs_bmap fs sv (of_nat k) True)"
proof -
  have k: "unat (of_nat k :: u32) = k" using assms(3) by (simp add: unsigned_of_nat take_bit_nat_def)
  show ?thesis
  proof (cases "k < 15")
    case True
    then show ?thesis using k bmap_direct_post [OF assms(1,2)] by (simp add: sfs_bmap_def SFS_NDIRECT_def)
  next
    case False
    then have "k - 15 < 128" "(k - 15) div 128 = 0" "(k - 15) mod 128 = k - 15" "15 + (k - 15) = k" using assms(3) by simp_all
    then show ?thesis using k False bmap_indirect_post [OF assms(1,2), of "k - 15"]
      by (simp add: sfs_bmap_def SFS_NDIRECT_def SFS_DBPERIDB_def Let_def)
  qed
qed

end
