(* ===== verification/SfsIo.thy ===== *)
theory SfsIo
  imports SfsFile
begin

text \<open>
  Reading and writing SFS files is reading and writing an array of bytes: \<open>sfs_io\<close>
  (\<^verbatim>\<open>kern/fs/sfs/sfs_vnode.c\<close>), which moves partial and whole blocks through the block map, against the
  contents of a file as a function from offsets to bytes.
\<close>

section \<open>Bytes of a file\<close>

definition fbyte :: "sfs_fs \<Rightarrow> sfs_inode \<Rightarrow> nat \<Rightarrow> u8" where
  "fbyte fs i p = fblock fs i (p div 512) ! (p mod 512)"

text \<open>The largest file: 15 direct and 128 indirect blocks.\<close>

definition max_file :: nat where
  "max_file = 143 * 512"

lemma length_fblock [simp]: "fs_ok fs \<Longrightarrow> length (fblock fs i k) = 512"
  by (simp add: fblock_def)

lemma fblock_bytes: "fs_ok fs \<Longrightarrow> fblock fs i k = map (fbyte fs i) [k * 512..<k * 512 + 512]"
  by (intro nth_equalityI) (simp_all add: fbyte_def)

lemma fblock_part:
  assumes "fs_ok fs" "skip + len \<le> 512"
  shows "take len (drop skip (fblock fs i k)) = map (fbyte fs i) [k * 512 + skip..<k * 512 + skip + len]"
  using assms by (intro nth_equalityI) (simp_all add: fblock_bytes add.assoc)

lemma file_block_of_nat:
  assumes "off < 2 ^ 41"
  shows "file_block_of (int off) = of_nat (off div 512)" "unat (file_block_of (int off)) = off div 512"
proof -
  have "int off sdiv 512 = int (off div 512)"
    by (cases "off = 0") (simp_all add: signed_divide_int_def sgn_if zdiv_int)
  then show e: "file_block_of (int off) = of_nat (off div 512)" by (simp add: file_block_of_def SFS_BLOCKSIZE_def)
  have "off div 512 < 2 ^ 32" using assms by (simp add: less_mult_imp_div_less)
  then show "unat (file_block_of (int off)) = off div 512" unfolding e by (simp add: unsigned_of_nat take_bit_nat_def)
qed

lemma offset_mod: "unat (of_int (int off smod int SFS_BLOCKSIZE) :: u32) = off mod 512" "int off smod int SFS_BLOCKSIZE = int (off mod 512)"
proof -
  show e: "int off smod int SFS_BLOCKSIZE = int (off mod 512)"
    by (cases "off = 0") (simp_all add: signed_modulo_int_def sgn_if zmod_int SFS_BLOCKSIZE_def)
  have "off mod 512 < 512" by simp
  then show "unat (of_int (int off smod int SFS_BLOCKSIZE) :: u32) = off mod 512"
    unfolding e of_int_of_nat_eq by (simp add: unsigned_of_nat take_bit_nat_def)
qed

section \<open>Reading\<close>

text \<open>The result of reading \<open>n\<close> bytes: they are the next bytes of the file, and the file system is the same.\<close>

definition read_res :: "memory \<Rightarrow> sfs_fs \<Rightarrow> sfs_vnode \<Rightarrow> uio \<Rightarrow> nat \<Rightarrow>
    ((errno + unit) \<times> sfs_fs \<times> sfs_vnode \<times> memory \<times> uio) option \<Rightarrow> bool" where
  "read_res m fs sv u n res \<longleftrightarrow> (\<exists>fs' u'. res =
     Some (Inr (), fs', sv, mem_put m (take n (uio_addrs u)) (map (\<lambda>j. fbyte fs (sv_i sv) (nat (uio_offset u) + j)) [0..<n]), u') \<and>
     same_blocks fs fs' \<and> advanced u n u')"

lemma map_fbyte: "map (fbyte fs i) [a..<a + n] = map (\<lambda>j. fbyte fs i (a + j)) [0..<n]"
  by (intro nth_equalityI) simp_all

lemma read_resI:
  assumes "same_blocks fs fs'" "advanced u n u'" "xs = map (fbyte fs (sv_i sv)) [off..<off + n]" "uio_offset u = int off"
  shows "read_res m fs sv u n (Some (Inr (), fs', sv, mem_put m (take n (uio_addrs u)) xs, u'))"
  unfolding read_res_def using assms by (intro exI [of _ fs'] exI [of _ u']) (simp add: map_fbyte)

lemma uiomove_read:
  assumes "can_move curas m u n" "n \<le> length buf" "uio_dir u = UIO_READ"
  shows "\<exists>u'. uiomove curas m buf n u = Some (Inr (), buf, u', mem_put m (take n (uio_addrs u)) (take n buf)) \<and> advanced u n u'"
  using uiomove_ok [OF assms(1,2)] assms(3) append_take_drop_id [of n buf] by (simp add: moved_def)

lemma uiomove_write:
  assumes "can_move curas m u n" "n \<le> length buf" "uio_dir u = UIO_WRITE"
  shows "\<exists>u'. uiomove curas m buf n u = Some (Inr (), mem_get m (take n (uio_addrs u)) @ drop n buf, u', m) \<and> advanced u n u'"
  using uiomove_ok [OF assms(1,2)] assms(3) by (simp add: moved_def)

lemma partialio_read:
  assumes "fs_ok fs" "inode_ok fs (sv_i sv)" "uio_dir u = UIO_READ" "can_move curas m u len"
    and "uio_offset u = int off" "off div 512 < 143" "off mod 512 + len \<le> 512"
  shows "read_res m fs sv u len (sfs_partialio curas fs sv m u (off mod 512) len)"
proof -
  let ?k = "off div 512" and ?i = "sv_i sv"
  have "off < 2 ^ 41"
  proof -
    have "off < (off div 512 + 1) * 512" by simp
    also have "\<dots> \<le> 143 * 512" using assms(6) by (intro mult_le_mono1) simp
    finally show ?thesis by simp
  qed
  note fb = file_block_of_nat [OF this]
  obtain fs1 where fs1: "sfs_bmap fs sv (of_nat ?k) False = Some (Inr (block_map fs ?i ! ?k), fs1, sv)" "same_blocks fs fs1"
    using bmap_lookup [OF assms(1,2,6)] by blast
  note S1 = same_blocksD [OF fs1(2)]
  have ok1: "fs_ok fs1" using S1(7) assms(1) by simp
  let ?b = "block_map fs ?i ! ?k"
  obtain fs2 where fs2: "(if ?b = 0 then do { KASSERT (uio_dir u = UIO_READ); Some (Inr (replicate SFS_BLOCKSIZE 0), fs1) }
      else do { (r, d) \<leftarrow> sfs_rblock (sfs_device fs1) ?b; Some (r, fs1\<lparr>sfs_device := d\<rparr>) }) = Some (Inr (fblock fs ?i ?k), fs2)" "same_blocks fs1 fs2"
  proof (cases "?b = 0")
    case True
    then show thesis using that [of fs1] same_blocks_refl [OF ok1] assms(3) by (simp add: fblock_def SFS_BLOCKSIZE_def)
  next
    case False
    have "?b < nblocks fs1" using inode_okD(2) [OF assms(1,2,6) False] S1(3) by (simp add: same_rest_def)
    then obtain d where "sfs_rblock (sfs_device fs1) ?b = Some (Inr (sect fs1 ?b), d)" "same_blocks fs1 (fs1\<lparr>sfs_device := d\<rparr>)"
      using read_same_blocks [OF ok1] by blast
    then show thesis using that [of "fs1\<lparr>sfs_device := d\<rparr>"] False S1(1) by (simp add: fblock_def)
  qed
  let ?buf = "drop (off mod 512) (fblock fs ?i ?k)"
  have len: "len \<le> length ?buf" using assms(1,7) by simp
  obtain u' where u': "uiomove curas m ?buf len u = Some (Inr (), ?buf, u', mem_put m (take len (uio_addrs u)) (take len ?buf))" "advanced u len u'"
    using uiomove_read [OF assms(4) len assms(3)] by blast
  have d': "uio_dir u' = UIO_READ" using u'(2) assms(3) by (simp add: advanced_def)
  have "sfs_partialio curas fs sv m u (off mod 512) len = Some (Inr (), fs2, sv, mem_put m (take len (uio_addrs u)) (take len ?buf), u')"
    using fs1(1) fs2(1) u'(1) d' assms(3,5,7) fb(1) by (simp add: sfs_partialio_def SFS_BLOCKSIZE_def)
  moreover have "take len ?buf = map (fbyte fs ?i) [off..<off + len]"
    using fblock_part [OF assms(1,7), of ?i ?k] by simp
  ultimately show ?thesis using same_blocks_trans [OF fs1(2) fs2(2)] u'(2) assms(5) by (simp add: read_resI)
qed
text \<open>The computation of a byte offset on the disk does not wrap around.\<close>

definition small_fs :: "sfs_fs \<Rightarrow> bool" where
  "small_fs fs \<longleftrightarrow> unat (nblocks fs) \<le> 2 ^ 23"

lemma disk_offset:
  assumes "small_fs fs" "b < nblocks fs"
  shows "int (unat (b * of_nat SFS_BLOCKSIZE)) = int (unat b) * 512"
proof -
  have "unat b * 512 < 2 ^ 32" using assms by (simp add: small_fs_def word_less_nat_alt)
  then show ?thesis by (simp add: SFS_BLOCKSIZE_def unat_word_ariths)
qed

text \<open>The uio that \<open>sfs_blockio\<close> hands to the device, and what it makes of the uio that comes back.\<close>

lemma blockio_uio:
  assumes "can_move curas m u 512" "small_fs fs" "b < nblocks fs"
  defines "v1 \<equiv> u\<lparr>uio_offset := int (unat (b * of_nat SFS_BLOCKSIZE)), uio_resid := SFS_BLOCKSIZE\<rparr>"
  shows "block_uio v1 b" "can_move curas m v1 512" "uio_dir v1 = uio_dir u" "uio_addrs v1 = uio_addrs u"
    "advanced v1 512 u' \<Longrightarrow> advanced u 512 (u'\<lparr>uio_offset := (uio_offset u' - int (unat (b * of_nat SFS_BLOCKSIZE))) + uio_offset u,
       uio_resid := nat ((int (uio_resid u') - int SFS_BLOCKSIZE) + int (uio_resid u))\<rparr>)"
proof -
  note off = disk_offset [OF assms(2,3)]
  show a: "uio_addrs v1 = uio_addrs u" "uio_dir v1 = uio_dir u" by (simp_all add: v1_def uio_addrs_def)
  show "block_uio v1 b" unfolding block_uio_def v1_def off by (simp add: SFS_BLOCKSIZE_def)
  show "can_move curas m v1 512"
    using assms(1) unfolding can_move_def a by (simp add: v1_def SFS_BLOCKSIZE_def space_ok_def may_touch_def split: uio_rw.split)
  have "uio_addrs (u'\<lparr>uio_offset := x, uio_resid := y\<rparr>) = uio_addrs u'" for x y by (simp add: uio_addrs_def)
  moreover have "512 \<le> uio_resid u" using assms(1) by (simp add: can_move_def)
  moreover have "uio_resid v1 = 512" "uio_segflg v1 = uio_segflg u" "uio_space v1 = uio_space u"
    "uio_offset v1 = int (unat (b * of_nat SFS_BLOCKSIZE))" by (simp_all add: v1_def SFS_BLOCKSIZE_def)
  ultimately show "advanced u 512 (u'\<lparr>uio_offset := (uio_offset u' - int (unat (b * of_nat SFS_BLOCKSIZE))) + uio_offset u,
       uio_resid := nat ((int (uio_resid u') - int SFS_BLOCKSIZE) + int (uio_resid u))\<rparr>)" if "advanced v1 512 u'"
    using that a unfolding advanced_def by (simp add: SFS_BLOCKSIZE_def nat_diff_distrib)
qed

lemma blockio_read:
  assumes "fs_ok fs" "inode_ok fs (sv_i sv)" "small_fs fs" "uio_dir u = UIO_READ" "can_move curas m u 512"
    and "uio_offset u = int off" "off div 512 < 143" "off mod 512 = 0"
  shows "read_res m fs sv u 512 (sfs_blockio curas fs sv m u)"
proof -
  let ?k = "off div 512" and ?i = "sv_i sv"
  let ?b = "block_map fs ?i ! ?k"
  have off: "off = ?k * 512" using assms(8) by (metis add_0_right div_mult_mod_eq)
  have "off < 2 ^ 41" using off assms(7) by simp
  note fb = file_block_of_nat [OF this]
  obtain fs1 where fs1: "sfs_bmap fs sv (of_nat ?k) False = Some (Inr ?b, fs1, sv)" "same_blocks fs fs1"
    using bmap_lookup [OF assms(1,2,7)] by blast
  note S1 = same_blocksD [OF fs1(2)]
  have ok1: "fs_ok fs1" using S1(7) assms(1) by simp
  have data: "fblock fs ?i ?k = map (fbyte fs ?i) [off..<off + 512]" using fblock_bytes [OF assms(1), of ?i ?k] off by simp
  have resid: "512 \<le> uio_resid u" using assms(5) by (simp add: can_move_def)
  show ?thesis
  proof (cases "?b = 0")
    case True
    obtain u' where u': "uiomovezeros curas m 512 u = Some (Inr (), u', mem_put m (take 512 (uio_addrs u)) (replicate 512 0))" "advanced u 512 u'"
      using uiomovezeros_ok [OF assms(5,4)] by blast
    have "sfs_blockio curas fs sv m u = Some (Inr (), fs1, sv, mem_put m (take 512 (uio_addrs u)) (fblock fs ?i ?k), u')"
      using fs1(1) u'(1) True assms(4,6) fb(1) by (simp add: sfs_blockio_def SFS_BLOCKSIZE_def fblock_def)
    then show ?thesis using fs1(2) u'(2) data assms(6) by (simp add: read_resI)
  next
    case False
    have nb: "nblocks fs1 = nblocks fs" using S1(3) by (simp add: same_rest_def)
    have b: "?b < nblocks fs1" using inode_okD(2) [OF assms(1,2,7) False] nb by simp
    have sm: "small_fs fs1" using assms(3) nb by (simp add: small_fs_def)
    note B = blockio_uio [OF assms(5) sm b]
    let ?v = "u\<lparr>uio_offset := int (unat (?b * of_nat SFS_BLOCKSIZE)), uio_resid := SFS_BLOCKSIZE\<rparr>"
    have dev: "?b < d_blocks (sfs_device fs1)" "disk_wf (sfs_device fs1)" "outcomes (sfs_device fs1) = []"
      using ok1 b by (auto simp: fs_ok_def)
    obtain u' where u': "advanced ?v 512 u'" "sfs_rwblock curas (sfs_device fs1) m ?v =
        Some (Inr (), (sfs_device fs1)\<lparr>lh_buf := sect fs1 ?b\<rparr>, mem_put m (take 512 (uio_addrs u)) (sect fs1 ?b), u')"
      using rwblock_read [OF B(1) dev(1,2) B(2) _ dev(3)] B(3,4) assms(4) by auto
    let ?u = "u'\<lparr>uio_offset := (uio_offset u' - int (unat (?b * of_nat SFS_BLOCKSIZE))) + uio_offset u,
       uio_resid := nat ((int (uio_resid u') - int SFS_BLOCKSIZE) + int (uio_resid u))\<rparr>"
    let ?fs = "fs1\<lparr>sfs_device := (sfs_device fs1)\<lparr>lh_buf := sect fs1 ?b\<rparr>\<rparr>"
    have "sfs_blockio curas fs sv m u = Some (Inr (), ?fs, sv, mem_put m (take 512 (uio_addrs u)) (sect fs1 ?b), ?u)"
      using fs1(1) u'(2) False assms(4,6) fb(1) resid by (simp add: sfs_blockio_def SFS_BLOCKSIZE_def Let_def)
    moreover have "sect fs1 ?b = fblock fs ?i ?k" using False S1(1) by (simp add: fblock_def)
    moreover have "same_blocks fs ?fs"
      using same_blocks_trans [OF fs1(2)] length_sect [OF ok1, of ?b] by (auto simp: same_blocks_def)
    ultimately show ?thesis using B(5) [OF u'(1)] data assms(6) by (simp add: read_resI)
  qed
qed
lemma same_blocks_fbyte: "same_blocks fs fs' \<Longrightarrow> fbyte fs' i = fbyte fs i"
  by (simp add: fbyte_def same_blocksD(6) fun_eq_iff)

lemma read_res_trans:
  assumes "same_blocks fs fs1" "advanced u n u1" "n \<le> length (uio_addrs u)" "uio_offset u = int off"
    and "m1 = mem_put m (take n (uio_addrs u)) (map (\<lambda>j. fbyte fs (sv_i sv) (off + j)) [0..<n])"
    and "read_res m1 fs1 sv u1 k res"
  shows "read_res m fs sv u (n + k) res"
proof -
  have o: "uio_offset u1 = int (off + n)" "uio_addrs u1 = drop n (uio_addrs u)" using assms(2,4) by (simp_all add: advanced_def)
  obtain fs2 u2 where r: "res = Some (Inr (), fs2, sv, mem_put m1 (take k (uio_addrs u1)) (map (\<lambda>j. fbyte fs1 (sv_i sv) (nat (uio_offset u1) + j)) [0..<k]), u2)"
      "same_blocks fs1 fs2" "advanced u1 k u2"
    using assms(6) by (auto simp: read_res_def)
  let ?f = "\<lambda>j. fbyte fs (sv_i sv) (off + j)"
  have "map ?f [0..<n + k] = map ?f [0..<n] @ map (\<lambda>j. fbyte fs (sv_i sv) (off + n + j)) [0..<k]"
    by (intro nth_equalityI) (auto simp: nth_append add.assoc)
  then have "mem_put m1 (take k (drop n (uio_addrs u))) (map (\<lambda>j. fbyte fs (sv_i sv) (off + n + j)) [0..<k]) =
      mem_put m (take (n + k) (uio_addrs u)) (map ?f [0..<n + k])"
    unfolding assms(5) take_add using assms(3) by (simp add: mem_put_append)
  then show ?thesis
    unfolding read_res_def r(1) o same_blocks_fbyte [OF assms(1)]
    using same_blocks_trans [OF assms(1) r(2)] advanced_trans [OF assms(2) r(3)] assms(4)
    by (intro exI [of _ fs2] exI [of _ u2]) (simp add: nat_add_distrib)
qed

lemma read_resE:
  assumes "read_res m fs sv u n res" "uio_offset u = int off"
  obtains fs1 m1 u1 where "res = Some (Inr (), fs1, sv, m1, u1)" "same_blocks fs fs1" "advanced u n u1"
    "m1 = mem_put m (take n (uio_addrs u)) (map (\<lambda>j. fbyte fs (sv_i sv) (off + j)) [0..<n])"
    "ureadable m1 = ureadable m" "uwritable m1 = uwritable m"
  using assms by (auto simp: read_res_def)

lemma read_res_0: "fs_ok fs \<Longrightarrow> read_res m fs sv u 0 (Some (Inr (), fs, sv, m, u))"
  using same_blocks_refl by (auto simp: read_res_def)

text \<open>The state a transfer can go on from.\<close>

lemma io_next:
  assumes "can_move curas m u n" "advanced u k u1" "k \<le> n" "ureadable m1 = ureadable m" "uwritable m1 = uwritable m" "uio_offset u = int off"
  shows "can_move curas m1 u1 (n - k)" "uio_offset u1 = int (off + k)" "uio_dir u1 = uio_dir u" "uio_resid u1 = uio_resid u - k"
    "k \<le> length (uio_addrs u)"
  using can_move_advanced [OF assms(1-5)] assms(1,2,3,6) by (simp_all add: advanced_def can_move_def)

lemma next_block: "off + (512 - off mod 512) = (off div 512 + 1) * (512 :: nat)"
proof -
  have "q * 512 + r = off \<Longrightarrow> r < 512 \<Longrightarrow> off + (512 - r) = (q + 1) * 512" for q r :: nat by simp
  from this [OF div_mult_mod_eq] show ?thesis by simp
qed

lemma io_blocks_read:
  assumes "fs_ok fs" "inode_ok fs (sv_i sv)" "small_fs fs" "uio_dir u = UIO_READ" "can_move curas m u (n * 512)"
    and "uio_offset u = int off" "off + n * 512 \<le> max_file" "off mod 512 = 0"
  shows "read_res m fs sv u (n * 512) (io_blocks curas n fs sv m u)"
  using assms
proof (induction n arbitrary: fs m u off)
  case 0
  then show ?case using read_res_0 by simp
next
  case (Suc n)
  have k: "off div 512 < 143" using Suc.prems(7) by (simp add: max_file_def div_less_iff_less_mult)
  have cm: "can_move curas m u 512"
    using Suc.prems(5) set_take_subset_set_take [of 512 "Suc n * 512" "uio_addrs u"] by (auto simp: can_move_def)
  note R = blockio_read [OF Suc.prems(1-4) cm Suc.prems(6) k Suc.prems(8)]
  then obtain fs1 m1 u1 where r: "sfs_blockio curas fs sv m u = Some (Inr (), fs1, sv, m1, u1)" "same_blocks fs fs1" "advanced u 512 u1"
      "m1 = mem_put m (take 512 (uio_addrs u)) (map (\<lambda>j. fbyte fs (sv_i sv) (off + j)) [0..<512])"
      "ureadable m1 = ureadable m" "uwritable m1 = uwritable m"
    by (rule read_resE [OF _ Suc.prems(6)])
  note S1 = same_blocksD [OF r(2)]
  note N = io_next [OF Suc.prems(5) r(3) _ r(5,6) Suc.prems(6)]
  have "read_res m1 fs1 sv u1 (n * 512) (io_blocks curas n fs1 sv m1 u1)"
  proof (rule Suc.IH)
    show "fs_ok fs1" "inode_ok fs1 (sv_i sv)" using S1(7,8) Suc.prems(1,2) by simp_all
    show "small_fs fs1" using S1(3) Suc.prems(3) by (simp add: small_fs_def same_rest_def)
    show "uio_dir u1 = UIO_READ" "can_move curas m1 u1 (n * 512)" "uio_offset u1 = int (off + 512)"
      using N Suc.prems(4) by simp_all
    show "off + 512 + n * 512 \<le> max_file" "(off + 512) mod 512 = 0" using Suc.prems(7,8) by simp_all
  qed
  then have "read_res m fs sv u (512 + n * 512) (io_blocks curas n fs1 sv m1 u1)"
    using N(5) by (intro read_res_trans [OF r(2,3) _ Suc.prems(6) r(4)]) simp_all
  then show ?case using r(1) by simp
qed

lemma io_transfer_read:
  assumes "fs_ok fs" "inode_ok fs (sv_i sv)" "small_fs fs" "uio_dir u = UIO_READ" "can_move curas m u (uio_resid u)"
    and "uio_offset u = int off" "off + uio_resid u \<le> max_file" "off < max_file"
  shows "read_res m fs sv u (uio_resid u) (io_transfer curas fs sv m u)"
proof -
  let ?len = "if off mod 512 = 0 then 0 else min (512 - off mod 512) (uio_resid u)"
  let ?first = "if off mod 512 \<noteq> 0 then sfs_partialio curas fs sv m u (off mod 512) (min (SFS_BLOCKSIZE - off mod 512) (uio_resid u))
        else Some (Inr (), fs, sv, m, u)"
  have k: "off div 512 < 143" using assms(8) by (simp add: max_file_def div_less_iff_less_mult)
  have sub: "can_move curas m u l" if "l \<le> uio_resid u" for l
    using assms(5) that set_take_subset_set_take [OF that, of "uio_addrs u"] by (auto simp: can_move_def)
  have "read_res m fs sv u ?len ?first"
    using read_res_0 [OF assms(1)] partialio_read [OF assms(1,2,4) sub assms(6) k, of "min (512 - off mod 512) (uio_resid u)"]
    by (simp add: SFS_BLOCKSIZE_def)
  then obtain fs1 m1 u1 where r: "?first = Some (Inr (), fs1, sv, m1, u1)" "same_blocks fs fs1" "advanced u ?len u1"
      "m1 = mem_put m (take ?len (uio_addrs u)) (map (\<lambda>j. fbyte fs (sv_i sv) (off + j)) [0..<?len])"
      "ureadable m1 = ureadable m" "uwritable m1 = uwritable m"
    by (rule read_resE [OF _ assms(6)])
  note S1 = same_blocksD [OF r(2)]
  have le: "?len \<le> uio_resid u" by simp
  note N = io_next [OF assms(5) r(3) le r(5,6) assms(6)]
  have ok1: "fs_ok fs1" "inode_ok fs1 (sv_i sv)" "small_fs fs1"
    using S1(3,7,8) assms(1-3) by (simp_all add: small_fs_def same_rest_def)
  let ?rest = "if uio_resid u1 = 0 then Some (Inr (), fs1, sv, m1, u1)
         else do {
           KASSERT (uio_offset u1 smod int SFS_BLOCKSIZE = 0);
           (r, fs, sv, m, u) \<leftarrow> io_blocks curas (uio_resid u1 div SFS_BLOCKSIZE) fs1 sv m1 u1;
           case r of
             Inl e \<Rightarrow> Some (Inl e, fs, sv, m, u)
           | Inr _ \<Rightarrow> do {
               KASSERT (uio_resid u < SFS_BLOCKSIZE);
               if uio_resid u > 0 then sfs_partialio curas fs sv m u 0 (uio_resid u)
               else Some (Inr (), fs, sv, m, u)
             }
         }"
  have un: "io_transfer curas fs sv m u = ?rest"
    unfolding io_transfer_def assms(6) offset_mod(1) using r(1) by (simp add: Let_def)
  have "read_res m1 fs1 sv u1 (uio_resid u1) ?rest"
  proof (cases "uio_resid u1 = 0")
    case True
    then show ?thesis using read_res_0 [OF ok1(1)] by simp
  next
    case False
    have al: "(off + ?len) mod 512 = 0"
    proof (cases "off mod 512 = 0")
      case False
      then have "?len = 512 - off mod 512" using \<open>uio_resid u1 \<noteq> 0\<close> N(4) by (auto simp: min_def split: if_splits)
      then have "off + ?len = (off div 512 + 1) * 512" by (simp only: next_block)
      then show ?thesis by simp
    qed simp
    let ?n = "uio_resid u1 div 512"
    have cm: "can_move curas m1 u1 (uio_resid u1)" using N(1,4) by simp
    have nle: "?n * 512 \<le> uio_resid u1" by simp
    have cmn: "can_move curas m1 u1 (?n * 512)"
      using cm set_take_subset_set_take [OF nle, of "uio_addrs u1"] by (auto simp: can_move_def)
    have d1: "uio_dir u1 = UIO_READ" using N(3) assms(4) by simp
    have lim: "off + ?len + uio_resid u1 \<le> max_file" using assms(7) N(4) le by simp
    have "read_res m1 fs1 sv u1 (?n * 512) (io_blocks curas ?n fs1 sv m1 u1)"
      using lim nle by (intro io_blocks_read [OF ok1 d1 cmn N(2) _ al]) linarith
    then obtain fs2 m2 u2 where r2: "io_blocks curas ?n fs1 sv m1 u1 = Some (Inr (), fs2, sv, m2, u2)" "same_blocks fs1 fs2" "advanced u1 (?n * 512) u2"
        "m2 = mem_put m1 (take (?n * 512) (uio_addrs u1)) (map (\<lambda>j. fbyte fs1 (sv_i sv) (off + ?len + j)) [0..<?n * 512])"
        "ureadable m2 = ureadable m1" "uwritable m2 = uwritable m1"
      by (rule read_resE [OF _ N(2)])
    note N2 = io_next [OF cm r2(3) nle r2(5,6) N(2)]
    have res2: "uio_resid u2 = uio_resid u1 mod 512" using N2(4) by (simp add: minus_div_mult_eq_mod)
    have ok2: "fs_ok fs2" "inode_ok fs2 (sv_i sv)" using same_blocksD(7,8) [OF r2(2)] ok1 by simp_all
    let ?last = "if uio_resid u2 > 0 then sfs_partialio curas fs2 sv m2 u2 0 (uio_resid u2) else Some (Inr (), fs2, sv, m2, u2)"
    have rest: "?rest = ?last"
      using False r2(1) res2 al N(2) offset_mod(2) [of "off + ?len"] by (simp add: SFS_BLOCKSIZE_def)
    have off2: "(off + ?len + ?n * 512) mod 512 = 0" using al by simp
    have "read_res m2 fs2 sv u2 (uio_resid u2) ?last"
    proof (cases "uio_resid u2 > 0")
      case True
      have "off + ?len + ?n * 512 < max_file" using lim True N2(4) by linarith
      then have "(off + ?len + ?n * 512) div 512 < 143" unfolding max_file_def by (rule less_mult_imp_div_less)
      moreover have "can_move curas m2 u2 (uio_resid u2)" using N2(1,4) by simp
      moreover have "(off + ?len + ?n * 512) mod 512 + uio_resid u2 \<le> 512" unfolding off2 using res2 by simp
      moreover have "uio_dir u2 = UIO_READ" using d1 N2(3) by simp
      ultimately have "read_res m2 fs2 sv u2 (uio_resid u2) (sfs_partialio curas fs2 sv m2 u2 ((off + ?len + ?n * 512) mod 512) (uio_resid u2))"
        by (intro partialio_read [OF ok2 _ _ N2(2)])
      then show ?thesis unfolding off2 using True by (simp only: if_True)
    qed (use read_res_0 [OF ok2(1)] in simp)
    then have "read_res m1 fs1 sv u1 (?n * 512 + uio_resid u2) ?last"
      using N2(5) by (intro read_res_trans [OF r2(2,3) _ N(2) r2(4)]) simp_all
    then show ?thesis unfolding rest using res2 by simp
  qed
  then have "read_res m fs sv u (?len + uio_resid u1) ?rest"
    using N(5) by (intro read_res_trans [OF r(2,3) _ assms(6) r(4)]) simp_all
  then show ?thesis unfolding un using N(4) le by simp
qed
lemma advanced_resid: "advanced (u\<lparr>uio_resid := uio_resid u - e\<rparr>) n u' \<Longrightarrow> e + n \<le> uio_resid u \<Longrightarrow>
    advanced u n (u'\<lparr>uio_resid := uio_resid u' + e\<rparr>)"
  by (simp add: advanced_def uio_addrs_def)

lemma can_move_less:
  assumes "can_move curas m u n" "k \<le> n" "k \<le> r" "r < 2 ^ 32"
  shows "can_move curas m (u\<lparr>uio_resid := r\<rparr>) k"
  using assms set_take_subset_set_take [OF assms(2), of "uio_addrs u"]
  by (auto simp: can_move_def space_ok_def uio_addrs_def may_touch_def split: uio_rw.splits)

text \<open>How many bytes a read returns.\<close>

definition read_amount :: "sfs_inode \<Rightarrow> uio \<Rightarrow> nat" where
  "read_amount i u = min (uio_resid u) (unat (sfi_size i) - nat (uio_offset u))"

lemma unat32: "n < 2 ^ 32 \<Longrightarrow> unat (of_nat n :: u32) = n"
  by (simp add: unsigned_of_nat take_bit_nat_def)

lemma extra_amount:
  assumes "off < sz" "resid < 2 ^ 32"
  shows "(if int off + int resid > int sz then unat (of_int (int off + int resid - int sz) :: u32) else 0) = resid - min resid (sz - off)"
proof (cases "off + resid > sz")
  case True
  then have "int off + int resid - int sz = int (off + resid - sz)" by simp
  moreover have "off + resid - sz < 2 ^ 32" using assms by linarith
  ultimately have "unat (of_int (int off + int resid - int sz) :: u32) = off + resid - sz"
    by (simp only: of_int_of_nat_eq unat32)
  then show ?thesis using True assms(1) by simp
next
  case False
  then show ?thesis using assms(1) by simp
qed

lemma sfs_io_read:
  assumes "fs_ok fs" "inode_ok fs (sv_i sv)" "small_fs fs" "uio_dir u = UIO_READ" "can_move curas m u (uio_resid u)"
    and "uio_offset u = int off" "unat (sfi_size (sv_i sv)) \<le> max_file"
  shows "read_res m fs sv u (read_amount (sv_i sv) u) (sfs_io curas fs sv m u)"
proof -
  let ?size = "unat (sfi_size (sv_i sv))" and ?n = "read_amount (sv_i sv) u"
  show ?thesis
  proof (cases "off \<ge> ?size")
    case True
    then have "int ?size \<le> int off" by (simp only: of_nat_le_iff)
    then have g: "uio_dir u = UIO_READ \<and> uio_offset u \<ge> int ?size" using assms(4,6) by metis
    have "?n = 0" using True assms(6) by (simp add: read_amount_def)
    then show ?thesis unfolding sfs_io_def Let_def if_P [OF g] using read_res_0 [OF assms(1)] by simp
  next
    case False
    let ?e = "if uio_offset u + int (uio_resid u) > int ?size then unat (of_int (uio_offset u + int (uio_resid u) - int ?size) :: u32) else 0"
    have r32: "uio_resid u < 2 ^ 32" using assms(5) by (simp add: can_move_def)
    have e: "?e = uio_resid u - ?n"
      using extra_amount [OF _ r32, of off ?size] False unfolding read_amount_def assms(6) nat_int not_le by blast
    have n: "uio_resid u = 0 \<or> 0 < ?n" "?n \<le> uio_resid u" using False assms(6) by (auto simp: read_amount_def)
    let ?u = "u\<lparr>uio_resid := uio_resid u - (uio_resid u - ?n)\<rparr>"
    have res: "uio_resid ?u = ?n" "uio_addrs ?u = uio_addrs u" using n by (simp_all add: uio_addrs_def)
    have "read_res m fs sv ?u (uio_resid ?u) (io_transfer curas fs sv m ?u)"
    proof (rule io_transfer_read [OF assms(1-3)])
      show "uio_dir ?u = UIO_READ" "uio_offset ?u = int off" "off < max_file" using assms(4,6,7) False by simp_all
      show "can_move curas m ?u (uio_resid ?u)" unfolding res(1) using can_move_less [OF assms(5) n(2)] n(2) r32 by simp
      show "off + uio_resid ?u \<le> max_file" using assms(6,7) False n by (simp add: read_amount_def)
    qed
    then obtain fs1 m1 u1 where r: "io_transfer curas fs sv m ?u = Some (Inr (), fs1, sv, m1, u1)" "same_blocks fs fs1" "advanced ?u ?n u1"
        "m1 = mem_put m (take ?n (uio_addrs u)) (map (\<lambda>j. fbyte fs (sv_i sv) (off + j)) [0..<?n])"
      using assms(6) unfolding res(1) by (auto simp: read_res_def res(2))
    have d1: "uio_dir u1 = UIO_READ" using r(3) assms(4) by (simp add: advanced_def)
    have "sfs_io curas fs sv m u = Some (Inr (), fs1, sv, m1, u1\<lparr>uio_resid := uio_resid u1 + (uio_resid u - ?n)\<rparr>)"
    proof -
      have g: "\<not> (uio_dir u = UIO_READ \<and> uio_offset u \<ge> int ?size)" unfolding assms(6) of_nat_le_iff using False by blast
      have k: "uio_dir u = UIO_READ \<and> uio_offset u + int (uio_resid u) > int ?size \<longrightarrow> uio_resid u > uio_resid u - ?n"
      proof (cases "uio_resid u = 0")
        case True
        then have "\<not> uio_offset u + int (uio_resid u) > int ?size" using False unfolding assms(6) by linarith
        then show ?thesis by blast
      qed (use n in simp)
      have e': "(if uio_dir u = UIO_READ \<and> uio_offset u + int (uio_resid u) > int ?size
          then unat (of_int (uio_offset u + int (uio_resid u) - int ?size) :: u32) else 0) = uio_resid u - ?n" using e assms(4) by simp
      show ?thesis unfolding sfs_io_def Let_def if_not_P [OF g] e' KASSERT_bind [OF k] r(1) using d1 by simp
    qed
    moreover have "advanced u ?n (u1\<lparr>uio_resid := uio_resid u1 + (uio_resid u - ?n)\<rparr>)"
      using advanced_resid [OF r(3)] n by simp
    ultimately show ?thesis using r(2,4) assms(6) by (auto simp: read_res_def)
  qed
qed

section \<open>Writing\<close>

text \<open>The first \<open>n\<close> bytes of a uio have been written into the file: each byte of the file is the byte of memory that
  the uio names for its position, or what it was before.\<close>

definition wrote :: "memory \<Rightarrow> sfs_fs \<Rightarrow> sfs_vnode \<Rightarrow> uio \<Rightarrow> nat \<Rightarrow> sfs_fs \<Rightarrow> sfs_vnode \<Rightarrow> uio \<Rightarrow> bool" where
  "wrote m fs sv u n fs' sv' u' \<longleftrightarrow>
     file_step fs (sv_i sv) fs' (sv_i sv') \<and> same_vnode sv sv' \<and> sfi_size (sv_i sv') = sfi_size (sv_i sv) \<and> advanced u n u' \<and>
     (\<forall>p < max_file. fbyte fs' (sv_i sv') p =
        (if nat (uio_offset u) \<le> p \<and> p < nat (uio_offset u) + n then mbytes m (uio_addrs u ! (p - nat (uio_offset u)))
         else fbyte fs (sv_i sv) p))"

lemma wroteD:
  assumes "wrote m fs sv u n fs' sv' u'"
  shows "fs_ok fs'" "inode_ok fs' (sv_i sv')" "nblocks fs' = nblocks fs" "advanced u n u'"
  using assms by (simp_all add: wrote_def file_step_def same_rest_def)

lemma wrote_trans:
  assumes "wrote m fs sv u n fs' sv' u'" "wrote m fs' sv' u' k fs'' sv'' u''" "uio_offset u = int off" "n + k \<le> length (uio_addrs u)"
  shows "wrote m fs sv u (n + k) fs'' sv'' u''"
proof -
  have o: "nat (uio_offset u') = off + n" "uio_addrs u' = drop n (uio_addrs u)" "nat (uio_offset u) = off"
    using assms(1,3) by (simp_all add: wrote_def advanced_def nat_add_distrib)
  note W1 = assms(1) [unfolded wrote_def o] and W2 = assms(2) [unfolded wrote_def o]
  have "fbyte fs'' (sv_i sv'') p = (if off \<le> p \<and> p < off + (n + k) then mbytes m (uio_addrs u ! (p - off)) else fbyte fs (sv_i sv) p)"
    if "p < max_file" for p
  proof (cases "off + n \<le> p \<and> p < off + n + k")
    case True
    then have "drop n (uio_addrs u) ! (p - (off + n)) = uio_addrs u ! (p - off)"
      using assms(4) by (subst nth_drop) (simp_all add: le_diff_conv2)
    then show ?thesis using True W2 that by simp
  next
    case False
    then have "fbyte fs'' (sv_i sv'') p = fbyte fs' (sv_i sv') p" using W2 that by (elim conjE) (simp only: if_False)
    then show ?thesis using False W1 that by (elim conjE) auto
  qed
  moreover have "file_step fs (sv_i sv) fs'' (sv_i sv'')" "same_vnode sv sv''" "advanced u (n + k) u''"
    using W1 W2 file_step_trans same_vnode_trans advanced_trans by (elim conjE, blast)+
  ultimately show ?thesis using W1 W2 unfolding wrote_def o by (elim conjE) simp
qed

text \<open>The result of writing \<open>want\<close> bytes: all of them, or as many as there was room for. A write that stops early stops
  at the end of a block.\<close>

definition stopped :: "nat \<Rightarrow> nat \<Rightarrow> nat \<Rightarrow> bool" where
  "stopped off n want \<longleftrightarrow> (n = 0 \<or> (off + n) mod 512 = 0) \<and> (n < want \<or> want = 0)"

lemma stopped_0 [simp]: "stopped off 0 want"
  by (auto simp: stopped_def)

definition write_res :: "memory \<Rightarrow> sfs_fs \<Rightarrow> sfs_vnode \<Rightarrow> uio \<Rightarrow> nat \<Rightarrow>
    ((errno + unit) \<times> sfs_fs \<times> sfs_vnode \<times> memory \<times> uio) option \<Rightarrow> bool" where
  "write_res m fs sv u want res \<longleftrightarrow> (\<exists>r fs' sv' u' n. res = Some (r, fs', sv', m, u') \<and> wrote m fs sv u n fs' sv' u' \<and> n \<le> want \<and>
     (0 < n \<longrightarrow> nat (uio_offset u) + n \<le> max_file) \<and> (r = Inr () \<and> n = want \<or> stopped (nat (uio_offset u)) n want \<and>
       (r = Inl ENOSPC \<and> disk_full fs' \<or> r = Inl EFBIG \<and> max_file < nat (uio_offset u) + want)))"

lemma write_resI:
  assumes "wrote m fs sv u n fs' sv' u'" "0 < n \<longrightarrow> nat (uio_offset u) + n \<le> max_file"
  shows "write_res m fs sv u n (Some (Inr (), fs', sv', m, u'))"
  using assms by (auto simp: write_res_def)

lemma grew_wrote:
  assumes "grew fs sv fs' sv'"
  shows "wrote m fs sv u 0 fs' sv' u"
proof -
  have "fbyte fs' (sv_i sv') p = fbyte fs (sv_i sv) p" if "p < max_file" for p
  proof -
    have "p div 512 < 143" using that unfolding max_file_def by (rule less_mult_imp_div_less)
    then show ?thesis using assms by (simp add: grew_def fbyte_def)
  qed
  then show ?thesis using assms unfolding wrote_def grew_def by auto
qed

lemma wrote_refl: "fs_ok fs \<Longrightarrow> inode_ok fs (sv_i sv) \<Longrightarrow> wrote m fs sv u 0 fs sv u"
  using grew_wrote grew_same same_blocks_refl by blast

lemma grew_wrote_trans:
  "grew fs sv fs1 sv1 \<Longrightarrow> wrote m fs1 sv1 u n fs2 sv2 u2 \<Longrightarrow> uio_offset u = int off \<Longrightarrow> n \<le> length (uio_addrs u) \<Longrightarrow> wrote m fs sv u n fs2 sv2 u2"
  using wrote_trans [OF grew_wrote, of fs sv fs1 sv1 m u n fs2 sv2 u2 off] by simp

text \<open>Writing \<open>len\<close> bytes into block \<open>k\<close> from \<open>skip\<close> on.\<close>

lemma write_piece:
  assumes "fs_ok fs" "inode_ok fs (sv_i sv)" "k < 143" "block_map fs (sv_i sv) ! k = b" "b \<noteq> 0"
    and "advanced u len u'" "uio_offset u = int (k * 512 + skip)" "skip + len \<le> 512" "len \<le> length (uio_addrs u)"
    and "data = take skip (fblock fs (sv_i sv) k) @ mem_get m (take len (uio_addrs u)) @ drop (skip + len) (fblock fs (sv_i sv) k)"
  shows "wrote m fs sv u len (fs\<lparr>sfs_device := (sfs_device fs)\<lparr>lh_buf := data, sectors := (sect fs)(b := data)\<rparr>\<rparr>) sv u'"
proof -
  let ?fs = "fs\<lparr>sfs_device := (sfs_device fs)\<lparr>lh_buf := data, sectors := (sect fs)(b := data)\<rparr>\<rparr>" and ?i = "sv_i sv"
  have len: "length data = 512" using assms(1,8,9,10) by (simp add: mem_get_def)
  note W = write_block [OF assms(1-3) _ len, unfolded assms(4), OF assms(5)]
  have "fbyte ?fs ?i p = (if k * 512 + skip \<le> p \<and> p < k * 512 + skip + len then mbytes m (uio_addrs u ! (p - (k * 512 + skip)))
      else fbyte fs ?i p)" if "p < max_file" for p
  proof -
    have q: "p div 512 < 143" using that unfolding max_file_def by (rule less_mult_imp_div_less)
    have pd: "p = p div 512 * 512 + p mod 512" "p mod 512 < 512" by simp_all
    show ?thesis
    proof (cases "p div 512 = k")
      case True
      then have e: "p = k * 512 + p mod 512" using pd(1) by simp
      have "fbyte ?fs ?i p = data ! (p mod 512)" using W(3) [OF q] True by (simp add: fbyte_def)
      also have "\<dots> = (if skip \<le> p mod 512 \<and> p mod 512 < skip + len then mbytes m (uio_addrs u ! (p mod 512 - skip))
          else fblock fs ?i k ! (p mod 512))"
        using assms(1,8,9) pd(2) unfolding assms(10) by (auto simp: nth_append mem_get_def min_def)
      also have "\<dots> = (if k * 512 + skip \<le> p \<and> p < k * 512 + skip + len then mbytes m (uio_addrs u ! (p - (k * 512 + skip)))
          else fbyte fs ?i p)"
      proof -
        have *: "(skip \<le> r \<longleftrightarrow> k * 512 + skip \<le> q) \<and> (r < skip + len \<longleftrightarrow> q < k * 512 + skip + len) \<and> r - skip = q - (k * 512 + skip)"
          if "q = k * 512 + r" for q r :: nat using that by linarith
        show ?thesis using * [OF e] by (simp only: fbyte_def True)
      qed
      finally show ?thesis .
    next
      case False
      then have "fbyte ?fs ?i p = fbyte fs ?i p" using W(3) [OF q] by (simp add: fbyte_def)
      moreover have "\<not> (k * 512 + skip \<le> p \<and> p < k * 512 + skip + len)"
      proof
        assume a: "k * 512 + skip \<le> p \<and> p < k * 512 + skip + len"
        then have "k \<le> p div 512" "p div 512 < k + 1"
          using assms(8) by (simp_all add: less_eq_div_iff_mult_less_eq div_less_iff_less_mult)
        then show False using False by simp
      qed
      ultimately show ?thesis by (simp only: if_False)
    qed
  qed
  then show ?thesis using W(1) assms(6) unfolding wrote_def assms(7) nat_int by simp
qed
lemma bmap_too_far:
  assumes "off < 2 ^ 41" "143 \<le> off div 512"
  shows "sfs_bmap fs sv (file_block_of (int off)) doalloc = Some (Inl EFBIG, fs, sv)"
  using assms(2) by (intro bmap_too_big) (simp add: file_block_of_nat(2) [OF assms(1)])

lemma beyond_max:
  assumes "143 \<le> off div 512"
  shows "max_file \<le> off"
proof -
  have "143 * 512 \<le> off div 512 * 512" using assms by (intro mult_le_mono1)
  also have "\<dots> \<le> off" by (rule div_times_less_eq_dividend)
  finally show ?thesis by (simp add: max_file_def)
qed

lemma within_max:
  assumes "off div 512 < 143" "off mod 512 + len \<le> 512"
  shows "off + len \<le> max_file"
proof -
  have "off + len = off div 512 * 512 + (off mod 512 + len)" by simp
  also have "\<dots> \<le> off div 512 * 512 + 512" using assms(2) by (rule add_left_mono)
  also have "\<dots> = Suc (off div 512) * 512" by simp
  also have "\<dots> \<le> 143 * 512" using assms(1) by (intro mult_le_mono1) simp
  finally show ?thesis by (simp add: max_file_def)
qed

lemma partialio_write:
  assumes "fs_ok fs" "inode_ok fs (sv_i sv)" "uio_dir u = UIO_WRITE" "can_move curas m u len"
    and "uio_offset u = int off" "off < 2 ^ 41" "off mod 512 + len \<le> 512" "0 < off mod 512 + len"
  shows "write_res m fs sv u len (sfs_partialio curas fs sv m u (off mod 512) len)"
proof (cases "off div 512 < 143")
  case False
  then have "143 \<le> off div 512" by simp
  note B = bmap_too_far [OF assms(6) this] beyond_max [OF this]
  have "max_file < off + len"
  proof (cases "len = 0")
    case True
    then have "off mod 512 \<noteq> 0" using assms(8) by simp
    then have "off \<noteq> max_file" by (auto simp: max_file_def)
    then show ?thesis using B(2) by simp
  qed (use B(2) in simp)
  then show ?thesis
    using B(1) wrote_refl [OF assms(1,2)] assms(5,7) unfolding write_res_def
    by (intro exI [of _ "Inl EFBIG"] exI [of _ fs] exI [of _ sv] exI [of _ u] exI [of _ 0]) (simp add: sfs_partialio_def SFS_BLOCKSIZE_def)
next
  case k: True
  let ?k = "off div 512" and ?skip = "off mod 512"
  note fb = file_block_of_nat [OF assms(6)]
  have addrs: "len \<le> length (uio_addrs u)" using assms(4) by (simp add: can_move_def)
  obtain r fs1 sv1 where bm: "sfs_bmap fs sv (of_nat ?k) True = Some (r, fs1, sv1)" "grew fs sv fs1 sv1"
      "case r of Inl e \<Rightarrow> e = ENOSPC \<and> disk_full fs1 | Inr b \<Rightarrow> b \<noteq> 0 \<and> block_map fs1 (sv_i sv1) ! ?k = b"
    using bmap_alloc [OF assms(1,2) k] unfolding bmap_post_def by blast
  show ?thesis
  proof (cases r)
    case (Inl e)
    then show ?thesis
      using bm grew_wrote [OF bm(2)] assms(3,5,7) fb(1) unfolding write_res_def
      by (intro exI [of _ "Inl ENOSPC"] exI [of _ fs1] exI [of _ sv1] exI [of _ u] exI [of _ 0]) (simp add: sfs_partialio_def SFS_BLOCKSIZE_def)
  next
    case (Inr b)
    have b: "b \<noteq> 0" "block_map fs1 (sv_i sv1) ! ?k = b" using bm(3) Inr by simp_all
    note ok = grewD [OF bm(2)]
    have bn: "b < nblocks fs1" using inode_okD(2) [OF ok k] b by simp
    obtain d where d: "sfs_rblock (sfs_device fs1) b = Some (Inr (sect fs1 b), d)" "same_blocks fs1 (fs1\<lparr>sfs_device := d\<rparr>)"
      using read_same_blocks [OF ok(1) bn] by blast
    let ?fs = "fs1\<lparr>sfs_device := d\<rparr>"
    note S = same_blocksD [OF d(2)]
    have old: "fblock ?fs (sv_i sv1) ?k = sect fs1 b" using b S by (simp add: fblock_def)
    let ?buf = "drop ?skip (sect fs1 b)"
    have len: "len \<le> length ?buf" using ok(1) assms(7) by simp
    obtain u' where u': "uiomove curas m ?buf len u = Some (Inr (), mem_get m (take len (uio_addrs u)) @ drop len ?buf, u', m)" "advanced u len u'"
      using uiomove_write [OF assms(4) len assms(3)] by blast
    have d': "uio_dir u' = UIO_WRITE" using u'(2) assms(3) by (simp add: advanced_def)
    let ?data = "take ?skip (sect fs1 b) @ mem_get m (take len (uio_addrs u)) @ drop len ?buf"
    have data: "?data = take ?skip (fblock ?fs (sv_i sv1) ?k) @ mem_get m (take len (uio_addrs u)) @ drop (?skip + len) (fblock ?fs (sv_i sv1) ?k)"
      by (simp only: old drop_drop add.commute)
    have dl: "length ?data = 512" using ok(1) assms(7) addrs by (simp add: mem_get_def)
    have okf: "fs_ok ?fs" "inode_ok ?fs (sv_i sv1)" "b < nblocks ?fs" "block_map ?fs (sv_i sv1) ! ?k = b"
      using S(7,8,4) ok bn b(2) by simp_all
    let ?fs2 = "?fs\<lparr>sfs_device := (sfs_device ?fs)\<lparr>lh_buf := ?data, sectors := (sect ?fs)(b := ?data)\<rparr>\<rparr>"
    have w: "sfs_wblock (sfs_device ?fs) ?data b = Some (Inr (), sfs_device ?fs2)"
      using write_sect [OF okf(1,3) dl] by simp
    have off: "uio_offset u = int (?k * 512 + ?skip)" using assms(5) by simp
    have "wrote m ?fs sv1 u len ?fs2 sv1 u'"
      by (rule write_piece [OF okf(1,2) k okf(4) b(1) u'(2) off assms(7) addrs data])
    then have "wrote m fs sv u len ?fs2 sv1 u'"
      by (rule grew_wrote_trans [OF grew_trans [OF bm(2) grew_same [OF ok d(2)]] _ assms(5) addrs])
    moreover have "sfs_partialio curas fs sv m u ?skip len = Some (Inr (), ?fs2, sv1, m, u')"
      using bm(1) Inr b(1) d(1) u'(1) d' w assms(3,5,7) fb(1) by (simp add: sfs_partialio_def SFS_BLOCKSIZE_def)
    moreover have "nat (uio_offset u) + len \<le> max_file" using within_max [OF k assms(7)] assms(5) by simp
    ultimately show ?thesis by (metis write_resI)
  qed
qed

lemma blockio_write:
  assumes "fs_ok fs" "inode_ok fs (sv_i sv)" "small_fs fs" "uio_dir u = UIO_WRITE" "can_move curas m u 512"
    and "uio_offset u = int off" "off < 2 ^ 41" "off mod 512 = 0"
  shows "write_res m fs sv u 512 (sfs_blockio curas fs sv m u)"
proof (cases "off div 512 < 143")
  case False
  then have "143 \<le> off div 512" by simp
  note B = bmap_too_far [OF assms(7) this] beyond_max [OF this]
  then show ?thesis
    using wrote_refl [OF assms(1,2)] assms(6) unfolding write_res_def
    by (intro exI [of _ "Inl EFBIG"] exI [of _ fs] exI [of _ sv] exI [of _ u] exI [of _ 0]) (simp add: sfs_blockio_def)
next
  case k: True
  let ?k = "off div 512"
  note fb = file_block_of_nat [OF assms(7)]
  have addrs: "512 \<le> length (uio_addrs u)" and resid: "512 \<le> uio_resid u" using assms(5) by (simp_all add: can_move_def)
  obtain r fs1 sv1 where bm: "sfs_bmap fs sv (of_nat ?k) True = Some (r, fs1, sv1)" "grew fs sv fs1 sv1"
      "case r of Inl e \<Rightarrow> e = ENOSPC \<and> disk_full fs1 | Inr b \<Rightarrow> b \<noteq> 0 \<and> block_map fs1 (sv_i sv1) ! ?k = b"
    using bmap_alloc [OF assms(1,2) k] unfolding bmap_post_def by blast
  show ?thesis
  proof (cases r)
    case (Inl e)
    then show ?thesis
      using bm grew_wrote [OF bm(2)] assms(4,6) fb(1) unfolding write_res_def
      by (intro exI [of _ "Inl ENOSPC"] exI [of _ fs1] exI [of _ sv1] exI [of _ u] exI [of _ 0]) (simp add: sfs_blockio_def)
  next
    case (Inr b)
    have b: "b \<noteq> 0" "block_map fs1 (sv_i sv1) ! ?k = b" using bm(3) Inr by simp_all
    note ok = grewD [OF bm(2)]
    have bn: "b < nblocks fs1" using inode_okD(2) [OF ok k] b by simp
    have sm: "small_fs fs1" using assms(3) bm(2) by (simp add: small_fs_def grew_def file_step_def same_rest_def)
    note B = blockio_uio [OF assms(5) sm bn]
    let ?v = "u\<lparr>uio_offset := int (unat (b * of_nat SFS_BLOCKSIZE)), uio_resid := SFS_BLOCKSIZE\<rparr>"
    let ?data = "mem_get m (take 512 (uio_addrs u))"
    have dev: "b < d_blocks (sfs_device fs1)" "disk_wf (sfs_device fs1)" "outcomes (sfs_device fs1) = []"
      using ok(1) bn by (auto simp: fs_ok_def)
    obtain u1 where u1: "advanced ?v 512 u1" "sfs_rwblock curas (sfs_device fs1) m ?v =
        Some (Inr (), (sfs_device fs1)\<lparr>lh_buf := ?data, sectors := (sect fs1)(b := ?data)\<rparr>, m, u1)"
      using rwblock_write [OF B(1) dev(1,2) B(2) _ dev(3)] B(3,4) assms(4) by auto
    let ?u = "u1\<lparr>uio_offset := (uio_offset u1 - int (unat (b * of_nat SFS_BLOCKSIZE))) + uio_offset u,
       uio_resid := nat ((int (uio_resid u1) - int SFS_BLOCKSIZE) + int (uio_resid u))\<rparr>"
    let ?fs = "fs1\<lparr>sfs_device := (sfs_device fs1)\<lparr>lh_buf := ?data, sectors := (sect fs1)(b := ?data)\<rparr>\<rparr>"
    have adv: "advanced u 512 ?u" using B(5) [OF u1(1)] .
    have off: "uio_offset u = int (?k * 512 + 0)" using assms(6,8) div_mult_mod_eq [of off 512] by simp
    have data: "?data = take 0 (fblock fs1 (sv_i sv1) ?k) @ mem_get m (take 512 (uio_addrs u)) @ drop (0 + 512) (fblock fs1 (sv_i sv1) ?k)"
      using ok(1) by simp
    have "wrote m fs1 sv1 u 512 ?fs sv1 ?u"
      by (rule write_piece [OF ok k b(2,1) adv off _ addrs data]) simp
    then have "wrote m fs sv u 512 ?fs sv1 ?u"
      by (rule grew_wrote_trans [OF bm(2) _ assms(6) addrs])
    moreover have "sfs_blockio curas fs sv m u = Some (Inr (), ?fs, sv1, m, ?u)"
      using bm(1) Inr b(1) u1(2) assms(4,6) fb(1) resid by (simp add: sfs_blockio_def SFS_BLOCKSIZE_def Let_def)
    moreover have "nat (uio_offset u) + 512 \<le> max_file" using within_max [OF k, of 512] assms(6,8) by simp
    ultimately show ?thesis by (metis write_resI)
  qed
qed
text \<open>A transfer that goes on after its first \<open>n\<close> bytes.\<close>

lemma write_res_trans:
  assumes "wrote m fs sv u n fs1 sv1 u1" "uio_offset u = int off" "n + k \<le> length (uio_addrs u)" "write_res m fs1 sv1 u1 k res"
    and "0 < n \<longrightarrow> off + n \<le> max_file" "(off + n) mod 512 = 0 \<and> 0 < k \<or> (\<exists>s. res = Some (Inr (), s))"
  shows "write_res m fs sv u (n + k) res"
proof -
  have o: "nat (uio_offset u1) = off + n" "nat (uio_offset u) = off"
    using wroteD(4) [OF assms(1)] assms(2) by (simp_all add: advanced_def nat_add_distrib)
  obtain r fs2 sv2 u2 l where r: "res = Some (r, fs2, sv2, m, u2)" "wrote m fs1 sv1 u1 l fs2 sv2 u2" "l \<le> k" "0 < l \<longrightarrow> off + n + l \<le> max_file"
      "r = Inr () \<and> l = k \<or> stopped (off + n) l k \<and> (r = Inl ENOSPC \<and> disk_full fs2 \<or> r = Inl EFBIG \<and> max_file < off + n + k)"
    using assms(4) unfolding write_res_def o by blast
  have "wrote m fs sv u (n + l) fs2 sv2 u2"
    using r(3) assms(3) by (intro wrote_trans [OF assms(1) r(2) assms(2)]) simp
  moreover have "stopped off (n + l) (n + k)" if "stopped (off + n) l k" "r \<noteq> Inr ()"
    using that assms(6) r(1) by (auto simp: stopped_def add.assoc)
  moreover have "0 < n + l \<longrightarrow> off + (n + l) \<le> max_file" using r(4) assms(5) by (cases "l = 0") (simp_all add: add.assoc)
  ultimately show ?thesis using r(1,3,5) unfolding write_res_def o
    by (intro exI [of _ r] exI [of _ fs2] exI [of _ sv2] exI [of _ u2] exI [of _ "n + l"]) (auto simp: add.assoc)
qed

text \<open>A transfer that may stop after its first part.\<close>

lemma write_res_seq:
  assumes first: "write_res m fs sv u n first" and off: "uio_offset u = int off" and len: "n + k \<le> length (uio_addrs u)"
    and cont: "\<And>fs1 sv1 u1. wrote m fs sv u n fs1 sv1 u1 \<Longrightarrow> first = Some (Inr (), fs1, sv1, m, u1) \<Longrightarrow> write_res m fs1 sv1 u1 k (rest fs1 sv1 m u1)"
    and al: "\<And>fs1 sv1 u1. wrote m fs sv u n fs1 sv1 u1 \<Longrightarrow> (off + n) mod 512 = 0 \<and> 0 < k \<or> (\<exists>s. rest fs1 sv1 m u1 = Some (Inr (), s))"
  shows "write_res m fs sv u (n + k)
    (do { (r, fs, sv, m, u) \<leftarrow> first; case r of Inl e \<Rightarrow> Some (Inl e, fs, sv, m, u) | Inr _ \<Rightarrow> rest fs sv m u })"
proof -
  have o: "nat (uio_offset u) = off" using off by simp
  obtain r fs1 sv1 u1 l where r: "first = Some (r, fs1, sv1, m, u1)" "wrote m fs sv u l fs1 sv1 u1" "l \<le> n" "0 < l \<longrightarrow> off + l \<le> max_file"
      "r = Inr () \<and> l = n \<or> stopped off l n \<and> (r = Inl ENOSPC \<and> disk_full fs1 \<or> r = Inl EFBIG \<and> max_file < off + n)"
    using first unfolding write_res_def o by blast
  show ?thesis
  proof (cases r)
    case (Inl e)
    then have "stopped off l (n + k)" using r(3,5) Inl by (auto simp: stopped_def)
    then have "write_res m fs sv u (n + k) (Some (Inl e, fs1, sv1, m, u1))"
      using r Inl unfolding write_res_def o by (intro exI [of _ "Inl e"] exI [of _ fs1] exI [of _ sv1] exI [of _ u1] exI [of _ l]) auto
    then show ?thesis using Inl r(1) by simp
  next
    case (Inr x)
    then have w: "wrote m fs sv u n fs1 sv1 u1" "first = Some (Inr (), fs1, sv1, m, u1)" "0 < n \<longrightarrow> off + n \<le> max_file" using r by auto
    have "write_res m fs sv u (n + k) (rest fs1 sv1 m u1)" by (rule write_res_trans [OF w(1) off len cont [OF w(1,2)] w(3) al [OF w(1)]])
    then show ?thesis using Inr r(1) by simp
  qed
qed

text \<open>What a transfer needs, and that it still has it after a part of it.\<close>

definition io_ready :: "nat option \<Rightarrow> memory \<Rightarrow> sfs_fs \<Rightarrow> sfs_vnode \<Rightarrow> uio \<Rightarrow> nat \<Rightarrow> nat \<Rightarrow> bool" where
  "io_ready curas m fs sv u off n \<longleftrightarrow> fs_ok fs \<and> inode_ok fs (sv_i sv) \<and> small_fs fs \<and> uio_dir u = UIO_WRITE \<and>
     can_move curas m u n \<and> uio_offset u = int off \<and> off + n < 2 ^ 41"

lemma io_ready_next:
  assumes "io_ready curas m fs sv u off n" "wrote m fs sv u k fs1 sv1 u1" "k \<le> n"
  shows "io_ready curas m fs1 sv1 u1 (off + k) (n - k)" "uio_resid u1 = uio_resid u - k" "n \<le> length (uio_addrs u)"
  using assms(1,3) wroteD [OF assms(2)] io_next [of curas m u n k u1 m off]
  by (simp_all add: io_ready_def small_fs_def) (simp add: can_move_def)

lemma io_ready_part:
  assumes "io_ready curas m fs sv u off n" "k \<le> n"
  shows "io_ready curas m fs sv u off k"
  using assms set_take_subset_set_take [OF assms(2), of "uio_addrs u"] by (auto simp: io_ready_def can_move_def)

lemma io_blocks_write:
  assumes "io_ready curas m fs sv u off (n * 512)" "off mod 512 = 0"
  shows "write_res m fs sv u (n * 512) (io_blocks curas n fs sv m u)"
  using assms
proof (induction n arbitrary: fs sv u off)
  case 0
  then show ?case using write_resI [OF wrote_refl] by (simp add: io_ready_def)
next
  case (Suc n)
  have R: "io_ready curas m fs sv u off 512" using io_ready_part [OF Suc.prems(1)] by simp
  have "write_res m fs sv u (512 + n * 512)
    (do { (r, fs, sv, m, u) \<leftarrow> sfs_blockio curas fs sv m u;
          case r of Inl e \<Rightarrow> Some (Inl e, fs, sv, m, u) | Inr _ \<Rightarrow> io_blocks curas n fs sv m u })"
  proof (rule write_res_seq)
    show "write_res m fs sv u 512 (sfs_blockio curas fs sv m u)"
      using R Suc.prems(2) by (intro blockio_write) (auto simp: io_ready_def)
    show "uio_offset u = int off" "512 + n * 512 \<le> length (uio_addrs u)" using Suc.prems(1) by (simp_all add: io_ready_def can_move_def)
    fix fs1 sv1 u1
    assume "wrote m fs sv u 512 fs1 sv1 u1"
    from io_ready_next(1) [OF Suc.prems(1) this] have "io_ready curas m fs1 sv1 u1 (off + 512) (n * 512)" by simp
    then show "write_res m fs1 sv1 u1 (n * 512) (io_blocks curas n fs1 sv1 m u1)"
      using Suc.prems(2) by (intro Suc.IH [of _ _ _ "off + 512"]) simp_all
    show "(off + 512) mod 512 = 0 \<and> 0 < n * 512 \<or> (\<exists>s. io_blocks curas n fs1 sv1 m u1 = Some (Inr (), s))"
      using Suc.prems(2) by (cases n) simp_all
  qed
  then show ?case by simp
qed

lemma io_last_write:
  assumes "io_ready curas m fs sv u off (uio_resid u)" "off mod 512 = 0" "uio_resid u < 512"
  shows "write_res m fs sv u (uio_resid u)
    (if uio_resid u > 0 then sfs_partialio curas fs sv m u 0 (uio_resid u) else Some (Inr (), fs, sv, m, u))"
proof (cases "uio_resid u > 0")
  case True
  then have "write_res m fs sv u (uio_resid u) (sfs_partialio curas fs sv m u (off mod 512) (uio_resid u))"
    using assms by (intro partialio_write) (auto simp: io_ready_def)
  then show ?thesis using True assms(2) by simp
next
  case False
  then show ?thesis using write_resI [OF wrote_refl] assms(1) by (simp add: io_ready_def)
qed

lemma io_transfer_write:
  assumes "io_ready curas m fs sv u off (uio_resid u)"
  shows "write_res m fs sv u (uio_resid u) (io_transfer curas fs sv m u)"
proof -
  define len where "len = (if off mod 512 = 0 then 0 else min (512 - off mod 512) (uio_resid u))"
  have le: "len \<le> uio_resid u" by (simp add: len_def)
  have off: "uio_offset u = int off" and addrs: "uio_resid u \<le> length (uio_addrs u)" using assms by (simp_all add: io_ready_def can_move_def)
  let ?first = "if off mod 512 \<noteq> 0 then sfs_partialio curas fs sv m u (off mod 512) (min (SFS_BLOCKSIZE - off mod 512) (uio_resid u))
        else Some (Inr (), fs, sv, m, u)"
  let ?tail = "\<lambda>fs sv m u. do {
      KASSERT (uio_resid u < SFS_BLOCKSIZE);
      if uio_resid u > 0 then sfs_partialio curas fs sv m u 0 (uio_resid u) else Some (Inr (), fs, sv, m, u) }"
  let ?rest = "\<lambda>fs sv m u. if uio_resid u = 0 then Some (Inr (), fs, sv, m, u)
         else do {
           KASSERT (uio_offset u smod int SFS_BLOCKSIZE = 0);
           (r, fs, sv, m, u) \<leftarrow> io_blocks curas (uio_resid u div SFS_BLOCKSIZE) fs sv m u;
           case r of Inl e \<Rightarrow> Some (Inl e, fs, sv, m, u) | Inr _ \<Rightarrow> ?tail fs sv m u
         }"
  have un: "io_transfer curas fs sv m u =
      (do { (r, fs, sv, m, u) \<leftarrow> ?first; case r of Inl e \<Rightarrow> Some (Inl e, fs, sv, m, u) | Inr _ \<Rightarrow> ?rest fs sv m u })"
    unfolding io_transfer_def off offset_mod(1) Let_def by simp
  have "write_res m fs sv u len ?first"
  proof (cases "off mod 512 = 0")
    case True
    then show ?thesis using write_resI [OF wrote_refl] assms by (simp add: io_ready_def len_def)
  next
    case False
    have "io_ready curas m fs sv u off len" using io_ready_part [OF assms le] .
    then have "write_res m fs sv u len (sfs_partialio curas fs sv m u (off mod 512) len)"
      using False by (intro partialio_write) (auto simp: io_ready_def len_def)
    then show ?thesis using False by (simp add: len_def SFS_BLOCKSIZE_def)
  qed
  then have "write_res m fs sv u (len + (uio_resid u - len))
      (do { (r, fs, sv, m, u) \<leftarrow> ?first; case r of Inl e \<Rightarrow> Some (Inl e, fs, sv, m, u) | Inr _ \<Rightarrow> ?rest fs sv m u })"
  proof (rule write_res_seq [OF _ off])
    show "len + (uio_resid u - len) \<le> length (uio_addrs u)" using le addrs by simp
    fix fs1 sv1 u1
    assume w: "wrote m fs sv u len fs1 sv1 u1"
    note N = io_ready_next [OF assms w le]
    have R: "io_ready curas m fs1 sv1 u1 (off + len) (uio_resid u1)" using N(1,2) by simp
    have al: "(off + len) mod 512 = 0" if False: "uio_resid u1 \<noteq> 0"
    proof (cases "off mod 512 = 0")
      case nz: False
      then have "len = 512 - off mod 512" using False N(2) by (auto simp: len_def min_def split: if_splits)
      then have "off + len = (off div 512 + 1) * 512" by (simp only: next_block)
      then show ?thesis by simp
    qed (simp add: len_def)
    show "(off + len) mod 512 = 0 \<and> 0 < uio_resid u - len \<or> (\<exists>s. ?rest fs1 sv1 m u1 = Some (Inr (), s))"
      using al N(2) by (cases "uio_resid u1 = 0") simp_all
    show "write_res m fs1 sv1 u1 (uio_resid u - len) (?rest fs1 sv1 m u1)"
    proof (cases "uio_resid u1 = 0")
      case True
      then show ?thesis using N(2) write_resI [OF wrote_refl] R by (simp add: io_ready_def)
    next
      case False
      let ?n = "uio_resid u1 div 512"
      have nle: "?n * 512 \<le> uio_resid u1" by simp
      have off1: "uio_offset u1 = int (off + len)" using R by (simp add: io_ready_def)
      have "write_res m fs1 sv1 u1 (?n * 512 + uio_resid u1 mod 512)
          (do { (r, fs, sv, m, u) \<leftarrow> io_blocks curas ?n fs1 sv1 m u1; case r of Inl e \<Rightarrow> Some (Inl e, fs, sv, m, u) | Inr _ \<Rightarrow> ?tail fs sv m u })"
      proof (rule write_res_seq [OF _ off1])
        show "write_res m fs1 sv1 u1 (?n * 512) (io_blocks curas ?n fs1 sv1 m u1)"
          by (rule io_blocks_write [OF io_ready_part [OF R nle] al [OF False]])
        show "?n * 512 + uio_resid u1 mod 512 \<le> length (uio_addrs u1)" using R by (simp add: io_ready_def can_move_def)
        fix fs2 sv2 u2
        assume "wrote m fs1 sv1 u1 (?n * 512) fs2 sv2 u2"
        note N2 = io_ready_next [OF R this nle]
        have res2: "uio_resid u2 = uio_resid u1 mod 512" using N2(2) by (simp add: minus_div_mult_eq_mod)
        then have "io_ready curas m fs2 sv2 u2 (off + len + ?n * 512) (uio_resid u2)" using N2(1,2) by simp
        moreover have "(off + len + ?n * 512) mod 512 = 0" using al [OF False] by simp
        ultimately show "write_res m fs2 sv2 u2 (uio_resid u1 mod 512) (?tail fs2 sv2 m u2)"
          "(off + len + ?n * 512) mod 512 = 0 \<and> 0 < uio_resid u1 mod 512 \<or> (\<exists>s. ?tail fs2 sv2 m u2 = Some (Inr (), s))"
          using io_last_write [of curas m fs2 sv2 u2] res2 by (auto simp: SFS_BLOCKSIZE_def)
      qed
      moreover have "uio_offset u1 smod int SFS_BLOCKSIZE = 0" unfolding off1 offset_mod(2) using al [OF False] by simp
      ultimately show ?thesis using False N(2) by (simp add: SFS_BLOCKSIZE_def)
    qed
  qed
  then show ?thesis unfolding un using le by simp
qed
section \<open>Files are arrays of bytes\<close>

lemma block_map_size [simp]: "block_map fs (i\<lparr>sfi_size := s\<rparr>) = block_map fs i" "owned fs (i\<lparr>sfi_size := s\<rparr>) = owned fs i"
    "fblock fs (i\<lparr>sfi_size := s\<rparr>) = fblock fs i" "fbyte fs (i\<lparr>sfi_size := s\<rparr>) = fbyte fs i"
    "inode_shape (i\<lparr>sfi_size := s\<rparr>) = inode_shape i"
  by (simp_all add: block_map_def idwords_def owned_def fblock_def fbyte_def inode_shape_def fun_eq_iff)

lemma inode_ok_size [simp]: "inode_ok fs (i\<lparr>sfi_size := s\<rparr>) = inode_ok fs i"
  by (simp add: inode_ok_def)

lemma file_step_size [simp]: "file_step fs i fs' (i'\<lparr>sfi_size := s\<rparr>) = file_step fs i fs' i'"
  by (simp add: file_step_def)

text \<open>The size of a file after a write that ended at \<open>e\<close>.\<close>

definition new_size :: "sfs_inode \<Rightarrow> nat \<Rightarrow> u32" where
  "new_size i e = (if unat (sfi_size i) < e then of_nat e else sfi_size i)"

lemma sfs_io_write:
  assumes "io_ready curas m fs sv u off (uio_resid u)"
  shows "\<exists>r fs' sv' u' n. sfs_io curas fs sv m u = Some (r, fs', sv', m, u') \<and> n \<le> uio_resid u \<and> advanced u n u' \<and>
    (0 < n \<longrightarrow> off + n \<le> max_file) \<and> (r = Inr () \<and> n = uio_resid u \<or> stopped off n (uio_resid u) \<and>
      (r = Inl ENOSPC \<and> disk_full fs' \<or> r = Inl EFBIG \<and> max_file < off + uio_resid u)) \<and>
    file_step fs (sv_i sv) fs' (sv_i sv') \<and> same_vnode sv sv' \<and> sfi_size (sv_i sv') = new_size (sv_i sv) (off + n) \<and>
    (\<forall>p < max_file. fbyte fs' (sv_i sv') p =
      (if off \<le> p \<and> p < off + n then mbytes m (uio_addrs u ! (p - off)) else fbyte fs (sv_i sv) p))"
proof -
  have off: "uio_offset u = int off" and dir: "uio_dir u = UIO_WRITE" using assms by (simp_all add: io_ready_def)
  obtain r fs' sv1 u' n where t: "io_transfer curas fs sv m u = Some (r, fs', sv1, m, u')" "wrote m fs sv u n fs' sv1 u'" "n \<le> uio_resid u" "0 < n \<longrightarrow> off + n \<le> max_file"
      "r = Inr () \<and> n = uio_resid u \<or> stopped off n (uio_resid u) \<and> (r = Inl ENOSPC \<and> disk_full fs' \<or> r = Inl EFBIG \<and> max_file < off + uio_resid u)"
    using io_transfer_write [OF assms] unfolding write_res_def off nat_int by blast
  note W = t(2) [unfolded wrote_def off nat_int]
  have u': "uio_offset u' = int (off + n)" "uio_dir u' = UIO_WRITE" using W off dir by (simp_all add: advanced_def)
  let ?sv = "if int (off + n) > int (unat (sfi_size (sv_i sv1))) then
      sv1\<lparr>sv_i := (sv_i sv1)\<lparr>sfi_size := of_int (int (off + n))\<rparr>, sv_dirty := True\<rparr> else sv1"
  have "sfs_io curas fs sv m u = Some (r, fs', ?sv, m, u')"
    using dir t(1) u' by (simp add: sfs_io_def Let_def)
  moreover have "same_vnode sv ?sv" using W by (auto simp: same_vnode_def)
  moreover have "sfi_size (sv_i ?sv) = new_size (sv_i sv) (off + n)"
    using W unfolding new_size_def of_nat_less_iff of_int_of_nat_eq by simp
  moreover have "file_step fs (sv_i sv) fs' (sv_i ?sv)" using W by simp
  moreover have "\<forall>p < max_file. fbyte fs' (sv_i ?sv) p =
      (if off \<le> p \<and> p < off + n then mbytes m (uio_addrs u ! (p - off)) else fbyte fs (sv_i sv) p)"
  proof -
    have F: "fbyte fs' (sv_i ?sv) = fbyte fs' (sv_i sv1)" by simp
    show ?thesis unfolding F using W by blast
  qed
  moreover have "advanced u n u'" using W by blast
  ultimately show ?thesis using t(3-5)
    by (intro exI [of _ r] exI [of _ fs'] exI [of _ ?sv] exI [of _ u'] exI [of _ n]) (intro conjI; assumption)
qed

text \<open>A small file system for the examples: 4096 blocks, the first four in use, and an empty file.\<close>

definition sample_fs :: sfs_fs where
  "sample_fs = \<lparr>sfs_superblock = \<lparr>sp_magic = SFS_MAGIC, sp_nblocks = 4096, sp_volname = replicate 32 0, sp_reserved = replicate 118 0\<rparr>,
     sfs_superdirty = False, sfs_device = sample_disk [], sfs_vnodes = [], sfs_freemap = \<lparr>nbits = 4096, v = 15 # replicate 511 0\<rparr>,
     sfs_freemapdirty = False, vnode_store = Map.empty\<rparr>"

definition sample_file :: sfs_vnode where
  "sample_file = \<lparr>vn_refcount = 1, vn_opencount = 0, vn_ops = Sfs_fileops,
     sv_i = \<lparr>sfi_size = 0, sfi_type = SFS_TYPE_FILE, sfi_linkcount = 1, sfi_direct = replicate 15 0, sfi_indirect = 0, sfi_waste = replicate 110 0\<rparr>,
     sv_ino = 3, sv_dirty = False\<rparr>"

lemma sample_fs_simps: "sfs_freemap sample_fs = \<lparr>nbits = 4096, v = 15 # replicate 511 0\<rparr>" "nblocks sample_fs = 4096"
    "sfs_device sample_fs = sample_disk []"
  by (simp_all add: sample_fs_def)

lemma sample_fs_ok: "fs_ok sample_fs" "inode_ok sample_fs (sv_i sample_file)" "small_fs sample_fs"
proof -
  have z: "0 \<in> blocks_used sample_fs" by (simp add: sample_fs_simps blocks_used_def bitmap_used_def bit_at_def)
  have "bitmap_wf (sfs_freemap sample_fs)" "disk_wf (sample_disk [])" "outcomes (sample_disk []) = []" "d_blocks (sample_disk []) = 4096"
    by (simp_all add: sample_fs_simps sample_disk_def disk_wf_def bitmap_wf_def)
  then show "fs_ok sample_fs" unfolding fs_ok_def using z by (auto simp: sample_fs_simps)
  have "block_map sample_fs (sv_i sample_file) = replicate 143 0"
    by (simp add: block_map_def idwords_def sample_file_def replicate_add [symmetric])
  then show "inode_ok sample_fs (sv_i sample_file)"
    by (simp add: inode_ok_def owned_def inode_shape_def sample_file_def)
  show "small_fs sample_fs" by (simp add: small_fs_def sample_fs_def)
qed

lemma sample_io_ready:
  "off + n < 2 ^ 32 \<Longrightarrow> io_ready None m sample_fs sample_file (uio_kinit buf n (int off) UIO_WRITE) off n"
  using sample_fs_ok
  by (simp add: io_ready_def can_move_def space_ok_def uio_kinit_def uio_addrs_def may_touch_def)

text \<open>C3: Writing to a file writes an array of bytes. For any offset and length below the limit of the block numbers,
  \<open>sfs_io\<close> stores the bytes that the uio names at consecutive positions of the file, whatever partial and whole
  blocks and whichever holes, direct and indirect blocks they fall on, and changes no other byte of the file. It
  writes everything, or stops early because the disk is full or the largest size of a file is reached; the count of
  what was written, the new size and the state of the uio agree. The blocks it takes were free, the blocks of other
  files keep their contents, and the file stays well-formed.\<close>

theorem sfs_write_bytes:
  assumes "io_ready curas m fs sv u off (uio_resid u)"
  shows "\<exists>r fs' sv' u' n. sfs_io curas fs sv m u = Some (r, fs', sv', m, u') \<and> n \<le> uio_resid u \<and> advanced u n u' \<and>
    (0 < n \<longrightarrow> off + n \<le> max_file) \<and> (r = Inr () \<and> n = uio_resid u \<or> stopped off n (uio_resid u) \<and>
      (r = Inl ENOSPC \<and> disk_full fs' \<or> r = Inl EFBIG \<and> max_file < off + uio_resid u)) \<and>
    file_step fs (sv_i sv) fs' (sv_i sv') \<and> same_vnode sv sv' \<and> sfi_size (sv_i sv') = new_size (sv_i sv) (off + n) \<and>
    (\<forall>p < max_file. fbyte fs' (sv_i sv') p =
      (if off \<le> p \<and> p < off + n then mbytes m (uio_addrs u ! (p - off)) else fbyte fs (sv_i sv) p))"
  using assms by (rule sfs_io_write)

text \<open>Seven hundred bytes at offset 500.\<close>

theorem sfs_write_bytes_witness:
  "\<exists>r fs' sv' u' n. sfs_io None sample_fs sample_file sample_memory (uio_kinit 0x1000 700 500 UIO_WRITE) = Some (r, fs', sv', sample_memory, u') \<and> n \<le> 700 \<and>
     advanced (uio_kinit 0x1000 700 500 UIO_WRITE) n u' \<and> (r = Inr () \<and> n = 700 \<or> r = Inl ENOSPC \<and> disk_full fs')"
proof -
  have r: "uio_resid (uio_kinit 0x1000 700 500 UIO_WRITE) = 700" by (simp add: uio_kinit_def)
  have R: "io_ready None sample_memory sample_fs sample_file (uio_kinit 0x1000 700 500 UIO_WRITE) 500 (uio_resid (uio_kinit 0x1000 700 500 UIO_WRITE))"
    unfolding r using sample_io_ready [where off = 500 and n = 700 and m = sample_memory and buf = "0x1000"] by simp
  show ?thesis using sfs_write_bytes [OF R] unfolding r by (elim exE conjE) (auto simp: max_file_def)
qed

text \<open>A file never has more than 144 blocks, so that many free blocks are enough for any write.\<close>

lemma card_word_below: "card {b :: u32. b < n} = unat n"
proof -
  have "{b :: u32. b < n} = word_of_nat ` {..< unat n}"
  proof (intro set_eqI iffI)
    fix b assume "b \<in> {b :: u32. b < n}"
    then show "b \<in> word_of_nat ` {..< unat n}" by (intro image_eqI [of _ _ "unat b"]) (simp_all add: word_less_nat_alt)
  qed (auto simp: word_less_nat_alt unat_of_nat intro: le_less_trans [OF mod_less_eq_dividend])
  moreover have "inj_on (word_of_nat :: nat \<Rightarrow> u32) {..< unat n}"
  proof (rule inj_onI)
    fix x y assume xy: "x \<in> {..< unat n}" "y \<in> {..< unat n}" "(word_of_nat x :: u32) = word_of_nat y"
    have "unat n < 2 ^ 32" using unsigned_less [of n] by simp
    then have "unat (word_of_nat x :: u32) = x" "unat (word_of_nat y :: u32) = y" using xy(1,2) by (auto intro: unat32)
    with xy(3) show "x = y" by metis
  qed
  ultimately show ?thesis by (simp add: card_image)
qed

lemma enough_room:
  assumes "file_step fs i fs' i'" "card (blocks_used fs) + 144 < unat (nblocks fs)"
  shows "\<not> disk_full fs'"
proof
  assume "disk_full fs'"
  then have "{b. b < nblocks fs'} \<subseteq> blocks_used fs \<union> owned fs' i'" using assms(1) by (auto simp: disk_full_def file_step_def)
  from order_trans [OF card_mono [OF finite this] card_Un_le]
  have "unat (nblocks fs') \<le> card (blocks_used fs) + card (owned fs' i')" unfolding card_word_below .
  moreover have "card (owned fs' i') \<le> 144"
  proof -
    have "length (block_map fs' i') = 143" using assms(1) by (simp add: file_step_def inode_ok_def length_block_map)
    then have "card (set (sfi_indirect i' # block_map fs' i')) \<le> 144" using card_length [of "sfi_indirect i' # block_map fs' i'"] by simp
    moreover have "card (owned fs' i') \<le> card (set (sfi_indirect i' # block_map fs' i'))" by (rule card_mono) (auto simp: owned_def)
    ultimately show ?thesis by linarith
  qed
  ultimately show False using assms by (simp add: file_step_def same_rest_def)
qed

lemma sample_room: "card (blocks_used sample_fs) + 144 < unat (nblocks sample_fs)"
proof -
  have "unat b < 4" if "b \<in> blocks_used sample_fs" for b
  proof -
    have b: "unat b < 4096" "bit ((15 # replicate 511 0) ! (unat b div 8) :: u8) (unat b mod 8)"
      using that by (simp_all add: blocks_used_def bitmap_used_def bit_at_def sample_fs_simps)
    have 0: "unat b div 8 = 0"
    proof (rule ccontr)
      assume "unat b div 8 \<noteq> 0"
      moreover have "unat b div 8 < 512" using b(1) by (simp add: div_less_iff_less_mult)
      ultimately have "(15 # replicate 511 0) ! (unat b div 8) = (0 :: u8)" by (simp add: nth_Cons')
      with b(2) show False by simp
    qed
    have "15 = (mask 4 :: u8)" by (simp add: mask_eq_exp_minus_1)
    moreover have "bit (15 :: u8) (unat b)" using 0 b(2) by simp
    ultimately show ?thesis by (simp only: bit_mask_iff)
  qed
  then have "unat ` blocks_used sample_fs \<subseteq> {..<4}" by auto
  then have "card (unat ` blocks_used sample_fs) \<le> 4" using card_mono [of "{..<4 :: nat}"] by fastforce
  moreover have "card (unat ` blocks_used sample_fs) = card (blocks_used sample_fs)"
    by (rule card_image) (meson inj_onI unsigned_word_eqI)
  ultimately have "card (blocks_used sample_fs) \<le> 4" by simp
  then show ?thesis by (simp add: sample_fs_simps)
qed
text \<open>C10: Reading from a file returns the bytes of the array: \<open>sfs_io\<close> stores the bytes of the file from the given
  offset on at the addresses of the uio, zeros where the file has a hole, up to the end of the file or of the uio,
  whichever comes first. It always succeeds on a disk that works, and leaves all blocks and the file as they were.\<close>

theorem sfs_read_bytes:
  assumes "fs_ok fs" "inode_ok fs (sv_i sv)" "small_fs fs" "uio_dir u = UIO_READ" "can_move curas m u (uio_resid u)"
    and "uio_offset u = int off" "unat (sfi_size (sv_i sv)) \<le> max_file" "n = min (uio_resid u) (unat (sfi_size (sv_i sv)) - off)"
  shows "\<exists>fs' u'. sfs_io curas fs sv m u =
      Some (Inr (), fs', sv, mem_put m (take n (uio_addrs u)) (map (\<lambda>j. fbyte fs (sv_i sv) (off + j)) [0..<n]), u') \<and>
    same_blocks fs fs' \<and> advanced u n u'"
  using sfs_io_read [OF assms(1-7)] assms(6,8) by (simp add: read_res_def read_amount_def)

text \<open>A file of a thousand bytes without blocks reads as zeros.\<close>

theorem sfs_read_bytes_witness:
  "\<exists>fs' u'. sfs_io None sample_fs (sample_file\<lparr>sv_i := (sv_i sample_file)\<lparr>sfi_size := 1000\<rparr>\<rparr>) sample_memory (uio_kinit 0x1000 8 998 UIO_READ) =
      Some (Inr (), fs', sample_file\<lparr>sv_i := (sv_i sample_file)\<lparr>sfi_size := 1000\<rparr>\<rparr>, mem_put sample_memory [0x1000, 0x1001] [0, 0], u')"
proof -
  let ?sv = "sample_file\<lparr>sv_i := (sv_i sample_file)\<lparr>sfi_size := 1000\<rparr>\<rparr>" and ?u = "uio_kinit 0x1000 8 998 UIO_READ"
  have u: "uio_dir ?u = UIO_READ" "can_move None sample_memory ?u (uio_resid ?u)" "uio_offset ?u = int 998"
      "unat (sfi_size (sv_i ?sv)) \<le> max_file" "2 = min (uio_resid ?u) (unat (sfi_size (sv_i ?sv)) - 998)"
    by (simp_all add: uio_kinit_def can_move_def space_ok_def uio_addrs_def may_touch_def max_file_def)
  have a: "take 2 (uio_addrs ?u) = [0x1000, 0x1001]" by (simp add: uio_kinit_def uio_addrs_def addrs_from_def upt_rec)
  have "block_map sample_fs (sv_i ?sv) = replicate 143 0"
    by (simp add: block_map_def idwords_def sample_file_def replicate_add [symmetric])
  then have "map (\<lambda>j. fbyte sample_fs (sv_i ?sv) (998 + j)) [0..<2] = [0, 0]" by (simp add: upt_rec fbyte_def fblock_def)
  then show ?thesis
    using sfs_read_bytes [OF sample_fs_ok(1) _ sample_fs_ok(3) u, simplified inode_ok_size] sample_fs_ok(2) unfolding a by auto
qed

text \<open>C21: What has been written is read back. After a successful write of \<open>n\<close> bytes, a read of \<open>n\<close> bytes at the same
  offset, through any other uio and by any process, delivers exactly these bytes.\<close>

theorem sfs_write_read_back:
  assumes "io_ready curas m fs sv u off (uio_resid u)" "off + uio_resid u \<le> max_file" "unat (sfi_size (sv_i sv)) \<le> max_file"
    and "sfs_io curas fs sv m u = Some (Inr (), fs1, sv1, m1, u1)"
    and "uio_dir w = UIO_READ" "can_move curas2 m2 w (uio_resid w)" "uio_offset w = int off" "uio_resid w = uio_resid u"
  shows "\<exists>fs2 w2. sfs_io curas2 fs1 sv1 m2 w =
    Some (Inr (), fs2, sv1, mem_put m2 (take (uio_resid u) (uio_addrs w)) (mem_get m (take (uio_resid u) (uio_addrs u))), w2) \<and>
    advanced w (uio_resid u) w2"
proof -
  let ?n = "uio_resid u"
  have step: "file_step fs (sv_i sv) fs1 (sv_i sv1)" "sfi_size (sv_i sv1) = new_size (sv_i sv) (off + ?n)"
    and bytes: "\<And>p. p < max_file \<Longrightarrow> off \<le> p \<Longrightarrow> p < off + ?n \<Longrightarrow> fbyte fs1 (sv_i sv1) p = mbytes m (uio_addrs u ! (p - off))"
    using sfs_io_write [OF assms(1)] assms(4) by auto
  have "small_fs fs1" using assms(1) step(1) by (simp add: io_ready_def small_fs_def file_step_def same_rest_def)
  have le: "off + ?n < 2 ^ 32" using assms(2) by (simp add: max_file_def)
  have size: "unat (sfi_size (sv_i sv1)) \<le> max_file" "off + ?n \<le> unat (sfi_size (sv_i sv1))"
    using step(2) assms(2,3) unat32 [OF le] by (auto simp: new_size_def split: if_splits)
  have n: "read_amount (sv_i sv1) w = ?n" using size(2) assms(7,8) by (simp add: read_amount_def)
  have len: "?n \<le> length (uio_addrs u)" using assms(1) by (simp add: io_ready_def can_move_def)
  have "map (\<lambda>j. fbyte fs1 (sv_i sv1) (off + j)) [0..<?n] = mem_get m (take ?n (uio_addrs u))"
    using assms(2) len by (intro nth_equalityI) (simp_all add: mem_get_def bytes)
  then show ?thesis
    using sfs_io_read [OF file_stepD [OF step(1)] \<open>small_fs fs1\<close> assms(5-7) size(1)] assms(7) unfolding n
    by (auto simp: read_res_def)
qed

theorem sfs_write_read_back_witness:
  "\<exists>fs1 sv1 u1 fs2 w2. sfs_io None sample_fs sample_file sample_memory (uio_kinit 0x1000 700 500 UIO_WRITE) = Some (Inr (), fs1, sv1, sample_memory, u1) \<and>
     sfs_io None fs1 sv1 sample_memory (uio_kinit 0x2000 700 500 UIO_READ) =
       Some (Inr (), fs2, sv1, mem_put sample_memory (addrs_from 0x2000 700) (replicate 700 7), w2)"
proof -
  let ?w = "uio_kinit 0x1000 700 500 UIO_WRITE" and ?r = "uio_kinit 0x2000 700 500 UIO_READ"
  have n: "uio_resid ?w = 700" by (simp add: uio_kinit_def)
  have R: "io_ready None sample_memory sample_fs sample_file ?w 500 (uio_resid ?w)"
    unfolding n using sample_io_ready [where off = 500 and n = 700 and m = sample_memory and buf = "0x1000"] by simp
  obtain r fs1 sv1 u1 where w: "sfs_io None sample_fs sample_file sample_memory ?w = Some (r, fs1, sv1, sample_memory, u1)"
      "r = Inr () \<or> disk_full fs1" "file_step sample_fs (sv_i sample_file) fs1 (sv_i sv1)"
    using sfs_io_write [OF R] unfolding n by (elim exE conjE) (auto simp: max_file_def)
  then have w1: "sfs_io None sample_fs sample_file sample_memory ?w = Some (Inr (), fs1, sv1, sample_memory, u1)"
    using enough_room [OF w(3) sample_room] by simp
  have r: "uio_dir ?r = UIO_READ" "can_move None sample_memory ?r (uio_resid ?r)" "uio_offset ?r = int 500" "uio_resid ?r = uio_resid ?w"
      "500 + uio_resid ?w \<le> max_file" "unat (sfi_size (sv_i sample_file)) \<le> max_file"
    by (simp_all add: uio_kinit_def can_move_def space_ok_def uio_addrs_def may_touch_def max_file_def sample_file_def)
  have a: "take 700 (uio_addrs ?r) = addrs_from 0x2000 700" "mem_get sample_memory (take 700 (uio_addrs ?w)) = replicate 700 7"
    by (simp_all add: uio_kinit_def uio_addrs_def mem_get_def sample_memory_def map_replicate_const)
  show ?thesis using sfs_write_read_back [OF R r(5,6) w1 r(1-4)] w1 unfolding n a by blast
qed

section \<open>Truncating\<close>

text \<open>Both loops of \<open>sfs_truncate\<close> free the entries of an array of block numbers that satisfy a test. The entries are
  in use and different from each other; afterwards the entries are 0 and their blocks free.\<close>

definition freeable :: "sfs_fs \<Rightarrow> nat list \<Rightarrow> u32 list \<Rightarrow> bool" where
  "freeable fs ks D \<longleftrightarrow> distinct ks \<and> (\<forall>k \<in> set ks. k < length D \<and> (D ! k \<noteq> 0 \<longrightarrow> D ! k \<in> blocks_used fs \<and> D ! k < nblocks fs)) \<and>
     (\<forall>j \<in> set ks. \<forall>k \<in> set ks. D ! j \<noteq> 0 \<and> D ! j = D ! k \<longrightarrow> j = k)"

definition freed_from :: "(nat \<Rightarrow> bool) \<Rightarrow> sfs_fs \<Rightarrow> nat list \<Rightarrow> u32 list \<Rightarrow> sfs_fs \<Rightarrow> u32 list \<Rightarrow> bool" where
  "freed_from P fs ks D fs' D' \<longleftrightarrow> fs_ok fs' \<and> same_rest fs fs' \<and> sfs_device fs' = sfs_device fs \<and> length D' = length D \<and>
     (\<forall>k < length D. D' ! k = (if k \<in> set ks \<and> P k then 0 else D ! k)) \<and>
     blocks_used fs' = blocks_used fs - {b. b \<noteq> 0 \<and> (\<exists>k \<in> set ks. P k \<and> D ! k = b)}"

lemma freed_nothing: "fs_ok fs \<Longrightarrow> freed_from P fs [] D fs D"
  by (simp add: freed_from_def)

lemma freeable_tl: "freeable fs (k # ks) D \<Longrightarrow> freeable fs ks D"
  unfolding freeable_def by simp blast

lemma freed_skip:
  assumes "freed_from P fs ks D fs' D'" "\<not> (P k \<and> D ! k \<noteq> 0)"
  shows "freed_from P fs (k # ks) D fs' D'"
  using assms unfolding freed_from_def by (auto split: if_splits)

lemma free_entry:
  assumes "fs_ok fs" "freeable fs (k # ks) D" "P k" "D ! k \<noteq> 0"
  shows "\<exists>fs1. sfs_bfree fs (D ! k) = Some fs1 \<and> fs_ok fs1 \<and> freeable fs1 ks (D[k := 0]) \<and>
    (\<forall>fs' D'. freed_from P fs1 ks (D[k := 0]) fs' D' \<longrightarrow> freed_from P fs (k # ks) D fs' D')"
proof -
  have k: "D ! k \<in> blocks_used fs" "D ! k < nblocks fs" "k < length D" "k \<notin> set ks" using assms(2,4) by (auto simp: freeable_def)
  obtain fs1 where fs1: "sfs_bfree fs (D ! k) = Some fs1" "fs_ok fs1" "same_rest fs fs1" "sfs_device fs1 = sfs_device fs"
      "blocks_used fs1 = blocks_used fs - {D ! k}"
    using sfs_bfree_ok [OF assms(1) k(1,2) assms(4)] by blast
  have nth: "D[k := 0] ! j = D ! j" if "j \<in> set ks" for j using that k(4) by (metis nth_list_update_neq)
  have dis: "D ! j \<noteq> D ! k" if "j \<in> set ks" for j
    using that assms(2,4) k(4) unfolding freeable_def by (metis list.set_intros(1,2))
  have "freeable fs1 ks (D[k := 0])"
    using assms(2) fs1(3,5) nth dis by (auto simp: freeable_def same_rest_def)
  moreover have "freed_from P fs (k # ks) D fs' D'" if "freed_from P fs1 ks (D[k := 0]) fs' D'" for fs' D'
  proof -
    note T = that [unfolded freed_from_def]
    have "same_rest fs fs'" using fs1(3) T same_rest_trans by blast
    moreover have "D' ! j = (if j \<in> set (k # ks) \<and> P j then 0 else D ! j)" if "j < length D" for j
      using T that assms(3) k(3,4) by (auto simp: nth_list_update)
    moreover have "blocks_used fs' = blocks_used fs - {b. b \<noteq> 0 \<and> (\<exists>j \<in> set (k # ks). P j \<and> D ! j = b)}"
      using T fs1(5) assms(3,4) nth by auto
    ultimately show ?thesis using T fs1(4) unfolding freed_from_def by simp
  qed
  ultimately show ?thesis using fs1(1,2) by blast
qed

lemma truncate_direct_ok:
  "fs_ok fs \<Longrightarrow> freeable fs ks (sfi_direct (sv_i sv)) \<Longrightarrow>
    \<exists>fs' sv' D. truncate_direct ks bl fs sv = Some (fs', sv') \<and> freed_from (\<lambda>k. bl \<le> of_nat k) fs ks (sfi_direct (sv_i sv)) fs' D \<and>
      sv_i sv' = (sv_i sv)\<lparr>sfi_direct := D\<rparr> \<and> same_vnode sv sv'"
proof (induction ks bl fs sv rule: truncate_direct.induct)
  case (1 bl fs sv)
  then show ?case using freed_nothing by force
next
  case (2 k ks bl fs sv)
  let ?D = "sfi_direct (sv_i sv)"
  have k: "k < length ?D" using "2.prems"(2) by (simp add: freeable_def)
  show ?case
  proof (cases "bl \<le> of_nat k \<and> ?D ! k \<noteq> 0")
    case True
    let ?sv = "sv\<lparr>sv_i := (sv_i sv)\<lparr>sfi_direct := ?D[k := 0]\<rparr>, sv_dirty := True\<rparr>"
    obtain fs1 where fs1: "sfs_bfree fs (?D ! k) = Some fs1" "fs_ok fs1" "freeable fs1 ks (?D[k := 0])"
        "\<And>fs' D'. freed_from (\<lambda>k. bl \<le> of_nat k) fs1 ks (?D[k := 0]) fs' D' \<Longrightarrow> freed_from (\<lambda>k. bl \<le> of_nat k) fs (k # ks) ?D fs' D'"
      using free_entry [OF "2.prems", of "\<lambda>k. bl \<le> of_nat k"] True by blast
    have "\<exists>fs' sv' D. truncate_direct ks bl fs1 ?sv = Some (fs', sv') \<and> freed_from (\<lambda>k. bl \<le> of_nat k) fs1 ks (sfi_direct (sv_i ?sv)) fs' D \<and>
      sv_i sv' = (sv_i ?sv)\<lparr>sfi_direct := D\<rparr> \<and> same_vnode ?sv sv'"
      by (rule "2.IH"(1) [OF _ True]) (use k fs1 in simp_all)
    then show ?thesis using True k fs1(1,4) by (force simp: same_vnode_def)
  next
    case False
    have "\<exists>fs' sv' D. truncate_direct ks bl fs sv = Some (fs', sv') \<and> freed_from (\<lambda>k. bl \<le> of_nat k) fs ks ?D fs' D \<and>
      sv_i sv' = (sv_i sv)\<lparr>sfi_direct := D\<rparr> \<and> same_vnode sv sv'"
      by (rule "2.IH"(2) [OF _ False]) (use k "2.prems" freeable_tl in auto)
    then show ?thesis using False k freed_skip [of "\<lambda>k. bl \<le> of_nat k"] by force
  qed
qed

lemma truncate_indirect_ok:
  "fs_ok fs \<Longrightarrow> freeable fs ks D \<Longrightarrow>
    \<exists>fs' D'. truncate_indirect ks bl fs D h d = Some (fs', D', h \<or> (\<exists>k \<in> set ks. D' ! k \<noteq> 0), d \<or> D' \<noteq> D) \<and>
      freed_from (\<lambda>k. bl < of_nat (15 + k)) fs ks D fs' D'"
proof (induction ks bl fs D h d rule: truncate_indirect.induct)
  case (1 bl fs D h d)
  then show ?case using freed_nothing by force
next
  case (2 k ks bl fs D h d)
  let ?P = "\<lambda>k. bl < of_nat (15 + k)"
  have k: "k < length D" "k \<notin> set ks" using "2.prems"(2) by (auto simp: freeable_def)
  show ?case
  proof (cases "?P k \<and> D ! k \<noteq> 0")
    case True
    obtain fs1 where fs1: "sfs_bfree fs (D ! k) = Some fs1" "fs_ok fs1" "freeable fs1 ks (D[k := 0])"
        "\<And>fs' D'. freed_from ?P fs1 ks (D[k := 0]) fs' D' \<Longrightarrow> freed_from ?P fs (k # ks) D fs' D'"
      using free_entry [OF "2.prems", of ?P] True by blast
    have "\<exists>fs' D'. truncate_indirect ks bl fs1 (D[k := 0]) h True = Some (fs', D', h \<or> (\<exists>k \<in> set ks. D' ! k \<noteq> 0), True \<or> D' \<noteq> D[k := 0]) \<and>
      freed_from ?P fs1 ks (D[k := 0]) fs' D'"
      by (rule "2.IH"(1)) (use k fs1 True in \<open>simp_all add: SFS_NDIRECT_def\<close>)
    then obtain fs' D' where r: "truncate_indirect ks bl fs1 (D[k := 0]) h True = Some (fs', D', h \<or> (\<exists>k \<in> set ks. D' ! k \<noteq> 0), True)"
      "freed_from ?P fs (k # ks) D fs' D'" using fs1(4) by auto
    then have "D' ! k = 0" using k True by (simp add: freed_from_def)
    then show ?thesis using r True k fs1(1) by (auto simp: SFS_NDIRECT_def)
  next
    case False
    have "\<exists>fs' D'. truncate_indirect ks bl fs D (h \<or> D ! k \<noteq> 0) d = Some (fs', D', (h \<or> D ! k \<noteq> 0) \<or> (\<exists>k \<in> set ks. D' ! k \<noteq> 0), d \<or> D' \<noteq> D) \<and>
      freed_from ?P fs ks D fs' D'"
      by (rule "2.IH"(2)) (use k False "2.prems" freeable_tl in \<open>auto simp: SFS_NDIRECT_def\<close>)
    then obtain fs' D' where r: "truncate_indirect ks bl fs D (h \<or> D ! k \<noteq> 0) d = Some (fs', D', (h \<or> D ! k \<noteq> 0) \<or> (\<exists>k \<in> set ks. D' ! k \<noteq> 0), d \<or> D' \<noteq> D)"
      "freed_from ?P fs (k # ks) D fs' D'" "freed_from ?P fs ks D fs' D'" using freed_skip False by blast
    then have "D' ! k = D ! k" using k by (simp add: freed_from_def)
    then show ?thesis using r(1,2) False k by (auto simp: SFS_NDIRECT_def)
  qed
qed
text \<open>What remains of a file when the blocks without \<open>Q\<close> are taken from it.\<close>

lemma truncated:
  assumes fs: "fs_ok fs" "inode_ok fs i" "fs_ok fs'" "same_rest fs fs'" "inode_shape i'"
    and ind: "sfi_indirect i' = 0 \<or> sfi_indirect i' = sfi_indirect i"
    and map: "\<forall>k < 143. block_map fs' i' ! k = (if Q k then block_map fs i ! k else 0)"
    and used: "blocks_used fs' = blocks_used fs - {b. b \<noteq> 0 \<and> (\<exists>k < 143. \<not> Q k \<and> block_map fs i ! k = b)} -
      (if sfi_indirect i' = sfi_indirect i then {} else {sfi_indirect i})"
    and sect: "\<forall>b. b \<noteq> sfi_indirect i \<or> b = 0 \<longrightarrow> sect fs' b = sect fs b"
  shows "inode_ok fs' i'" "owned fs' i' \<subseteq> owned fs i" "blocks_used fs' = blocks_used fs - (owned fs i - owned fs' i')"
    "\<forall>k < 143. fblock fs' i' k = (if Q k then fblock fs i k else replicate 512 0)"
    "\<forall>b \<in> blocks_used fs - owned fs i. sect fs' b = sect fs b"
proof -
  have shape: "inode_shape i" and sub: "owned fs i \<subseteq> blocks_used fs" using fs(2) by (simp_all add: inode_ok_def)
  have own': "b \<in> owned fs' i' \<longleftrightarrow> b \<noteq> 0 \<and> (b = sfi_indirect i' \<or> (\<exists>k < 143. Q k \<and> block_map fs i ! k = b))" for b
    unfolding owned_iff [OF fs(3,5)] using map by metis
  show le: "owned fs' i' \<subseteq> owned fs i"
  proof
    fix b assume "b \<in> owned fs' i'"
    then show "b \<in> owned fs i" unfolding own' owned_iff [OF fs(1) shape] using ind by auto
  qed
  have uniq: "j = k" if "j < 143" "k < 143" "block_map fs i ! j = b" "block_map fs i ! k = b" "b \<noteq> 0" for j k b
    using inode_okD(4) [OF fs(1,2) that(2) _ that(1)] that by simp
  have ni: "block_map fs i ! k \<noteq> sfi_indirect i" if "k < 143" "block_map fs i ! k \<noteq> 0" for k
    using inode_okD(3) [OF fs(1,2)] that by blast
  have gone: "b \<in> owned fs i - owned fs' i' \<longleftrightarrow>
      b \<noteq> 0 \<and> (\<exists>k < 143. \<not> Q k \<and> block_map fs i ! k = b) \<or> b \<noteq> 0 \<and> b = sfi_indirect i \<and> sfi_indirect i' \<noteq> sfi_indirect i" for b
    unfolding Diff_iff own' owned_iff [OF fs(1) shape] using uniq ni ind by metis
  have b0: "0 \<in> blocks_used fs'" using fs(3) by (simp add: fs_okD)
  show U: "blocks_used fs' = blocks_used fs - (owned fs i - owned fs' i')"
  proof (rule set_eqI)
    fix b show "b \<in> blocks_used fs' \<longleftrightarrow> b \<in> blocks_used fs - (owned fs i - owned fs' i')"
      unfolding Diff_iff [of b "blocks_used fs"] gone unfolding used using b0 [unfolded used] by (auto split: if_splits)
  qed
  have "owned fs' i' \<subseteq> blocks_used fs'" unfolding U using le sub by blast
  moreover have "b < nblocks fs'" if "b \<in> owned fs' i'" for b using that le fs(2,4) by (auto simp: inode_ok_def same_rest_def)
  moreover have "j = k" if "j < 143" "k < 143" "block_map fs' i' ! j \<noteq> 0 \<and> block_map fs' i' ! j = block_map fs' i' ! k" for j k
    using that map uniq by (metis (full_types))
  moreover have "block_map fs' i' ! j \<noteq> sfi_indirect i'" if "j < 143" "block_map fs' i' ! j \<noteq> 0" for j
    using that map ind ni by metis
  ultimately show "inode_ok fs' i'" unfolding inode_ok_def using fs(5) by blast
  show "\<forall>k < 143. fblock fs' i' k = (if Q k then fblock fs i k else replicate 512 0)"
    using map sect ni unfolding fblock_def by simp
  show "\<forall>b \<in> blocks_used fs - owned fs i. sect fs' b = sect fs b"
    using sect owned_iff [OF fs(1) shape] by blast
qed

text \<open>The blocks that \<open>sfs_truncate\<close> keeps, for a length of \<open>bl\<close> blocks: the test for the direct blocks is \<open>i >= blocklen\<close>,
  that for the indirect ones \<open>blocklen < baseblock + j\<close>.\<close>

definition kept :: "u32 \<Rightarrow> nat \<Rightarrow> bool" where
  "kept bl k \<longleftrightarrow> (if k < 15 then of_nat k < bl else of_nat k \<le> bl)"

lemma ex_143: "(\<exists>k < (143 :: nat). R k) \<longleftrightarrow> (\<exists>k < 15. R k) \<or> (\<exists>k < 128. R (15 + k))"
proof
  assume "\<exists>k < 143. R k"
  then obtain k where k: "k < 143" "R k" by blast
  show "(\<exists>k < 15. R k) \<or> (\<exists>k < 128. R (15 + k))"
  proof (cases "k < 15")
    case False
    then have "k - 15 < 128" "R (15 + (k - 15))" using k by simp_all
    then show ?thesis by blast
  qed (use k in blast)
next
  assume "(\<exists>k < 15. R k) \<or> (\<exists>k < 128. R (15 + k))"
  then show "\<exists>k < 143. R k"
  proof
    assume "\<exists>k < 15. R k"
    then obtain k where "k < 15" "R k" by blast
    then show ?thesis by (intro exI [of _ k]) simp
  next
    assume "\<exists>k < 128. R (15 + k)"
    then obtain k where "15 + k < 143" "R (15 + k)" by auto
    then show ?thesis by blast
  qed
qed
text \<open>The state after the loop over the direct blocks, and what the indirect block adds to it.\<close>

lemma block_map_nth:
  assumes "fs_ok fs" "inode_shape i" "k < 143"
  shows "block_map fs i ! k = (if k < 15 then sfi_direct i ! k else idwords fs i ! (k - 15))"
  using assms by (simp add: block_map_def inode_shape_def nth_append)

lemma truncated_map:
  assumes "fs_ok fs" "inode_shape i" "fs_ok fs'" "inode_shape i'"
    and "\<forall>k < 15. sfi_direct i' ! k = (if bl \<le> of_nat k then 0 else sfi_direct i ! k)"
    and "\<forall>k < 128. idwords fs' i' ! k = (if bl < of_nat (15 + k) then 0 else idwords fs i ! k)"
  shows "\<forall>k < 143. block_map fs' i' ! k = (if kept bl k then block_map fs i ! k else 0)"
proof (intro allI impI)
  fix k :: nat assume k: "k < 143"
  show "block_map fs' i' ! k = (if kept bl k then block_map fs i ! k else 0)"
  proof (cases "k < 15")
    case True
    then show ?thesis using assms(5) by (simp add: block_map_nth [OF assms(1,2) k] block_map_nth [OF assms(3,4) k] kept_def leD not_le)
  next
    case False
    then have k15: "k - 15 < 128" "15 + (k - 15) = k" using k by simp_all
    have "idwords fs' i' ! (k - 15) = (if bl < of_nat k then 0 else idwords fs i ! (k - 15))"
      using assms(6) [rule_format, OF k15(1)] unfolding k15(2) .
    then show ?thesis using False
      by (simp add: block_map_nth [OF assms(1,2) k] block_map_nth [OF assms(3,4) k] kept_def leD not_le)
  qed
qed

lemma truncated_used:
  assumes "fs_ok fs" "inode_shape i"
  shows "{b. b \<noteq> 0 \<and> (\<exists>k < 143. \<not> kept bl k \<and> block_map fs i ! k = b)} =
    {b. b \<noteq> 0 \<and> (\<exists>k < 15. bl \<le> of_nat k \<and> sfi_direct i ! k = b)} \<union>
    {b. b \<noteq> 0 \<and> (\<exists>k < 128. bl < of_nat (15 + k) \<and> idwords fs i ! k = b)}"
proof -
  have "(\<exists>k < 143. \<not> kept bl k \<and> block_map fs i ! k = b) \<longleftrightarrow>
      (\<exists>k < 15. bl \<le> of_nat k \<and> sfi_direct i ! k = b) \<or> (\<exists>k < 128. bl < of_nat (15 + k) \<and> idwords fs i ! k = b)" for b
    unfolding ex_143 using assms by (simp add: block_map_nth kept_def not_less not_le cong: conj_cong)
  then show ?thesis by blast
qed

text \<open>Truncating a file does to the file what \<open>kept\<close> says.\<close>

definition truncates :: "sfs_fs \<Rightarrow> sfs_vnode \<Rightarrow> int \<Rightarrow> sfs_fs \<Rightarrow> sfs_vnode \<Rightarrow> bool" where
  "truncates fs sv len fs' sv' \<longleftrightarrow>
     fs_ok fs' \<and> inode_ok fs' (sv_i sv') \<and> same_rest fs fs' \<and> same_vnode sv sv' \<and> sv_dirty sv' \<and> sfi_size (sv_i sv') = of_int len \<and>
     sfi_type (sv_i sv') = sfi_type (sv_i sv) \<and> sfi_linkcount (sv_i sv') = sfi_linkcount (sv_i sv) \<and>
     owned fs' (sv_i sv') \<subseteq> owned fs (sv_i sv) \<and>
     blocks_used fs' = blocks_used fs - (owned fs (sv_i sv) - owned fs' (sv_i sv')) \<and>
     (\<forall>k < 143. block_map fs' (sv_i sv') ! k = (if kept (block_length len) k then block_map fs (sv_i sv) ! k else 0)) \<and>
     (sfi_indirect (sv_i sv') \<noteq> 0 \<and> block_length len < 142 \<longrightarrow> (\<exists>k < 143. 15 \<le> k \<and> block_map fs' (sv_i sv') ! k \<noteq> 0)) \<and>
     (\<forall>k < 143. fblock fs' (sv_i sv') k = (if kept (block_length len) k then fblock fs (sv_i sv) k else replicate 512 0)) \<and>
     (\<forall>b \<in> blocks_used fs - owned fs (sv_i sv). sect fs' b = sect fs b)"

lemma truncatesI:
  assumes "fs_ok fs" "inode_ok fs (sv_i sv)" "fs_ok fs'" "same_rest fs fs'" "same_vnode sv sv'"
    and "sv_i sv' = (sv_i sv)\<lparr>sfi_direct := D, sfi_indirect := ib\<rparr>" "length D = 15" "ib = 0 \<or> ib = sfi_indirect (sv_i sv)"
    and "\<forall>k < 15. D ! k = (if block_length len \<le> of_nat k then 0 else sfi_direct (sv_i sv) ! k)"
    and "\<forall>k < 128. idwords fs' (sv_i sv') ! k = (if block_length len < of_nat (15 + k) then 0 else idwords fs (sv_i sv) ! k)"
    and "blocks_used fs' = blocks_used fs - {b. b \<noteq> 0 \<and> (\<exists>k < 15. block_length len \<le> of_nat k \<and> sfi_direct (sv_i sv) ! k = b)} -
      {b. b \<noteq> 0 \<and> (\<exists>k < 128. block_length len < of_nat (15 + k) \<and> idwords fs (sv_i sv) ! k = b)} -
      (if ib = sfi_indirect (sv_i sv) then {} else {sfi_indirect (sv_i sv)})"
    and "\<forall>b. b \<noteq> sfi_indirect (sv_i sv) \<or> b = 0 \<longrightarrow> sect fs' b = sect fs b"
    and "ib \<noteq> 0 \<and> block_length len < 142 \<longrightarrow> (\<exists>k < 128. idwords fs' (sv_i sv') ! k \<noteq> 0)"
  shows "truncates fs sv len fs' (sv'\<lparr>sv_i := (sv_i sv')\<lparr>sfi_size := of_int len\<rparr>, sv_dirty := True\<rparr>)"
proof -
  let ?i = "(sv_i sv')\<lparr>sfi_size := of_int len\<rparr>"
  have shape: "inode_shape (sv_i sv)" "inode_shape ?i" using assms(2,6,7) by (simp_all add: inode_ok_def inode_shape_def)
  have idw: "idwords fs' ?i = idwords fs' (sv_i sv')" by (simp add: idwords_def)
  have map: "\<forall>k < 143. block_map fs' ?i ! k = (if kept (block_length len) k then block_map fs (sv_i sv) ! k else 0)"
    using assms(6,9,10) by (intro truncated_map [OF assms(1) shape(1) assms(3) shape(2)]) (simp, unfold idw, blast)
  have ind: "sfi_indirect ?i = 0 \<or> sfi_indirect ?i = sfi_indirect (sv_i sv)" using assms(6,8) by auto
  have used: "blocks_used fs' = blocks_used fs - {b. b \<noteq> 0 \<and> (\<exists>k < 143. \<not> kept (block_length len) k \<and> block_map fs (sv_i sv) ! k = b)} -
      (if sfi_indirect ?i = sfi_indirect (sv_i sv) then {} else {sfi_indirect (sv_i sv)})"
    unfolding truncated_used [OF assms(1) shape(1)] assms(11) using assms(6) by (simp add: Diff_Un Diff_eq Int_assoc)
  note T = truncated [OF assms(1-4) shape(2) ind map used assms(12)]
  have rest: "sfi_type ?i = sfi_type (sv_i sv)" "sfi_linkcount ?i = sfi_linkcount (sv_i sv)" using assms(6) by simp_all
  have "\<exists>k < 143. 15 \<le> k \<and> block_map fs' ?i ! k \<noteq> 0" if ib: "ib \<noteq> 0" "block_length len < 142"
  proof -
    obtain k where k: "k < 128" "idwords fs' (sv_i sv') ! k \<noteq> 0" using assms(13) ib by blast
    then have "block_map fs' ?i ! (15 + k) \<noteq> 0" by (simp only: block_map_nth [OF assms(3) shape(2), of "15 + k"] idw) simp
    then show ?thesis using k(1) by (intro exI [of _ "15 + k"]) simp
  qed
  then show ?thesis unfolding truncates_def using T map rest assms(3-6) by (simp add: same_vnode_def)
qed
lemma inode_freeable:
  assumes "fs_ok fs" "inode_ok fs i"
  shows "freeable fs [0..<15] (sfi_direct i)" "freeable fs [0..<128] (idwords fs i)"
proof -
  have shape: "inode_shape i" using assms(2) by (simp add: inode_ok_def)
  have d: "sfi_direct i ! k = block_map fs i ! k" if "k < 15" for k using that block_map_nth [OF assms(1) shape, of k] by simp
  have w: "idwords fs i ! k = block_map fs i ! (15 + k)" if "k < 128" for k using that block_map_nth [OF assms(1) shape, of "15 + k"] by simp
  show "freeable fs [0..<15] (sfi_direct i)"
    unfolding freeable_def using shape inode_okD [OF assms] by (auto simp: inode_shape_def d)
  have "j = k" if "j < 128" "k < 128" "idwords fs i ! j \<noteq> 0 \<and> idwords fs i ! j = idwords fs i ! k" for j k
    using inode_okD(4) [OF assms, of "15 + k" "15 + j"] that by (auto simp: w)
  then show "freeable fs [0..<128] (idwords fs i)"
    unfolding freeable_def using assms(1) inode_okD(1,2) [OF assms] by (auto simp: w)
qed

lemma sfs_truncate_ok:
  assumes "fs_ok fs" "inode_ok fs (sv_i sv)"
  shows "\<exists>fs' sv'. sfs_truncate fs sv len = Some (Inr (), fs', sv') \<and> truncates fs sv len fs' sv'"
proof -
  define bl where "bl = block_length len"
  let ?i = "sv_i sv" and ?ib = "sfi_indirect (sv_i sv)" and ?done = "\<lambda>s. s\<lparr>sv_i := (sv_i s)\<lparr>sfi_size := of_int len\<rparr>, sv_dirty := True\<rparr>"
  obtain fs1 sv1 D where d: "truncate_direct [0..<15] bl fs sv = Some (fs1, sv1)" "freed_from (\<lambda>k. bl \<le> of_nat k) fs [0..<15] (sfi_direct ?i) fs1 D"
      "sv_i sv1 = ?i\<lparr>sfi_direct := D\<rparr>" "same_vnode sv sv1"
    using truncate_direct_ok [OF assms(1) inode_freeable(1) [OF assms]] by blast
  have len: "length (sfi_direct ?i) = 15" using assms(2) by (simp add: inode_ok_def inode_shape_def)
  have D: "length D = 15" "\<forall>k < 15. D ! k = (if bl \<le> of_nat k then 0 else sfi_direct ?i ! k)"
    and fs1: "fs_ok fs1" "same_rest fs fs1" "sfs_device fs1 = sfs_device fs"
      "blocks_used fs1 = blocks_used fs - {b. b \<noteq> 0 \<and> (\<exists>k < 15. bl \<le> of_nat k \<and> sfi_direct ?i ! k = b)}"
    using d(2) len by (auto simp: freed_from_def)
  have i1: "sfi_indirect (sv_i sv1) = ?ib" using d(3) by simp
  show ?thesis
  proof (cases "bl < 142 \<and> ?ib \<noteq> 0")
    case False
    have "bl < of_nat (15 + k) \<Longrightarrow> idwords fs ?i ! k = 0" if k: "k < 128" for k
    proof (cases "?ib = 0")
      case True
      then show ?thesis using k by (simp add: idwords_def)
    next
      case ib: False
      assume lt: "bl < of_nat (15 + k)"
      have "unat (of_nat (15 + k) :: u32) = 15 + k" using k by (intro unat32) simp
      then show ?thesis using False ib lt k by (simp add: word_less_nat_alt del: of_nat_add)
    qed
    then have e: "{b. b \<noteq> 0 \<and> (\<exists>k < 128. bl < of_nat (15 + k) \<and> idwords fs ?i ! k = b)} = {}"
      "\<forall>k < 128. idwords fs1 (sv_i sv1) ! k = (if bl < of_nat (15 + k) then 0 else idwords fs ?i ! k)"
      using fs1(3) d(3) by (auto simp: idwords_def)
    have "truncates fs sv len fs1 (?done sv1)"
    proof (rule truncatesI [OF assms fs1(1,2) d(4), where D = D and ib = ?ib and len = len, folded bl_def])
      show "blocks_used fs1 = blocks_used fs - {b. b \<noteq> 0 \<and> (\<exists>k < 15. bl \<le> of_nat k \<and> sfi_direct ?i ! k = b)} -
          {b. b \<noteq> 0 \<and> (\<exists>k < 128. bl < of_nat (15 + k) \<and> idwords fs ?i ! k = b)} - (if ?ib = ?ib then {} else {?ib})"
        unfolding fs1(4) e(1) by simp
      show "sv_i sv1 = ?i\<lparr>sfi_direct := D, sfi_indirect := ?ib\<rparr>" using d(3) by simp
    qed (use D e(2) fs1(3) False in auto)
    moreover have "sfs_truncate fs sv len = Some (Inr (), fs1, ?done sv1)"
      using d(1) False by (auto simp: sfs_truncate_def SFS_NDIRECT_def SFS_DBPERIDB_def bl_def [symmetric] i1)
    ultimately show ?thesis by blast
  next
    case True
    note ib = indirect_ok [OF assms(2), THEN conjunct1] indirect_ok [OF assms(2), THEN conjunct2]
    let ?W = "idwords fs ?i"
    define fs2 where "fs2 = fs1\<lparr>sfs_device := (sfs_device fs1)\<lparr>lh_buf := sect fs ?ib\<rparr>\<rparr>"
    have fs2: "fs_ok fs2" "same_rest fs fs2" "sect fs2 = sect fs" "blocks_used fs2 = blocks_used fs1"
      using fs1 fs_ok_buf [OF fs1(1), of "sect fs ?ib"] assms(1) by (simp_all add: fs2_def same_rest_def blocks_used_def)
    have rd: "sfs_rblock (sfs_device fs1) ?ib = Some (Inr (sect fs ?ib), sfs_device fs2)" "words32 (sect fs ?ib) = ?W"
      using read_sect [OF fs1(1), of ?ib] fs1(2,3) ib True by (simp_all add: fs2_def same_rest_def idwords_def)
    have W: "?W ! k \<noteq> sfi_direct ?i ! j" if "j < 15" "k < 128" "?W ! k \<noteq> 0" for j k
      using inode_okD(4) [OF assms, of "15 + k" j] that block_map_nth [OF assms(1), of ?i j] block_map_nth [OF assms(1), of ?i "15 + k"] assms(2)
      by (auto simp: inode_ok_def)
    have "freeable fs2 [0..<128] ?W"
      using inode_freeable(2) [OF assms] fs2(2,4) not_sym [OF W] unfolding freeable_def fs1(4) by (auto simp: same_rest_def)
    then obtain fs3 W' h c where w: "truncate_indirect [0..<128] bl fs2 ?W False False = Some (fs3, W', h, c)"
        "freed_from (\<lambda>k. bl < of_nat (15 + k)) fs2 [0..<128] ?W fs3 W'" "h \<longleftrightarrow> (\<exists>k \<in> set [0..<128]. W' ! k \<noteq> 0)" "c \<longleftrightarrow> W' \<noteq> ?W"
      using truncate_indirect_ok [OF fs2(1), of _ _ bl False False] by blast
    have h: "h \<longleftrightarrow> (\<exists>k < 128. W' ! k \<noteq> 0)" using w(3) by auto
    have W': "length W' = 128" "\<forall>k < 128. W' ! k = (if bl < of_nat (15 + k) then 0 else ?W ! k)"
      and fs3: "fs_ok fs3" "same_rest fs fs3" "sect fs3 = sect fs"
        "blocks_used fs3 = blocks_used fs1 - {b. b \<noteq> 0 \<and> (\<exists>k < 128. bl < of_nat (15 + k) \<and> ?W ! k = b)}"
      using w(2) assms(1) fs2 same_rest_trans [OF fs2(2)] by (auto simp: freed_from_def)
    have run: "sfs_truncate fs sv len = (do {
        (r, fs, s) \<leftarrow> (if \<not> h then do {
            fs \<leftarrow> sfs_bfree fs3 ?ib;
            Some (Inr (), fs, sv1\<lparr>sv_i := (sv_i sv1)\<lparr>sfi_indirect := 0\<rparr>, sv_dirty := True\<rparr>)
          } else if c then do {
            (r, d) \<leftarrow> sfs_wblock (sfs_device fs3) (bytes32 W') ?ib;
            Some (r, fs3\<lparr>sfs_device := d\<rparr>, sv1)
          } else Some (Inr (), fs3, sv1));
        case r of Inl e \<Rightarrow> Some (Inl e, fs, s) | Inr _ \<Rightarrow> Some (Inr (), fs, ?done s)})"
      using d(1) True rd w(1) by (simp add: sfs_truncate_def SFS_NDIRECT_def SFS_DBPERIDB_def bl_def [symmetric] i1 Let_def fs2_def cong: if_cong)
    have ib3: "?ib \<in> blocks_used fs3" "?ib < nblocks fs3"
    proof -
      have "sfi_direct ?i ! k \<noteq> ?ib" if "k < 15" for k
        using that True inode_okD(3) [OF assms, of k] block_map_nth [OF assms(1), of ?i k] assms(2) by (auto simp: inode_ok_def)
      moreover have "?W ! k \<noteq> ?ib" if "k < 128" for k
        using that True inode_okD(3) [OF assms, of "15 + k"] block_map_nth [OF assms(1), of ?i "15 + k"] assms(2) by (auto simp: inode_ok_def)
      ultimately show "?ib \<in> blocks_used fs3" unfolding fs3(4) fs1(4) using ib True by auto
      show "?ib < nblocks fs3" using ib True fs3(2) by (simp add: same_rest_def)
    qed
    let ?used = "blocks_used fs - {b. b \<noteq> 0 \<and> (\<exists>k < 15. bl \<le> of_nat k \<and> sfi_direct ?i ! k = b)} -
          {b. b \<noteq> 0 \<and> (\<exists>k < 128. bl < of_nat (15 + k) \<and> ?W ! k = b)}"
    show ?thesis
    proof (cases "\<exists>k < 128. W' ! k \<noteq> 0")
      case False
      obtain fs4 where fs4: "sfs_bfree fs3 ?ib = Some fs4" "fs_ok fs4" "same_rest fs3 fs4" "sfs_device fs4 = sfs_device fs3"
          "blocks_used fs4 = blocks_used fs3 - {?ib}"
        using sfs_bfree_ok [OF fs3(1) ib3] True by blast
      let ?sv = "sv1\<lparr>sv_i := (sv_i sv1)\<lparr>sfi_indirect := 0\<rparr>, sv_dirty := True\<rparr>"
      have sr: "same_rest fs fs4" using same_rest_trans [OF fs3(2) fs4(3)] .
      have "truncates fs sv len fs4 (?done ?sv)"
      proof (rule truncatesI [OF assms fs4(2) sr, where D = D and ib = 0 and len = len, folded bl_def])
        show "blocks_used fs4 = ?used - (if 0 = ?ib then {} else {?ib})"
          unfolding fs4(5) fs3(4) fs1(4) using True by auto
        show "\<forall>k < 128. idwords fs4 (sv_i ?sv) ! k = (if bl < of_nat (15 + k) then 0 else ?W ! k)"
          using False W'(2) by (simp add: idwords_def del: of_nat_add)
      qed (use D d(3,4) fs3(3) fs4(4) in \<open>auto simp: same_vnode_def\<close>)
      moreover have "sfs_truncate fs sv len = Some (Inr (), fs4, ?done ?sv)" unfolding run using False h fs4(1) by simp
      ultimately show ?thesis by blast
    next
      case nz: True
      define fs4 where "fs4 = (if W' = ?W then fs3 else
        fs3\<lparr>sfs_device := (sfs_device fs3)\<lparr>lh_buf := bytes32 W', sectors := (sect fs3)(?ib := bytes32 W')\<rparr>\<rparr>)"
      have b: "length (bytes32 W') = 512" "words32 (bytes32 W') = W'" using W'(1) by (simp_all add: length_bytes32 words32_bytes32)
      have fs4: "fs_ok fs4" "same_rest fs fs4" "\<forall>b. b \<noteq> ?ib \<or> b = 0 \<longrightarrow> sect fs4 b = sect fs b" "blocks_used fs4 = blocks_used fs3"
        using fs_ok_write [OF fs3(1) b(1), of ?ib] fs3 True by (auto simp: fs4_def same_rest_def blocks_used_def)
      have "truncates fs sv len fs4 (?done sv1)"
      proof (rule truncatesI [OF assms fs4(1,2) d(4), where D = D and ib = ?ib and len = len, folded bl_def])
        show "blocks_used fs4 = ?used - (if ?ib = ?ib then {} else {?ib})" unfolding fs4(4) fs3(4) fs1(4) by simp
        show "sv_i sv1 = ?i\<lparr>sfi_direct := D, sfi_indirect := ?ib\<rparr>" using d(3) by simp
        have "idwords fs4 (sv_i sv1) = W'" using True b(2) rd(2) i1 fs3(3) by (auto simp: idwords_def fs4_def)
        then show "\<forall>k < 128. idwords fs4 (sv_i sv1) ! k = (if bl < of_nat (15 + k) then 0 else ?W ! k)"
          "?ib \<noteq> 0 \<and> bl < 142 \<longrightarrow> (\<exists>k < 128. idwords fs4 (sv_i sv1) ! k \<noteq> 0)" using W'(2) nz by simp_all
      qed (use D fs4(3) in auto)
      moreover have "sfs_truncate fs sv len = Some (Inr (), fs4, ?done sv1)"
        unfolding run using nz h w(4) write_sect [OF fs3(1) ib3(2) b(1)] by (auto simp: fs4_def)
      ultimately show ?thesis by blast
    qed
  qed
qed
text \<open>C17: Truncating a file always succeeds on a disk that works. The direct blocks from the new end of the file on and the
  indirect blocks behind the block of the new end are given back, each exactly once, and the indirect block itself when no
  entry is left; what the file no longer owns is free, what it keeps has the contents it had, no other block is touched,
  and the file is well-formed. The test for indirect blocks, \<open>blocklen < baseblock + j\<close>, is off by one: \<open>kept\<close> shows
  that block number \<open>blocklen\<close>, which is past the new end, stays in the file with its old contents.\<close>

theorem sfs_truncate_blocks:
  assumes "fs_ok fs" "inode_ok fs (sv_i sv)"
  shows "\<exists>fs' sv'. sfs_truncate fs sv len = Some (Inr (), fs', sv') \<and> truncates fs sv len fs' sv'"
  using assms by (rule sfs_truncate_ok)

theorem sfs_truncate_blocks_witness:
  "\<exists>fs' sv'. sfs_truncate sample_fs sample_file 10240 = Some (Inr (), fs', sv') \<and> sfi_size (sv_i sv') = 10240 \<and> kept (block_length 10240) 20"
  using sfs_truncate_blocks [OF sample_fs_ok(1,2), of 10240]
  by (auto simp: truncates_def kept_def block_length_def SFS_BLOCKSIZE_def signed_divide_int_def)

text \<open>C18: Truncating to nothing, as for opening with \<open>O_TRUNC\<close> and for removing a file, frees all blocks of the file: its
  blocks are exactly the ones that become free, the file owns no block any more and reads as empty.\<close>

theorem sfs_truncate_frees_all:
  assumes "fs_ok fs" "inode_ok fs (sv_i sv)"
  shows "\<exists>fs' sv'. sfs_truncate fs sv 0 = Some (Inr (), fs', sv') \<and> fs_ok fs' \<and> inode_ok fs' (sv_i sv') \<and> owned fs' (sv_i sv') = {} \<and>
    blocks_used fs' = blocks_used fs - owned fs (sv_i sv) \<and> sfi_size (sv_i sv') = 0"
proof -
  obtain fs' sv' where r: "sfs_truncate fs sv 0 = Some (Inr (), fs', sv')" "truncates fs sv 0 fs' sv'"
    using sfs_truncate_ok [OF assms] by blast
  have 0: "block_length 0 = 0" "\<not> kept 0 k" if "k < 143" for k
    using that by (auto simp: block_length_def SFS_BLOCKSIZE_def signed_divide_int_def kept_def word_le_nat_alt unat32)
  have shape: "inode_shape (sv_i sv')" "fs_ok fs'" using r(2) by (simp_all add: truncates_def inode_ok_def)
  have none: "\<forall>k < 143. block_map fs' (sv_i sv') ! k = 0" "sfi_indirect (sv_i sv') = 0"
    using r(2) 0 0(1) [of 0] by (auto simp: truncates_def)
  then have "owned fs' (sv_i sv') = {}" using owned_iff [OF shape(2,1)] by auto
  then show ?thesis using r by (auto simp: truncates_def)
qed

theorem sfs_truncate_frees_all_witness:
  "\<exists>fs' sv'. sfs_truncate sample_fs sample_file 0 = Some (Inr (), fs', sv') \<and> owned fs' (sv_i sv') = {} \<and>
    blocks_used fs' = blocks_used sample_fs - owned sample_fs (sv_i sample_file)"
  using sfs_truncate_frees_all [OF sample_fs_ok(1,2)] by blast

text \<open>C32: A write that fails grows the file. \<open>sfs_io\<close> takes the offset of the uio for the end of what was written even when
  nothing was: a write behind the largest possible file returns an error, moves no byte, and still sets the size of the
  file to its offset, beyond what the block map can describe.\<close>

theorem sfs_failed_write_extends:
  assumes "io_ready curas m fs sv u off (uio_resid u)" "max_file \<le> off" "0 < uio_resid u" "unat (sfi_size (sv_i sv)) < off" "off < 2 ^ 32"
  shows "\<exists>e fs' sv' u'. sfs_io curas fs sv m u = Some (Inl e, fs', sv', m, u') \<and> advanced u 0 u' \<and> unat (sfi_size (sv_i sv')) = off \<and>
    (\<forall>p < max_file. fbyte fs' (sv_i sv') p = fbyte fs (sv_i sv) p)"
proof -
  obtain r fs' sv' u' n where w: "sfs_io curas fs sv m u = Some (r, fs', sv', m, u')" "advanced u n u'" "0 < n \<longrightarrow> off + n \<le> max_file"
      "r = Inr () \<and> n = uio_resid u \<or> (\<exists>e. r = Inl e)" "sfi_size (sv_i sv') = new_size (sv_i sv) (off + n)"
      "\<forall>p < max_file. fbyte fs' (sv_i sv') p = (if off \<le> p \<and> p < off + n then mbytes m (uio_addrs u ! (p - off)) else fbyte fs (sv_i sv) p)"
    using sfs_io_write [OF assms(1)] by blast
  have n: "n = 0" using w(3) assms(2) by (cases n) simp_all
  then obtain e where "r = Inl e" using w(4) assms(3) by auto
  moreover have "unat (sfi_size (sv_i sv')) = off" using w(5) assms(4) unat32 [OF assms(5)] n by (simp add: new_size_def)
  ultimately show ?thesis using w(1,2,6) n by auto
qed

theorem sfs_failed_write_extends_witness:
  "\<exists>e fs' sv' u'. sfs_io None sample_fs sample_file sample_memory (uio_kinit 0x1000 5 1000000 UIO_WRITE) = Some (Inl e, fs', sv', sample_memory, u') \<and>
     unat (sfi_size (sv_i sv')) = 1000000"
proof -
  have r: "uio_resid (uio_kinit 0x1000 5 1000000 UIO_WRITE) = 5" by (simp add: uio_kinit_def)
  have R: "io_ready None sample_memory sample_fs sample_file (uio_kinit 0x1000 5 1000000 UIO_WRITE) 1000000 (uio_resid (uio_kinit 0x1000 5 1000000 UIO_WRITE))"
    unfolding r using sample_io_ready [where off = 1000000 and n = 5 and m = sample_memory and buf = "0x1000"] by simp
  show ?thesis using sfs_failed_write_extends [OF R] unfolding r by (auto simp: max_file_def sample_file_def)
qed

end
