(* ===== verification/SfsDir.thy ===== *)
theory SfsDir
  imports SfsIo Strings
begin

text \<open>
  SFS directories (\<^verbatim>\<open>kern/fs/sfs/sfs_vnode.c\<close>, the functions on directory entries): a directory is a file of
  entries of 64 bytes, an inode number and a name. The functions read and write entries with \<open>sfs_io\<close>; they are shown to
  implement a finite map from names to inode numbers.
\<close>

section \<open>Directory entries\<close>

definition DIRSIZE :: nat where "DIRSIZE = 64"

text \<open>\<open>slot * sizeof(struct sfs_dir)\<close> is a product of unsigned 32-bit numbers.\<close>

definition actualpos :: "int \<Rightarrow> int" where
  "actualpos slot = int (unat (of_int slot * of_nat DIRSIZE :: u32))"

definition sfs_readdir :: "sfs_fs \<Rightarrow> sfs_vnode \<Rightarrow> int \<Rightarrow> ((errno + sfs_dir) \<times> sfs_fs \<times> sfs_vnode) option" where
  "sfs_readdir fs sv slot = do {
     let ku = uio_kinit 0 DIRSIZE (actualpos slot) UIO_READ;
     (r, fs, sv, m, ku) \<leftarrow> sfs_io None fs sv (buf_memory (replicate DIRSIZE 0)) ku;
     case r of
       Inl e \<Rightarrow> Some (Inl e, fs, sv)
     | Inr _ \<Rightarrow> do {
         KASSERT (\<not> uio_resid ku > 0);
         Some (Inr (dir_of (mem_get m (addrs_from 0 DIRSIZE))), fs, sv)
       }
   }"

definition sfs_writedir :: "sfs_fs \<Rightarrow> sfs_vnode \<Rightarrow> sfs_dir \<Rightarrow> int \<Rightarrow> ((errno + unit) \<times> sfs_fs \<times> sfs_vnode) option" where
  "sfs_writedir fs sv sd slot = do {
     KASSERT (slot \<ge> 0);
     let ku = uio_kinit 0 DIRSIZE (actualpos slot) UIO_WRITE;
     (r, fs, sv, m, ku) \<leftarrow> sfs_io None fs sv (buf_memory (dir_bytes sd)) ku;
     case r of
       Inl e \<Rightarrow> Some (Inl e, fs, sv)
     | Inr _ \<Rightarrow> do {
         KASSERT (\<not> uio_resid ku > 0);
         Some (Inr (), fs, sv)
       }
   }"

definition sfs_dir_nentries :: "sfs_vnode \<Rightarrow> nat option" where
  "sfs_dir_nentries sv = do {
     KASSERT (sfi_type (sv_i sv) = SFS_TYPE_DIR);
     let sz = unat (sfi_size (sv_i sv));
     KASSERT (sz mod DIRSIZE = 0);
     Some (sz div DIRSIZE)
   }"

section \<open>Names\<close>

text \<open>The loop of \<open>sfs_dir_findname\<close> returns an error, or the inode number and the slot of the name if there is one,
  and the last free slot if there is one.\<close>

fun findname_loop :: "nat list \<Rightarrow> u8 list \<Rightarrow> sfs_fs \<Rightarrow> sfs_vnode \<Rightarrow> (u32 \<times> nat) option \<Rightarrow> nat option \<Rightarrow>
    ((errno + unit) \<times> (u32 \<times> nat) option \<times> nat option \<times> sfs_fs \<times> sfs_vnode) option" where
  "findname_loop [] name fs sv found emptyslot = Some (if found \<noteq> None then Inr () else Inl ENOENT, found, emptyslot, fs, sv)"
| "findname_loop (i # rest) name fs sv found emptyslot = do {
     (r, fs, sv) \<leftarrow> sfs_readdir fs sv (int i);
     case r of
       Inl e \<Rightarrow> Some (Inl e, found, emptyslot, fs, sv)
     | Inr tsd \<Rightarrow>
         if sfd_ino tsd = SFS_NOINO then findname_loop rest name fs sv found (Some i)
         else do {
           c \<leftarrow> strcmp ((sfd_name tsd)[SFS_NAMELEN - 1 := 0]) name;
           if c = 0 then do {
             KASSERT (found = None);
             findname_loop rest name fs sv (Some (sfd_ino tsd, i)) emptyslot
           } else findname_loop rest name fs sv found emptyslot
         }
   }"

definition sfs_dir_findname :: "sfs_fs \<Rightarrow> sfs_vnode \<Rightarrow> u8 list \<Rightarrow>
    ((errno + unit) \<times> (u32 \<times> nat) option \<times> nat option \<times> sfs_fs \<times> sfs_vnode) option" where
  "sfs_dir_findname fs sv name = do {
     nentries \<leftarrow> sfs_dir_nentries sv;
     findname_loop [0..<nentries] name fs sv None None
   }"

definition sfs_dir_link :: "sfs_fs \<Rightarrow> sfs_vnode \<Rightarrow> u8 list \<Rightarrow> u32 \<Rightarrow> ((errno + nat) \<times> sfs_fs \<times> sfs_vnode) option" where
  "sfs_dir_link fs sv name ino = do {
     (r, found, emptyslot, fs, sv) \<leftarrow> sfs_dir_findname fs sv name;
     case r of
       Inr _ \<Rightarrow> Some (Inl EEXIST, fs, sv)
     | Inl e \<Rightarrow>
         if e \<noteq> ENOENT then Some (Inl e, fs, sv)
         else do {
           len \<leftarrow> strlen name;
           if len + 1 > SFS_NAMELEN then Some (Inl ENAMETOOLONG, fs, sv)
           else do {
             slot \<leftarrow> (case emptyslot of Some s \<Rightarrow> Some s | None \<Rightarrow> sfs_dir_nentries sv);
             nm \<leftarrow> strcpy (replicate SFS_NAMELEN 0) name;
             (r, fs, sv) \<leftarrow> sfs_writedir fs sv \<lparr>sfd_ino = ino, sfd_name = nm\<rparr> (int slot);
             Some (case r of Inl e \<Rightarrow> Inl e | Inr _ \<Rightarrow> Inr slot, fs, sv)
           }
         }
   }"

definition sfs_dir_unlink :: "sfs_fs \<Rightarrow> sfs_vnode \<Rightarrow> nat \<Rightarrow> ((errno + unit) \<times> sfs_fs \<times> sfs_vnode) option" where
  "sfs_dir_unlink fs sv slot = sfs_writedir fs sv \<lparr>sfd_ino = SFS_NOINO, sfd_name = replicate SFS_NAMELEN 0\<rparr> (int slot)"

section \<open>Reading and writing entries\<close>

definition entry :: "sfs_fs \<Rightarrow> sfs_inode \<Rightarrow> nat \<Rightarrow> sfs_dir" where
  "entry fs i k = dir_of (map (\<lambda>j. fbyte fs i (k * 64 + j)) [0..<64])"

lemma actualpos_nat: "k < 2 ^ 26 \<Longrightarrow> actualpos (int k) = int (k * 64)"
  using unat32 [of "k * 64"] by (simp add: actualpos_def DIRSIZE_def)

lemma mem_get_put: "distinct as \<Longrightarrow> length as = length xs \<Longrightarrow> mem_get (mem_put m as xs) as = xs"
  by (induction m as xs rule: mem_put.induct) (auto simp: mem_get_def mem_put_other)

lemma mbytes_buf: "j < length bs \<Longrightarrow> length bs \<le> 2 ^ 32 \<Longrightarrow> mbytes (buf_memory bs) (of_nat j) = bs ! j"
  using unat32 [of j] by (simp add: buf_memory_def)

lemma dir_uio:
  "can_move None m (uio_kinit 0 DIRSIZE pos rw) 64" "uio_resid (uio_kinit 0 DIRSIZE pos rw) = 64"
  "uio_addrs (uio_kinit 0 DIRSIZE pos rw) = addrs_from 0 64" "uio_dir (uio_kinit 0 DIRSIZE pos rw) = rw"
  "uio_offset (uio_kinit 0 DIRSIZE pos rw) = pos"
  by (simp_all add: can_move_def uio_kinit_def uio_addrs_def space_ok_def may_touch_def DIRSIZE_def)

lemma sfs_readdir_ok:
  assumes "fs_ok fs" "inode_ok fs (sv_i sv)" "small_fs fs" "unat (sfi_size (sv_i sv)) \<le> max_file" "k < unat (sfi_size (sv_i sv)) div 64"
  shows "\<exists>fs'. sfs_readdir fs sv (int k) = Some (Inr (entry fs (sv_i sv) k), fs', sv) \<and> same_blocks fs fs'"
proof -
  let ?u = "uio_kinit 0 DIRSIZE (actualpos (int k)) UIO_READ"
  have fin: "k * 64 + 64 \<le> unat (sfi_size (sv_i sv))"
  proof -
    have "Suc k * 64 \<le> unat (sfi_size (sv_i sv)) div 64 * 64" using assms(5) by (intro mult_le_mono1) simp
    also have "\<dots> \<le> unat (sfi_size (sv_i sv))" by (rule div_times_less_eq_dividend)
    finally show ?thesis by simp
  qed
  have "k < 2 ^ 26" using fin assms(4) by (simp add: max_file_def)
  then have off: "uio_offset ?u = int (k * 64)" using actualpos_nat dir_uio(5) by metis
  have n: "read_amount (sv_i sv) ?u = 64" unfolding read_amount_def off dir_uio(2) nat_int using fin by simp
  obtain fs' u' where r: "sfs_io None fs sv (buf_memory (replicate DIRSIZE 0)) ?u =
      Some (Inr (), fs', sv, mem_put (buf_memory (replicate DIRSIZE 0)) (addrs_from 0 64) (map (\<lambda>j. fbyte fs (sv_i sv) (k * 64 + j)) [0..<64]), u')"
      "same_blocks fs fs'" "advanced ?u 64 u'"
    using sfs_io_read [OF assms(1-3) dir_uio(4) _ off assms(4), of None "buf_memory (replicate DIRSIZE 0)"] dir_uio(1)
    unfolding n read_res_def off nat_int dir_uio(2,3) by auto
  have "uio_resid u' = 0" using r(3) by (simp add: advanced_def dir_uio(2))
  then have "sfs_readdir fs sv (int k) = Some (Inr (entry fs (sv_i sv) k), fs', sv)"
    using r(1) mem_get_put [OF distinct_addrs [of 64]] by (simp add: sfs_readdir_def entry_def DIRSIZE_def)
  then show ?thesis using r(2) by blast
qed

lemma aligned_stop: "stopped (k * 64) n 64 \<Longrightarrow> n \<le> 64 \<Longrightarrow> n = 0"
proof -
  assume a: "stopped (k * 64) n 64" "n \<le> 64"
  show "n = 0"
  proof (rule ccontr)
    assume "n \<noteq> 0"
    then have n: "(k * 64 + n) mod 512 = 0" "n < 64" using a(1) by (auto simp: stopped_def)
    then have "512 dvd k * 64 + n" by (simp add: mod_eq_0_iff_dvd)
    then have "64 dvd k * 64 + n" by (rule dvd_trans [rotated]) simp
    then have "64 dvd n" by (simp add: dvd_add_right_iff)
    then show False using n(2) \<open>n \<noteq> 0\<close> by (simp add: nat_dvd_not_less)
  qed
qed

text \<open>Writing an entry writes all of it or nothing, because entries do not cross the end of a block.\<close>

definition wrote_entry :: "sfs_fs \<Rightarrow> sfs_vnode \<Rightarrow> sfs_dir \<Rightarrow> nat \<Rightarrow> (errno + unit) \<Rightarrow> sfs_fs \<Rightarrow> sfs_vnode \<Rightarrow> bool" where
  "wrote_entry fs sv sd k r fs' sv' \<longleftrightarrow>
     file_step fs (sv_i sv) fs' (sv_i sv') \<and> same_vnode sv sv' \<and>
     (r = Inr () \<and> k * 64 + 64 \<le> max_file \<and> sfi_size (sv_i sv') = new_size (sv_i sv) (k * 64 + 64) \<and>
        (\<forall>p < max_file. fbyte fs' (sv_i sv') p = (if k * 64 \<le> p \<and> p < k * 64 + 64 then dir_bytes sd ! (p - k * 64) else fbyte fs (sv_i sv) p)) \<or>
      (r = Inl ENOSPC \<and> disk_full fs' \<or> r = Inl EFBIG \<and> max_file < k * 64 + 64) \<and> sfi_size (sv_i sv') = new_size (sv_i sv) (k * 64) \<and>
        (\<forall>p < max_file. fbyte fs' (sv_i sv') p = fbyte fs (sv_i sv) p))"

lemma sfs_writedir_ok:
  assumes "fs_ok fs" "inode_ok fs (sv_i sv)" "small_fs fs" "k < 2 ^ 25" "length (sfd_name sd) = 60"
  shows "\<exists>r fs' sv'. sfs_writedir fs sv sd (int k) = Some (r, fs', sv') \<and> wrote_entry fs sv sd k r fs' sv'"
proof -
  let ?u = "uio_kinit 0 DIRSIZE (actualpos (int k)) UIO_WRITE" and ?m = "buf_memory (dir_bytes sd)"
  have k: "k < 2 ^ 26" using assms(4) by simp
  have off: "uio_offset ?u = int (k * 64)" using actualpos_nat [OF k] dir_uio(5) by metis
  have len: "length (dir_bytes sd) = 64" using assms(5) by (simp add: dir_bytes_def)
  have R: "io_ready None ?m fs sv ?u (k * 64) (uio_resid ?u)"
    using assms(1-4) off dir_uio unfolding io_ready_def by simp
  obtain r fs' sv' u' n where w: "sfs_io None fs sv ?m ?u = Some (r, fs', sv', ?m, u')" "n \<le> 64" "advanced ?u n u'"
      "0 < n \<longrightarrow> k * 64 + n \<le> max_file"
      "r = Inr () \<and> n = 64 \<or> stopped (k * 64) n 64 \<and> (r = Inl ENOSPC \<and> disk_full fs' \<or> r = Inl EFBIG \<and> max_file < k * 64 + 64)"
      "file_step fs (sv_i sv) fs' (sv_i sv')" "same_vnode sv sv'" "sfi_size (sv_i sv') = new_size (sv_i sv) (k * 64 + n)"
      "\<forall>p < max_file. fbyte fs' (sv_i sv') p = (if k * 64 \<le> p \<and> p < k * 64 + n then mbytes ?m (addrs_from 0 64 ! (p - k * 64)) else fbyte fs (sv_i sv) p)"
    using sfs_io_write [OF R] unfolding dir_uio(2,3) by blast
  show ?thesis
  proof (cases r)
    case (Inr x)
    then have n: "n = 64" "r = Inr ()" using w(5) by auto
    have "mbytes ?m (addrs_from 0 64 ! (p - k * 64)) = dir_bytes sd ! (p - k * 64)" if "k * 64 \<le> p" "p < k * 64 + 64" for p
      using that len mbytes_buf [of "p - k * 64" "dir_bytes sd"] nth_addrs [of "p - k * 64" 64 0] by simp
    then have b: "\<forall>p < max_file. fbyte fs' (sv_i sv') p = (if k * 64 \<le> p \<and> p < k * 64 + 64 then dir_bytes sd ! (p - k * 64) else fbyte fs (sv_i sv) p)"
      using w(9) unfolding n(1) by auto
    have "uio_resid u' = 0" using w(3) n(1) by (simp add: advanced_def dir_uio(2))
    then have "sfs_writedir fs sv sd (int k) = Some (Inr (), fs', sv')" using w(1) n(2) by (simp add: sfs_writedir_def)
    moreover have "wrote_entry fs sv sd k (Inr ()) fs' sv'" unfolding wrote_entry_def using w(4,6,7,8) b n by simp
    ultimately show ?thesis by blast
  next
    case (Inl e)
    then have s: "stopped (k * 64) n 64" "r = Inl ENOSPC \<and> disk_full fs' \<or> r = Inl EFBIG \<and> max_file < k * 64 + 64" using w(5) by auto
    have n: "n = 0" using aligned_stop [OF s(1) w(2)] .
    have "sfs_writedir fs sv sd (int k) = Some (r, fs', sv')" using w(1) Inl by (simp add: sfs_writedir_def)
    moreover have "wrote_entry fs sv sd k r fs' sv'" unfolding wrote_entry_def using w(6-9) s(2) n by auto
    ultimately show ?thesis by blast
  qed
qed

section \<open>A directory is a map from names to inode numbers\<close>

definition slots :: "sfs_inode \<Rightarrow> nat" where
  "slots i = unat (sfi_size i) div 64"

definition name_of :: "sfs_dir \<Rightarrow> u8 list" where
  "name_of e = cstr ((sfd_name e)[59 := 0])"

definition names_at :: "sfs_fs \<Rightarrow> sfs_inode \<Rightarrow> u8 list \<Rightarrow> nat \<Rightarrow> bool" where
  "names_at fs i n k \<longleftrightarrow> sfd_ino (entry fs i k) \<noteq> 0 \<and> name_of (entry fs i k) = n"

definition dir_map :: "sfs_fs \<Rightarrow> sfs_inode \<Rightarrow> u8 list \<rightharpoonup> u32" where
  "dir_map fs i n = map_option (\<lambda>k. sfd_ino (entry fs i k)) (find (names_at fs i n) [0..<slots i])"

text \<open>A well-formed directory holds whole entries, and each name once.\<close>

definition dir_ok :: "sfs_fs \<Rightarrow> sfs_inode \<Rightarrow> bool" where
  "dir_ok fs i \<longleftrightarrow> sfi_type i = SFS_TYPE_DIR \<and> unat (sfi_size i) mod 64 = 0 \<and> unat (sfi_size i) \<le> max_file \<and>
     (\<forall>n. \<forall>j < slots i. \<forall>k < slots i. names_at fs i n j \<and> names_at fs i n k \<longrightarrow> j = k)"

lemma dir_okD:
  assumes "dir_ok fs i"
  shows "sfi_type i = SFS_TYPE_DIR" "unat (sfi_size i) mod 64 = 0" "unat (sfi_size i) \<le> max_file" "unat (sfi_size i) = slots i * 64" "slots i \<le> 1144"
    "j < slots i \<Longrightarrow> k < slots i \<Longrightarrow> names_at fs i n j \<Longrightarrow> names_at fs i n k \<Longrightarrow> j = k"
proof -
  show "sfi_type i = SFS_TYPE_DIR" and m: "unat (sfi_size i) mod 64 = 0" and x: "unat (sfi_size i) \<le> max_file" using assms by (simp_all add: dir_ok_def)
  then show s: "unat (sfi_size i) = slots i * 64" unfolding slots_def by (simp add: mod_eq_0_iff_dvd)
  show "slots i \<le> 1144" using x unfolding s by (simp add: max_file_def)
  show "j < slots i \<Longrightarrow> k < slots i \<Longrightarrow> names_at fs i n j \<Longrightarrow> names_at fs i n k \<Longrightarrow> j = k" using assms unfolding dir_ok_def by blast
qed

lemma dir_map_Some:
  assumes "dir_ok fs i"
  shows "dir_map fs i n = Some ino \<longleftrightarrow> (\<exists>k < slots i. names_at fs i n k \<and> sfd_ino (entry fs i k) = ino)"
proof (cases "find (names_at fs i n) [0..<slots i]")
  case None
  then have "\<forall>k < slots i. \<not> names_at fs i n k" by (simp add: find_None_iff)
  moreover have "dir_map fs i n = None" using None by (simp add: dir_map_def)
  ultimately show ?thesis by auto
next
  case (Some j)
  then have j: "j < slots i" "names_at fs i n j" by (auto simp: find_Some_iff)
  have "dir_map fs i n = Some (sfd_ino (entry fs i j))" using Some by (simp add: dir_map_def)
  moreover have "k = j" if "k < slots i" "names_at fs i n k" for k using dir_okD(6) [OF assms that(1) j(1) that(2) j(2)] .
  ultimately show ?thesis using j by (metis option.inject)
qed

lemma dir_map_None: "dir_map fs i n = None \<longleftrightarrow> (\<forall>k < slots i. \<not> names_at fs i n k)"
  by (auto simp: dir_map_def find_None_iff)

lemma same_blocks_entry: "same_blocks fs fs' \<Longrightarrow> entry fs' i = entry fs i"
  by (simp add: entry_def same_blocks_fbyte fun_eq_iff)

lemma entry_name_length: "length (sfd_name (entry fs i k)) = 60"
  by (simp add: entry_def dir_of_def)

lemma name_terminated: "length nm = 60 \<Longrightarrow> terminated (nm[59 := 0])"
  by (auto simp: terminated_at_def in_set_conv_nth intro!: exI [of _ 59])

text \<open>What the loop over the slots \<open>ks\<close> finds.\<close>

definition scanned :: "sfs_fs \<Rightarrow> sfs_inode \<Rightarrow> u8 list \<Rightarrow> nat list \<Rightarrow> (u32 \<times> nat) option \<Rightarrow> nat option \<Rightarrow> (u32 \<times> nat) option \<Rightarrow> nat option \<Rightarrow> bool" where
  "scanned fs i n ks hit emp hit' emp' \<longleftrightarrow>
     (hit' = hit \<and> (\<forall>k \<in> set ks. \<not> names_at fs i n k) \<or> (\<exists>k \<in> set ks. hit' = Some (sfd_ino (entry fs i k), k) \<and> names_at fs i n k)) \<and>
     (emp' = emp \<or> (\<exists>k \<in> set ks. emp' = Some k \<and> sfd_ino (entry fs i k) = 0))"

lemma scanned_Nil: "scanned fs i n [] hit emp hit emp"
  by (simp add: scanned_def)

lemma scanned_free: "scanned fs i n ks hit (Some k) hit' emp' \<Longrightarrow> sfd_ino (entry fs i k) = 0 \<Longrightarrow> scanned fs i n (k # ks) hit emp hit' emp'"
  unfolding scanned_def by (auto simp: names_at_def)

lemma scanned_hit: "scanned fs i n ks (Some (sfd_ino (entry fs i k), k)) emp hit' emp' \<Longrightarrow> names_at fs i n k \<Longrightarrow> scanned fs i n (k # ks) hit emp hit' emp'"
  unfolding scanned_def by auto

lemma scanned_miss: "scanned fs i n ks hit emp hit' emp' \<Longrightarrow> \<not> names_at fs i n k \<Longrightarrow> scanned fs i n (k # ks) hit emp hit' emp'"
  unfolding scanned_def by auto

lemma findname_loop_ok:
  "fs_ok fs \<Longrightarrow> inode_ok fs (sv_i sv) \<Longrightarrow> small_fs fs \<Longrightarrow> dir_ok fs (sv_i sv) \<Longrightarrow> terminated name \<Longrightarrow> distinct ks \<Longrightarrow> \<forall>k \<in> set ks. k < slots (sv_i sv) \<Longrightarrow>
    \<forall>k \<in> set ks. names_at fs (sv_i sv) (cstr name) k \<longrightarrow> hit = None \<Longrightarrow>
    \<exists>fs' hit' emp'. findname_loop ks name fs sv hit emp = Some (if hit' \<noteq> None then Inr () else Inl ENOENT, hit', emp', fs', sv) \<and> same_blocks fs fs' \<and>
      scanned fs (sv_i sv) (cstr name) ks hit emp hit' emp'"
proof (induction ks arbitrary: fs hit emp)
  case Nil
  then show ?case using same_blocks_refl scanned_Nil by auto
next
  case (Cons k ks)
  let ?i = "sv_i sv" and ?e = "entry fs (sv_i sv) k"
  obtain fs1 where r: "sfs_readdir fs sv (int k) = Some (Inr ?e, fs1, sv)" "same_blocks fs fs1"
    using sfs_readdir_ok [OF Cons.prems(1-3) dir_okD(3) [OF Cons.prems(4)], of k] Cons.prems(7) by (auto simp: slots_def)
  note S = same_blocksD [OF r(2)] same_blocks_entry [OF r(2)]
  have na: "names_at fs1 = names_at fs" by (simp add: names_at_def S fun_eq_iff)
  have sc: "scanned fs1 = scanned fs" by (simp add: scanned_def na S fun_eq_iff)
  have prem: "fs_ok fs1" "inode_ok fs1 ?i" "small_fs fs1" "dir_ok fs1 ?i" "distinct ks" "\<forall>k \<in> set ks. k < slots ?i"
    using Cons.prems S by (simp_all add: small_fs_def same_rest_def dir_ok_def na)
  have st: "\<exists>c. strcmp ((sfd_name ?e)[59 := 0]) name = Some c \<and> (c = 0 \<longleftrightarrow> name_of ?e = cstr name)"
    using strcmp_spec [OF name_terminated [OF entry_name_length] Cons.prems(5)] strcmp_equal [OF name_terminated [OF entry_name_length] Cons.prems(5)]
    unfolding name_of_def by (metis option.inject)
  consider (free) "sfd_ino ?e = 0" | (hit) "names_at fs ?i (cstr name) k" | (miss) "sfd_ino ?e \<noteq> 0" "\<not> names_at fs ?i (cstr name) k"
    by (auto simp: names_at_def)
  then show ?case
  proof cases
    case free
    have "findname_loop (k # ks) name fs sv hit emp = findname_loop ks name fs1 sv hit (Some k)"
      using r free by (simp add: SFS_NOINO_def)
    then show ?thesis
      using Cons.IH [OF prem(1-4) Cons.prems(5) prem(5,6), of hit "Some k", unfolded na sc] Cons.prems(8) same_blocks_trans [OF r(2)] scanned_free [OF _ free]
      by (metis list.set_intros(2))
  next
    case hit
    have nk: "\<forall>j \<in> set ks. \<not> names_at fs ?i (cstr name) j"
      using dir_okD(6) [OF Cons.prems(4) _ _ hit] Cons.prems(6,7) by auto
    have "hit = None" using Cons.prems(8) hit by simp
    then have "findname_loop (k # ks) name fs sv hit emp = findname_loop ks name fs1 sv (Some (sfd_ino ?e, k)) emp"
      using r hit st by (auto simp: SFS_NOINO_def SFS_NAMELEN_def names_at_def)
    then show ?thesis
      using Cons.IH [OF prem(1-4) Cons.prems(5) prem(5,6), of "Some (sfd_ino ?e, k)" emp, unfolded na sc] nk same_blocks_trans [OF r(2)] scanned_hit [OF _ hit]
      by metis
  next
    case miss
    then have "findname_loop (k # ks) name fs sv hit emp = findname_loop ks name fs1 sv hit emp"
      using r st by (auto simp: SFS_NOINO_def SFS_NAMELEN_def names_at_def)
    then show ?thesis
      using Cons.IH [OF prem(1-4) Cons.prems(5) prem(5,6), of hit emp, unfolded na sc] Cons.prems(8) same_blocks_trans [OF r(2)] scanned_miss [OF _ miss(2)]
      by (metis list.set_intros(2))
  qed
qed

lemma nentries_ok: "dir_ok fs (sv_i sv) \<Longrightarrow> sfs_dir_nentries sv = Some (slots (sv_i sv))"
  using dir_okD(1,2) by (simp add: sfs_dir_nentries_def DIRSIZE_def slots_def Let_def)

lemma sfs_dir_findname_ok:
  assumes "fs_ok fs" "inode_ok fs (sv_i sv)" "small_fs fs" "dir_ok fs (sv_i sv)" "terminated name"
  shows "\<exists>fs' hit emp. sfs_dir_findname fs sv name = Some (if hit \<noteq> None then Inr () else Inl ENOENT, hit, emp, fs', sv) \<and> same_blocks fs fs' \<and>
    map_option fst hit = dir_map fs (sv_i sv) (cstr name) \<and>
    (\<forall>ino k. hit = Some (ino, k) \<longrightarrow> k < slots (sv_i sv) \<and> names_at fs (sv_i sv) (cstr name) k) \<and>
    (\<forall>k. emp = Some k \<longrightarrow> k < slots (sv_i sv) \<and> sfd_ino (entry fs (sv_i sv) k) = 0)"
proof -
  let ?i = "sv_i sv"
  obtain fs' hit emp where f: "findname_loop [0..<slots ?i] name fs sv None None = Some (if hit \<noteq> None then Inr () else Inl ENOENT, hit, emp, fs', sv)"
      "same_blocks fs fs'" "scanned fs ?i (cstr name) [0..<slots ?i] None None hit emp"
    using findname_loop_ok [OF assms, of "[0..<slots ?i]" None None] by auto
  have "map_option fst hit = dir_map fs ?i (cstr name)"
  proof (cases hit)
    case None
    then show ?thesis using f(3) dir_map_None [of fs ?i "cstr name"] by (auto simp: scanned_def)
  next
    case (Some h)
    then obtain k where k: "k < slots ?i" "h = (sfd_ino (entry fs ?i k), k)" "names_at fs ?i (cstr name) k" using f(3) by (auto simp: scanned_def)
    then have "dir_map fs ?i (cstr name) = Some (sfd_ino (entry fs ?i k))" using dir_map_Some [OF assms(4)] by blast
    then show ?thesis using Some k(2) by simp
  qed
  then show ?thesis using f(1,2,3) nentries_ok [OF assms(4)]
    by (intro exI [of _ fs'] exI [of _ hit] exI [of _ emp]) (auto simp: sfs_dir_findname_def scanned_def)
qed

text \<open>A directory after an entry has been written.\<close>

lemma new_size_slots:
  assumes "dir_ok fs i" "k \<le> slots i" "k * 64 + 64 \<le> max_file"
  shows "unat (new_size i (k * 64 + 64)) = max (slots i) (k + 1) * 64" "unat (new_size i (k * 64)) = slots i * 64"
proof -
  note s = dir_okD(4) [OF assms(1)]
  have "unat (of_nat (k * 64 + 64) :: u32) = k * 64 + 64" using assms(3) by (intro unat32) (simp add: max_file_def)
  then show "unat (new_size i (k * 64 + 64)) = max (slots i) (k + 1) * 64"
    using assms(2) s by (cases "k = slots i") (auto simp: new_size_def max_def)
  show "unat (new_size i (k * 64)) = slots i * 64" using assms(2) s by (simp add: new_size_def)
qed

lemma entry_cong: "(\<And>p. p < 64 \<Longrightarrow> fbyte fs' i' (j * 64 + p) = fbyte fs i (j * 64 + p)) \<Longrightarrow> entry fs' i' j = entry fs i j"
  unfolding entry_def by (intro arg_cong [of _ _ dir_of] map_cong) simp_all

lemma slot_end: "j < k \<Longrightarrow> j * 64 + 64 \<le> k * (64 :: nat)"
  using mult_le_mono1 [of "Suc j" k 64] by simp

lemma wrote_entries:
  assumes "wrote_entry fs sv sd k (Inr ()) fs' sv'" "length (sfd_name sd) = 60" "j * 64 + 64 \<le> max_file"
  shows "entry fs' (sv_i sv') j = (if j = k then sd else entry fs (sv_i sv) j)"
proof (cases "j = k")
  case True
  have "map (\<lambda>p. fbyte fs' (sv_i sv') (k * 64 + p)) [0..<64] = dir_bytes sd"
    using assms True by (intro nth_equalityI) (auto simp: wrote_entry_def dir_bytes_def)
  then show ?thesis using True by (simp add: entry_def dir_of_bytes)
next
  case False
  have "fbyte fs' (sv_i sv') (j * 64 + p) = fbyte fs (sv_i sv) (j * 64 + p)" if "p < 64" for p
  proof -
    have "\<not> (k * 64 \<le> j * 64 + p \<and> j * 64 + p < k * 64 + 64)"
    proof (cases "j < k")
      case True
      then show ?thesis using slot_end [OF True] that by linarith
    next
      case nj: False
      then have "k < j" using False by simp
      then show ?thesis using slot_end [of k j] that by linarith
    qed
    then show ?thesis using assms that by (auto simp: wrote_entry_def)
  qed
  from entry_cong [OF this] show ?thesis using False by simp
qed

lemma failed_entries:
  assumes "wrote_entry fs sv sd k (Inl e) fs' sv'" "j * 64 + 64 \<le> max_file"
  shows "entry fs' (sv_i sv') j = entry fs (sv_i sv) j"
  using assms by (intro entry_cong) (auto simp: wrote_entry_def)

lemma wrote_entry_failed:
  assumes "wrote_entry fs sv sd k (Inl e) fs' sv'" "dir_ok fs (sv_i sv)" "k \<le> slots (sv_i sv)"
  shows "dir_ok fs' (sv_i sv')" "dir_map fs' (sv_i sv') = dir_map fs (sv_i sv)" "e = ENOSPC \<and> disk_full fs' \<or> e = EFBIG \<and> slots (sv_i sv) = 1144"
proof -
  let ?i = "sv_i sv" and ?i' = "sv_i sv'"
  note d = dir_okD [OF assms(2)]
  have sz: "sfi_size ?i' = sfi_size ?i" and ty: "sfi_type ?i' = sfi_type ?i"
    and e: "e = ENOSPC \<and> disk_full fs' \<or> e = EFBIG \<and> max_file < k * 64 + 64"
    using assms(1,3) d(4) by (auto simp: wrote_entry_def file_step_def new_size_def)
  have sl: "slots ?i' = slots ?i" by (simp add: slots_def sz)
  have en: "entry fs' ?i' j = entry fs ?i j" if "j < slots ?i" for j
    using failed_entries [OF assms(1), of j] slot_end [OF that] d(3,4) by simp
  then have na: "names_at fs' ?i' n j = names_at fs ?i n j" if "j < slots ?i" for n j using that by (simp add: names_at_def)
  show "dir_ok fs' ?i'" unfolding dir_ok_def sl sz ty using d na by (simp add: dir_ok_def) blast
  have "find (names_at fs' ?i' n) [0..<slots ?i] = find (names_at fs ?i n) [0..<slots ?i]" for n
    using na by (intro find_cong) auto
  then show "dir_map fs' ?i' = dir_map fs ?i"
    using en by (auto simp: dir_map_def sl fun_eq_iff find_Some_iff intro!: option.map_cong)
  show "e = ENOSPC \<and> disk_full fs' \<or> e = EFBIG \<and> slots ?i = 1144"
    using e d(5) assms(3) by (auto simp: max_file_def)
qed

lemma put_entry:
  assumes "wrote_entry fs sv sd k (Inr ()) fs' sv'" "dir_ok fs (sv_i sv)" "k \<le> slots (sv_i sv)" "length (sfd_name sd) = 60"
  shows "slots (sv_i sv') = max (slots (sv_i sv)) (k + 1)" "sfi_type (sv_i sv') = SFS_TYPE_DIR" "unat (sfi_size (sv_i sv')) mod 64 = 0"
    "unat (sfi_size (sv_i sv')) \<le> max_file"
    "j < slots (sv_i sv') \<Longrightarrow> names_at fs' (sv_i sv') n j \<longleftrightarrow> (if j = k then sfd_ino sd \<noteq> 0 \<and> name_of sd = n else j < slots (sv_i sv) \<and> names_at fs (sv_i sv) n j)"
    "j < slots (sv_i sv') \<Longrightarrow> entry fs' (sv_i sv') j = (if j = k then sd else entry fs (sv_i sv) j)"
proof -
  let ?i = "sv_i sv" and ?i' = "sv_i sv'"
  note d = dir_okD [OF assms(2)]
  have le: "k * 64 + 64 \<le> max_file" and sz: "sfi_size ?i' = new_size ?i (k * 64 + 64)" and ty: "sfi_type ?i' = sfi_type ?i"
    using assms(1) by (auto simp: wrote_entry_def file_step_def)
  have u: "unat (sfi_size ?i') = max (slots ?i) (k + 1) * 64" unfolding sz using new_size_slots(1) [OF assms(2,3) le] .
  then show s: "slots ?i' = max (slots ?i) (k + 1)" by (simp add: slots_def)
  show "sfi_type ?i' = SFS_TYPE_DIR" "unat (sfi_size ?i') mod 64 = 0" using ty d(1) u by simp_all
  show m: "unat (sfi_size ?i') \<le> max_file" using u le d(3,4) by (auto simp: max_def)
  show en: "entry fs' ?i' j = (if j = k then sd else entry fs ?i j)" if "j < slots ?i'" for j
    using wrote_entries [OF assms(1,4), of j] slot_end [OF that] u m by (simp add: s)
  show "names_at fs' ?i' n j \<longleftrightarrow> (if j = k then sfd_ino sd \<noteq> 0 \<and> name_of sd = n else j < slots ?i \<and> names_at fs ?i n j)" if "j < slots ?i'"
    using en [OF that] that assms(3) unfolding s by (auto simp: names_at_def)
qed

lemma map_eqI: "(\<And>x y. f x = Some y \<longleftrightarrow> g x = Some y) \<Longrightarrow> f = g"
  by (rule ext) (metis option.exhaust)

lemma put_name:
  assumes "wrote_entry fs sv sd k (Inr ()) fs' sv'" "dir_ok fs (sv_i sv)" "k \<le> slots (sv_i sv)" "length (sfd_name sd) = 60"
    and "sfd_ino sd \<noteq> 0" "dir_map fs (sv_i sv) (name_of sd) = None" "k < slots (sv_i sv) \<longrightarrow> sfd_ino (entry fs (sv_i sv) k) = 0"
  shows "dir_ok fs' (sv_i sv')" "dir_map fs' (sv_i sv') = (dir_map fs (sv_i sv))(name_of sd \<mapsto> sfd_ino sd)"
proof -
  let ?i = "sv_i sv" and ?i' = "sv_i sv'"
  note p = put_entry [OF assms(1-4)]
  have none: "\<not> names_at fs ?i (name_of sd) j" if "j < slots ?i" for j using assms(6) that by (simp add: dir_map_None)
  have "j = l" if "j < slots ?i'" "l < slots ?i'" "names_at fs' ?i' n j" "names_at fs' ?i' n l" for n j l
    using that(3,4) none dir_okD(6) [OF assms(2), of j l n] unfolding p(5) [OF that(1)] p(5) [OF that(2)] by (auto split: if_splits)
  then show ok: "dir_ok fs' ?i'" unfolding dir_ok_def using p(2-4) by blast
  have k: "k < slots ?i'" by (simp add: p(1))
  show "dir_map fs' ?i' = (dir_map fs ?i)(name_of sd \<mapsto> sfd_ino sd)"
  proof (rule map_eqI)
    fix x y
    have live: "j \<noteq> k" if "j < slots ?i" "names_at fs ?i x j" for j using assms(7) that by (auto simp: names_at_def)
    have lt: "j < slots ?i'" if "j < slots ?i" for j using that p(1) by simp
    show "dir_map fs' ?i' x = Some y \<longleftrightarrow> ((dir_map fs ?i)(name_of sd \<mapsto> sfd_ino sd)) x = Some y"
    proof (cases "x = name_of sd")
      case True
      have "dir_map fs' ?i' x = Some (sfd_ino sd)"
        unfolding dir_map_Some [OF ok] using k p(5,6) [OF k] True assms(5) by (intro exI [of _ k]) simp
      then show ?thesis using True by simp
    next
      case False
      have "(\<exists>j < slots ?i'. names_at fs' ?i' x j \<and> sfd_ino (entry fs' ?i' j) = y) \<longleftrightarrow> (\<exists>j < slots ?i. names_at fs ?i x j \<and> sfd_ino (entry fs ?i j) = y)"
        using False live lt p(5,6) by (metis (full_types))
      then show ?thesis using False unfolding dir_map_Some [OF ok] by (simp add: dir_map_Some [OF assms(2)])
    qed
  qed
qed

lemma drop_name:
  assumes "wrote_entry fs sv sd k (Inr ()) fs' sv'" "dir_ok fs (sv_i sv)" "k < slots (sv_i sv)" "length (sfd_name sd) = 60"
    and "sfd_ino sd = 0" "names_at fs (sv_i sv) n k"
  shows "dir_ok fs' (sv_i sv')" "dir_map fs' (sv_i sv') = (dir_map fs (sv_i sv))(n := None)"
proof -
  let ?i = "sv_i sv" and ?i' = "sv_i sv'"
  note p = put_entry [OF assms(1,2) less_imp_le [OF assms(3)] assms(4)]
  have s: "slots ?i' = slots ?i" using p(1) assms(3) by simp
  have at: "names_at fs' ?i' x j \<longleftrightarrow> j \<noteq> k \<and> names_at fs ?i x j" if "j < slots ?i" for x j
    using p(5) [of j x] that assms(5) by (auto simp: s)
  show ok: "dir_ok fs' ?i'"
    unfolding dir_ok_def s using p(2-4) at dir_okD(6) [OF assms(2)] by blast
  show "dir_map fs' ?i' = (dir_map fs ?i)(n := None)"
  proof (rule map_eqI)
    fix x y
    have "(\<exists>j < slots ?i'. names_at fs' ?i' x j \<and> sfd_ino (entry fs' ?i' j) = y) \<longleftrightarrow>
        (\<exists>j < slots ?i. j \<noteq> k \<and> names_at fs ?i x j \<and> sfd_ino (entry fs ?i j) = y)"
      unfolding s using at p(6) by (metis s)
    moreover have "(\<exists>j < slots ?i. j \<noteq> k \<and> names_at fs ?i x j \<and> sfd_ino (entry fs ?i j) = y) \<longleftrightarrow>
        x \<noteq> n \<and> (\<exists>j < slots ?i. names_at fs ?i x j \<and> sfd_ino (entry fs ?i j) = y)"
      using dir_okD(6) [OF assms(2) _ assms(3) _ assms(6)] assms(6) by (metis names_at_def)
    ultimately show "dir_map fs' ?i' x = Some y \<longleftrightarrow> ((dir_map fs ?i)(n := None)) x = Some y"
      unfolding dir_map_Some [OF ok] by (simp add: dir_map_Some [OF assms(2)])
  qed
qed

section \<open>Adding and removing names\<close>

lemma same_blocks_dir:
  assumes "same_blocks fs fs'"
  shows "names_at fs' = names_at fs" "dir_ok fs' i = dir_ok fs i" "dir_map fs' i = dir_map fs i" "small_fs fs' = small_fs fs"
proof -
  show n: "names_at fs' = names_at fs" by (simp add: names_at_def same_blocks_entry [OF assms] fun_eq_iff)
  show "dir_ok fs' i = dir_ok fs i" "dir_map fs' i = dir_map fs i" by (simp_all add: dir_ok_def dir_map_def n same_blocks_entry [OF assms] fun_eq_iff)
  show "small_fs fs' = small_fs fs" using same_blocksD(3) [OF assms] by (simp add: small_fs_def same_rest_def)
qed

lemma new_entry_name:
  assumes "length n < 60" "0 \<notin> set n"
  shows "name_of \<lparr>sfd_ino = ino, sfd_name = n @ [0] @ drop (length n + 1) (replicate 60 0)\<rparr> = n"
proof -
  let ?nm = "n @ [0] @ drop (length n + 1) (replicate 60 0)"
  have "?nm ! 59 = 0" using assms(1) by (simp add: nth_append nth_Cons')
  then have "?nm[59 := 0] = ?nm" by (metis list_update_id)
  moreover have "takeWhile (\<lambda>c. c \<noteq> 0) ?nm = n" using assms(2) by (subst takeWhile_append2) auto
  ultimately show ?thesis by (simp add: name_of_def cstr_at_def)
qed

lemma cstr_nonzero: "0 \<notin> set (cstr s)"
  by (auto simp: cstr_at_def dest: set_takeWhileD)

definition linked :: "sfs_fs \<Rightarrow> sfs_vnode \<Rightarrow> u8 list \<Rightarrow> u32 \<Rightarrow> (errno + nat) \<Rightarrow> sfs_fs \<Rightarrow> sfs_vnode \<Rightarrow> bool" where
  "linked fs sv n ino r fs' sv' \<longleftrightarrow>
     file_step fs (sv_i sv) fs' (sv_i sv') \<and> same_vnode sv sv' \<and> dir_ok fs' (sv_i sv') \<and>
     (r = Inl EEXIST \<longleftrightarrow> dir_map fs (sv_i sv) n \<noteq> None) \<and>
     (case r of
        Inr slot \<Rightarrow> slot < slots (sv_i sv') \<and> names_at fs' (sv_i sv') n slot \<and> dir_map fs' (sv_i sv') = (dir_map fs (sv_i sv))(n \<mapsto> ino)
      | Inl e \<Rightarrow> dir_map fs' (sv_i sv') = dir_map fs (sv_i sv) \<and>
          (e = EEXIST \<or> e = ENAMETOOLONG \<and> 60 \<le> length n \<or> e = ENOSPC \<and> disk_full fs' \<or> e = EFBIG \<and> slots (sv_i sv) = 1144))"

lemma sfs_dir_link_ok:
  assumes "fs_ok fs" "inode_ok fs (sv_i sv)" "small_fs fs" "dir_ok fs (sv_i sv)" "terminated name" "ino \<noteq> 0"
  shows "\<exists>r fs' sv'. sfs_dir_link fs sv name ino = Some (r, fs', sv') \<and> linked fs sv (cstr name) ino r fs' sv'"
proof -
  let ?i = "sv_i sv" and ?n = "cstr name"
  obtain fs1 hit emp where f: "sfs_dir_findname fs sv name = Some (if hit \<noteq> None then Inr () else Inl ENOENT, hit, emp, fs1, sv)" "same_blocks fs fs1"
      "map_option fst hit = dir_map fs ?i ?n" "\<And>k. emp = Some k \<Longrightarrow> k < slots ?i \<and> sfd_ino (entry fs ?i k) = 0"
    using sfs_dir_findname_ok [OF assms(1-5)] by blast
  note S = same_blocksD [OF f(2)] same_blocks_dir [OF f(2)] same_blocks_step [OF assms(1,2) f(2)]
  show ?thesis
  proof (cases "hit \<noteq> None \<or> 60 \<le> length ?n")
    case True
    then have "sfs_dir_link fs sv name ino = Some (if hit \<noteq> None then Inl EEXIST else Inl ENAMETOOLONG, fs1, sv)"
      using f(1) strlen_spec [OF assms(5)] by (auto simp: sfs_dir_link_def SFS_NAMELEN_def)
    moreover have "linked fs sv ?n ino (if hit \<noteq> None then Inl EEXIST else Inl ENAMETOOLONG) fs1 sv"
      using True f(3) [symmetric] S(9-13) assms(4) by (cases hit) (auto simp: linked_def same_vnode_def)
    ultimately show ?thesis by blast
  next
    case False
    define k where "k = (case emp of Some s \<Rightarrow> s | None \<Rightarrow> slots ?i)"
    define sd where "sd = \<lparr>sfd_ino = ino, sfd_name = ?n @ [0] @ drop (length ?n + 1) (replicate 60 0)\<rparr>"
    have k: "k \<le> slots ?i" "k < slots ?i \<longrightarrow> sfd_ino (entry fs1 ?i k) = 0" "k < 2 ^ 25"
      using f(4) dir_okD(5) [OF assms(4)] same_blocks_entry [OF f(2)] by (auto simp: k_def split: option.splits)
    have sd: "length (sfd_name sd) = 60" "name_of sd = ?n" "sfd_ino sd = ino"
      using False new_entry_name [of ?n ino] cstr_nonzero by (auto simp: sd_def)
    obtain r fs2 sv2 where w: "sfs_writedir fs1 sv sd (int k) = Some (r, fs2, sv2)" "wrote_entry fs1 sv sd k r fs2 sv2"
      using sfs_writedir_ok [OF S(7) [OF assms(1)] S(8) [OF assms(2)] _ k(3) sd(1)] S(12) assms(3) by auto
    have "strcpy (replicate 60 0) name = Some (sfd_name sd)"
      using strcpy_spec [OF assms(5), of "replicate 60 0"] False by (simp add: sd_def)
    then have run: "sfs_dir_link fs sv name ino = Some (case r of Inl e \<Rightarrow> Inl e | Inr _ \<Rightarrow> Inr k, fs2, sv2)"
      using f(1) False strlen_spec [OF assms(5)] w(1) nentries_ok [OF assms(4)]
      by (cases r; cases emp) (simp_all add: sfs_dir_link_def SFS_NAMELEN_def k_def sd_def not_le)
    have none: "dir_map fs1 ?i ?n = None" using False f(3) S(11) by (cases hit) auto
    have step: "file_step fs ?i fs2 (sv_i sv2)" "same_vnode sv sv2" using w(2) file_step_trans [OF S(13)] by (auto simp: wrote_entry_def)
    have dk: "dir_ok fs1 ?i" using S(10) assms(4) by simp
    show ?thesis
    proof (cases r)
      case (Inl e)
      note F = wrote_entry_failed [OF w(2) [unfolded Inl] dk k(1)]
      have "linked fs sv ?n ino (Inl e) fs2 sv2" using F step none S(11) by (auto simp: linked_def)
      then show ?thesis using run Inl by simp
    next
      case (Inr u)
      then have w': "wrote_entry fs1 sv sd k (Inr ()) fs2 sv2" using w(2) by simp
      note P = put_entry [OF w' dk k(1) sd(1)] and N = put_name [OF w' dk k(1) sd(1) _ _ k(2), unfolded sd(2,3), OF assms(6) none]
      have "k < slots (sv_i sv2)" by (simp add: P(1))
      moreover have "names_at fs2 (sv_i sv2) ?n k" using P(5) [of k ?n] sd assms(6) by (simp add: P(1))
      ultimately have "linked fs sv ?n ino (Inr k) fs2 sv2" using N step none S(11) by (simp add: linked_def)
      then show ?thesis using run Inr by simp
    qed
  qed
qed

lemma sfs_dir_unlink_ok:
  assumes "fs_ok fs" "inode_ok fs (sv_i sv)" "small_fs fs" "dir_ok fs (sv_i sv)" "k < slots (sv_i sv)" "names_at fs (sv_i sv) n k"
  shows "\<exists>r fs' sv'. sfs_dir_unlink fs sv k = Some (r, fs', sv') \<and> file_step fs (sv_i sv) fs' (sv_i sv') \<and> same_vnode sv sv' \<and> dir_ok fs' (sv_i sv') \<and>
    dir_map fs' (sv_i sv') = (if r = Inr () then (dir_map fs (sv_i sv))(n := None) else dir_map fs (sv_i sv)) \<and> (r = Inr () \<or> r = Inl ENOSPC \<and> disk_full fs')"
proof -
  let ?sd = "\<lparr>sfd_ino = SFS_NOINO, sfd_name = replicate SFS_NAMELEN 0\<rparr>"
  have sd: "length (sfd_name ?sd) = 60" "sfd_ino ?sd = 0" by (simp_all add: SFS_NAMELEN_def SFS_NOINO_def)
  have k: "k < 2 ^ 25" "k \<le> slots (sv_i sv)" using assms(5) dir_okD(5) [OF assms(4)] by simp_all
  obtain r fs' sv' where w: "sfs_writedir fs sv ?sd (int k) = Some (r, fs', sv')" "wrote_entry fs sv ?sd k r fs' sv'"
    using sfs_writedir_ok [OF assms(1-3) k(1) sd(1)] by blast
  have step: "file_step fs (sv_i sv) fs' (sv_i sv')" "same_vnode sv sv'" using w(2) by (auto simp: wrote_entry_def)
  show ?thesis
  proof (cases r)
    case (Inl e)
    note F = wrote_entry_failed [OF w(2) [unfolded Inl] assms(4) k(2)]
    have "k * 64 + 64 \<le> max_file" using slot_end [OF assms(5)] dir_okD(3,4) [OF assms(4)] by simp
    then have "e = ENOSPC \<and> disk_full fs'" using w(2) Inl by (auto simp: wrote_entry_def)
    then show ?thesis using w(1) F step Inl by (simp add: sfs_dir_unlink_def)
  next
    case (Inr u)
    note D = drop_name [OF _ assms(4,5) sd assms(6), of fs' sv']
    show ?thesis using w step Inr D by (simp add: sfs_dir_unlink_def)
  qed
qed

text \<open>An empty directory on the sample file system.\<close>

definition sample_dir :: sfs_vnode where
  "sample_dir = sample_file\<lparr>vn_ops := Sfs_dirops, sv_i := (sv_i sample_file)\<lparr>sfi_type := SFS_TYPE_DIR\<rparr>, sv_ino := 1\<rparr>"

lemma sample_dir_ok: "inode_ok sample_fs (sv_i sample_dir)" "dir_ok sample_fs (sv_i sample_dir)"
proof -
  have t: "inode_ok fs (i\<lparr>sfi_type := t\<rparr>) = inode_ok fs i" for fs i t
    by (simp add: inode_ok_def inode_shape_def owned_def block_map_def idwords_def)
  show "inode_ok sample_fs (sv_i sample_dir)" using sample_fs_ok(2) by (simp add: sample_dir_def t)
  show "dir_ok sample_fs (sv_i sample_dir)" by (simp add: dir_ok_def sample_dir_def sample_file_def slots_def max_file_def)
qed

text \<open>C19: A directory implements a map from names to inode numbers: looking up a name reads the directory, never fails on a
  working disk, and returns exactly what the map holds.\<close>

theorem sfs_dir_findname_lookup:
  assumes "fs_ok fs" "inode_ok fs (sv_i sv)" "small_fs fs" "dir_ok fs (sv_i sv)" "terminated name"
  shows "\<exists>fs' hit emp. sfs_dir_findname fs sv name = Some (if hit \<noteq> None then Inr () else Inl ENOENT, hit, emp, fs', sv) \<and>
    same_blocks fs fs' \<and> map_option fst hit = dir_map fs (sv_i sv) (cstr name)"
  using sfs_dir_findname_ok [OF assms] by blast

theorem sfs_dir_findname_lookup_witness:
  "\<exists>fs' emp. sfs_dir_findname sample_fs sample_dir [102, 0] = Some (Inl ENOENT, None, emp, fs', sample_dir)"
proof -
  have "dir_map sample_fs (sv_i sample_dir) (cstr [102, 0]) = None"
    by (simp add: dir_map_None slots_def sample_dir_def sample_file_def)
  then show ?thesis
    using sfs_dir_findname_lookup [OF sample_fs_ok(1) sample_dir_ok(1) sample_fs_ok(3) sample_dir_ok(2), of "[102, 0]"]
    by (auto simp: terminated_at_def)
qed

text \<open>C11: Adding a name to a directory updates the map at this name and nowhere else. The only failures are an existing
  name, a name of sixty characters or more, a full disk and a directory of the largest size, and they leave the map as it
  is. The directory stays well-formed: no name appears twice.\<close>

theorem sfs_dir_link_adds:
  assumes "fs_ok fs" "inode_ok fs (sv_i sv)" "small_fs fs" "dir_ok fs (sv_i sv)" "terminated name" "ino \<noteq> 0"
  shows "\<exists>r fs' sv'. sfs_dir_link fs sv name ino = Some (r, fs', sv') \<and> linked fs sv (cstr name) ino r fs' sv'"
  using assms by (rule sfs_dir_link_ok)

theorem sfs_dir_link_adds_witness:
  "\<exists>slot fs' sv'. sfs_dir_link sample_fs sample_dir [102, 0] 3 = Some (Inr slot, fs', sv') \<and> dir_map fs' (sv_i sv') [102] = Some 3"
proof -
  have none: "dir_map sample_fs (sv_i sample_dir) [102] = None"
    by (simp add: dir_map_None slots_def sample_dir_def sample_file_def)
  have z: "slots (sv_i sample_dir) = 0" by (simp add: slots_def sample_dir_def sample_file_def)
  have c: "cstr [102, 0 :: u8] = [102]" by (simp add: cstr_at_def)
  obtain r fs' sv' where l: "sfs_dir_link sample_fs sample_dir [102, 0] 3 = Some (r, fs', sv')" "linked sample_fs sample_dir [102] 3 r fs' sv'"
    using sfs_dir_link_adds [OF sample_fs_ok(1) sample_dir_ok(1) sample_fs_ok(3) sample_dir_ok(2), of "[102, 0]" 3]
    unfolding c by (auto simp: terminated_at_def)
  have "\<not> disk_full fs'" using enough_room [OF _ sample_room] l(2) by (auto simp: linked_def)
  then show ?thesis using l none z by (cases r) (auto simp: linked_def)
qed

text \<open>C20: Removing the entry of a slot deletes its name from the map and nothing else.\<close>

theorem sfs_dir_unlink_removes:
  assumes "fs_ok fs" "inode_ok fs (sv_i sv)" "small_fs fs" "dir_ok fs (sv_i sv)" "k < slots (sv_i sv)" "names_at fs (sv_i sv) n k"
  shows "\<exists>r fs' sv'. sfs_dir_unlink fs sv k = Some (r, fs', sv') \<and> file_step fs (sv_i sv) fs' (sv_i sv') \<and> same_vnode sv sv' \<and> dir_ok fs' (sv_i sv') \<and>
    dir_map fs' (sv_i sv') = (if r = Inr () then (dir_map fs (sv_i sv))(n := None) else dir_map fs (sv_i sv)) \<and> (r = Inr () \<or> r = Inl ENOSPC \<and> disk_full fs')"
  using assms by (rule sfs_dir_unlink_ok)

text \<open>A name added and removed again.\<close>

theorem sfs_dir_unlink_removes_witness:
  "\<exists>slot fs1 sv1 r fs2 sv2. sfs_dir_link sample_fs sample_dir [102, 0] 3 = Some (Inr slot, fs1, sv1) \<and>
     sfs_dir_unlink fs1 sv1 slot = Some (r, fs2, sv2) \<and> dir_ok fs2 (sv_i sv2)"
proof -
  have none: "dir_map sample_fs (sv_i sample_dir) [102] = None" and z: "slots (sv_i sample_dir) = 0"
    by (simp_all add: dir_map_None slots_def sample_dir_def sample_file_def)
  have c: "cstr [102, 0 :: u8] = [102]" by (simp add: cstr_at_def)
  obtain r fs1 sv1 where l: "sfs_dir_link sample_fs sample_dir [102, 0] 3 = Some (r, fs1, sv1)" "linked sample_fs sample_dir [102] 3 r fs1 sv1"
    using sfs_dir_link_ok [OF sample_fs_ok(1) sample_dir_ok(1) sample_fs_ok(3) sample_dir_ok(2), of "[102, 0]" 3]
    unfolding c by (auto simp: terminated_at_def)
  have "\<not> disk_full fs1" using enough_room [OF _ sample_room] l(2) by (auto simp: linked_def)
  then obtain slot where r: "r = Inr slot" using l none z by (cases r) (auto simp: linked_def)
  have "fs_ok fs1" "inode_ok fs1 (sv_i sv1)" "small_fs fs1" "dir_ok fs1 (sv_i sv1)" "slot < slots (sv_i sv1)" "names_at fs1 (sv_i sv1) [102] slot"
    using l(2) r sample_fs_ok(3) by (auto simp: linked_def file_step_def same_rest_def small_fs_def)
  from sfs_dir_unlink_removes [OF this] show ?thesis using l(1) r by blast
qed

end
