(* ===== verification/Spec2Isabelle.thy ===== *)
theory Spec2Isabelle
  imports Prelude Interfaces Bitmap KQueue Endian Millicode ThreadList CoreMap AddrSpace Threads Spinlock Synch Proc WaitExit Kmalloc Uio Strings Disk SfsFile SfsIo SfsDir
begin

text \<open>
  Verification of the OS/161 kernel of this repository.
\<close>

end
